theory Spec2Isabelle
  imports Main "HOL-Library.Word" "HOL-Library.Multiset"
begin

section \<open>The slab allocator with magazines (slab.c)\<close>

text \<open>
  A shallow embedding of the kernel's object allocator: the slab back-end
  (\<open>__kmem_alloc_from_slab\<close>, \<open>__kmem_free_to_slab\<close>, \<open>kmem_cache_grow\<close>,
  \<open>kmem_slab_destroy\<close>, \<open>kmem_cache_reap\<close>), the bufctl hash index, and the
  magazine front end (\<open>kmem_cache_alloc\<close>, \<open>kmem_cache_free\<close>, \<open>lock_depot\<close>).

  Conventions.
  \<^item> Pointers to objects and to slab records are addresses (\<open>nat\<close>), \<open>NULL\<close> is 0.
    The slab records live in a store \<open>slabs\<close> from addresses to records; the
    three slab lists hold addresses, as the TAILQs hold pointers.
  \<^item> BSD lists, SLISTs and TAILQs are HOL lists, head first.
  \<^item> A magazine is owned by one holder at a time and only ever moved, so the
    magazine pointers of the per-CPU caches and of the depot are the magazine
    records themselves.
  \<^item> The unsigned counters are machine words (\<open>size_t\<close> and \<open>uint64_t\<close> as
    64 bits, \<open>unsigned int\<close> as 32 bits), so that a decrement at zero wraps
    as it does in C. The magazine capacities \<open>magsize\<close> and \<open>nr_rounds\<close>, which
    the code only steps inside \<open>0 .. KMC_MAG_MAX_SZ\<close>, and sizes and addresses
    are natural numbers.
  \<^item> Every panic, \<open>error()\<close>, failed assertion and wild memory access is a value
    \<open>Inl e\<close>; the two \<open>goto\<close> loops of the front end are partial functions in the
    option monad, \<open>None\<close> meaning that the loop never leaves.
  \<^item> The locks are not modelled: each function runs alone. What the
    environment decides is an input: whether \<open>spin_trylock_irqsave\<close> succeeds
    and what \<open>nsec()\<close> returns, what the source arena and the allocator's own
    bookkeeping caches (\<open>kmem_magazine_cache\<close>, \<open>kmem_slab_cache\<close>) return.
    What the code hands back to them is recorded as a list of events.
  \<^item> The magazines come from \<open>kmem_magazine_cache\<close>. For every other cache
    that is a cache outside the state of the call, and what it returns is an
    input. For \<open>kmem_magazine_cache\<close> itself the calls are calls of the
    allocator on the cache at hand; the functions that take magazines have a
    parameter \<open>mc\<close> that tells the two cases apart.
  \<^item> \<open>slab.h\<close>, \<open>hash.h\<close> and \<open>arena.h\<close> are not part of the sources at hand:
    their constants and the hash helpers are the fields of a record \<open>config\<close>.
\<close>

subsection \<open>Data\<close>

type_synonym addr = nat

definition NULL :: addr where
  "NULL = 0"

datatype kmc_flag = KMC_QCACHE | KMC_NOTOUCH | KMC_USE_BUFCTL

datatype mem_flag = MEM_ATOMIC | MEM_WAIT | MEM_ERROR

datatype error = ENOMEM | PANIC | FAULT

record hash_helper =
  nr_hash_lists :: nat
  nr_hash_bits :: nat
  nr_items :: nat
  load_limit :: nat

record config =
  PGSIZE :: nat
  sizeof_kmem_slab :: nat
  NUM_BUF_PER_SLAB :: nat
  SLAB_LARGE_CUTOFF :: nat
  KMC_MAG_MIN_SZ :: nat
  KMC_MAG_MAX_SZ :: nat
  resize_timeout_ns :: "64 word"
  resize_threshold :: "32 word"
  hash_ptr :: "addr \<Rightarrow> nat \<Rightarrow> nat"
  hash_init_hh :: hash_helper
  hash_needs_more :: "hash_helper \<Rightarrow> bool"
  hash_next_nr_lists :: "hash_helper \<Rightarrow> nat"
  hash_incr_nr_lists :: "hash_helper \<Rightarrow> hash_helper"
  hash_reset_load_limit :: "hash_helper \<Rightarrow> hash_helper"
  ROUNDUPPWR2 :: "nat \<Rightarrow> nat"

record kmem_bufctl =
  buf_addr :: addr
  my_slab :: addr

datatype event =
    CTOR addr
  | DTOR addr
  | ARENA_FREE addr nat
  | BUFCTL_FREE kmem_bufctl
  | SLAB_FREE addr
  | BASE_FREE

record kmem_slab =
  num_busy_obj :: "64 word"
  num_total_obj :: "64 word"
  free_small_obj :: "addr list"
  bufctl_freelist :: "kmem_bufctl list"

record kmem_magazine =
  nr_rounds :: nat
  rounds :: "addr list"

record kmem_pcpu_cache =
  magsize :: nat
  loaded :: kmem_magazine
  prev :: kmem_magazine
  nr_allocs_ever :: "64 word"

record kmem_depot =
  not_empty :: "kmem_magazine list"
  empty :: "kmem_magazine list"
  depot_magsize :: nat
  nr_not_empty :: "32 word"
  nr_empty :: "32 word"
  busy_count :: "32 word"
  busy_start :: "64 word"

subsection \<open>The depot lock and its contention accounting\<close>

text \<open>
  \<open>lock_depot\<close>. The second argument is what the environment decides:
  \<open>None\<close> when \<open>spin_trylock_irqsave\<close> takes the lock at once, \<open>Some time\<close> when
  it does not and \<open>nsec()\<close>, read before blocking, returns \<open>time\<close>. \<open>time\<close> and
  \<open>resize_timeout_ns\<close> are \<open>uint64_t\<close>, so the test of the window is a
  subtraction modulo \<open>2 ^ 64\<close>.
\<close>

definition lock_depot :: "config \<Rightarrow> 64 word option \<Rightarrow> kmem_depot \<Rightarrow> kmem_depot" where
  "lock_depot cfg contended depot =
     (case contended of
        None \<Rightarrow> depot
      | Some time \<Rightarrow>
          if nr_not_empty depot = 0 then depot
          else
            let depot1 = (if time - busy_start depot > resize_timeout_ns cfg
                          then depot\<lparr>busy_count := 0, busy_start := time\<rparr>
                          else depot);
                depot2 = depot1\<lparr>busy_count := busy_count depot1 + 1\<rparr>
            in if busy_count depot2 > resize_threshold cfg
               then depot2\<lparr>busy_count := 0,
                           depot_magsize := min (KMC_MAG_MAX_SZ cfg) (depot_magsize depot2 + 1)\<rparr>
               else depot2)"

text \<open>
  The accounting as the specification words it: the window has expired when
  the sampled time exceeds \<open>busy_start + resize_timeout\<close>, read as a comparison
  of numbers.
\<close>

definition lock_depot_spec :: "config \<Rightarrow> 64 word \<Rightarrow> kmem_depot \<Rightarrow> kmem_depot" where
  "lock_depot_spec cfg time depot =
     (if nr_not_empty depot = 0 then depot
      else
        let depot1 = (if unat time > unat (busy_start depot) + unat (resize_timeout_ns cfg)
                      then depot\<lparr>busy_count := 0, busy_start := time\<rparr>
                      else depot);
            depot2 = depot1\<lparr>busy_count := busy_count depot1 + 1\<rparr>
        in if busy_count depot2 > resize_threshold cfg
           then depot2\<lparr>busy_count := 0,
                       depot_magsize := min (KMC_MAG_MAX_SZ cfg) (depot_magsize depot2 + 1)\<rparr>
           else depot2)"

subsection \<open>Magazines\<close>

record kmem_cache =
  obj_size :: nat
  import_amt :: nat
  align :: nat
  flags :: "kmc_flag set"
  full_slab_list :: "addr list"
  partial_slab_list :: "addr list"
  empty_slab_list :: "addr list"
  slabs :: "addr \<rightharpoonup> kmem_slab"
  ctor :: "(addr \<Rightarrow> mem_flag set \<Rightarrow> int) option"
  dtor :: bool
  nr_cur_alloc :: "64 word"
  alloc_hash :: "kmem_bufctl list list"
  alloc_hash_is_static :: bool
  hh :: hash_helper
  depot :: kmem_depot
  pcpu_caches :: "kmem_pcpu_cache list"

text \<open>
  What the environment returns during one call of the allocator:
  \<open>trylock n\<close> for the \<open>n\<close>-th \<open>lock_depot\<close> of the call, \<open>arena_alloc\<close> for
  \<open>arena_alloc(cp->source, ...)\<close>, \<open>slab_alloc\<close> for
  \<open>kmem_cache_alloc(kmem_slab_cache, 0)\<close> and \<open>base_zalloc\<close> for whether
  \<open>base_zalloc\<close> finds memory for a larger hash table.

  \<open>magazine_alloc n\<close> is the outcome of the \<open>n\<close>-th allocation of a magazine
  from \<open>kmem_magazine_cache\<close> when that is another cache than the one the
  call works on: \<open>Some mag\<close> is the magazine returned, \<open>None\<close> stands for the
  allocation that does not return. These allocations never return \<open>NULL\<close>:
  their flags are \<open>MEM_ATOMIC\<close> or \<open>MEM_WAIT\<close>, without \<open>MEM_ERROR\<close>, so that
  \<open>__kmem_alloc_from_slab\<close> panics when \<open>kmem_magazine_cache\<close> cannot grow, and
  the constructor \<open>__mag_ctor\<close> of the magazines returns 0.
  \<open>magazine_at p\<close> is the magazine found at the address \<open>p\<close> when
  \<open>kmem_magazine_cache\<close> hands out its own object \<open>p\<close> as a magazine.
\<close>

record env =
  trylock :: "nat \<Rightarrow> 64 word option"
  magazine_alloc :: "nat \<Rightarrow> kmem_magazine option"
  magazine_at :: "addr \<Rightarrow> kmem_magazine"
  arena_alloc :: addr
  slab_alloc :: addr
  base_zalloc :: bool

definition use_bufctls :: "kmem_cache \<Rightarrow> bool" where
  "use_bufctls cp = (KMC_USE_BUFCTL \<in> flags cp)"

definition mag_is_empty :: "kmem_magazine \<Rightarrow> bool" where
  "mag_is_empty mag = (nr_rounds mag = 0)"

definition swap_mags :: "kmem_pcpu_cache \<Rightarrow> kmem_pcpu_cache" where
  "swap_mags pcc = pcc\<lparr>prev := loaded pcc, loaded := prev pcc\<rparr>"

definition return_to_depot :: "kmem_depot \<Rightarrow> kmem_magazine \<Rightarrow> kmem_depot" where
  "return_to_depot d mag =
     (if mag_is_empty mag
      then d\<lparr>empty := mag # empty d, nr_empty := nr_empty d + 1\<rparr>
      else d\<lparr>not_empty := mag # not_empty d, nr_not_empty := nr_not_empty d + 1\<rparr>)"

subsection \<open>The bufctl hash index\<close>

definition ROUNDDOWN :: "nat \<Rightarrow> nat \<Rightarrow> nat" where
  "ROUNDDOWN a n = a - a mod n"

definition ROUNDUP :: "nat \<Rightarrow> nat \<Rightarrow> nat" where
  "ROUNDUP a n = ROUNDDOWN (a + n - 1) n"

definition SIZE_MAX :: nat where
  "SIZE_MAX = 2 ^ 64 - 1"

text \<open>\<open>BSD_LIST_INSERT_HEAD(&tbl[idx], bc, link)\<close>; an index outside the table is a wild write.\<close>

definition hash_insert :: "kmem_bufctl list list \<Rightarrow> nat \<Rightarrow> kmem_bufctl \<Rightarrow> error + kmem_bufctl list list" where
  "hash_insert tbl idx bc =
     (if idx < length tbl then Inr (tbl[idx := bc # tbl ! idx]) else Inl FAULT)"

text \<open>
  The two loops of \<open>__try_hash_resize\<close>: every bufctl of every chain of the
  old table is unlinked, head first, and put at the head of its chain in the
  new table.
\<close>

fun rehash_chain :: "config \<Rightarrow> nat \<Rightarrow> kmem_bufctl list \<Rightarrow> kmem_bufctl list list \<Rightarrow> error + kmem_bufctl list list" where
  "rehash_chain cfg bits [] tbl = Inr tbl"
| "rehash_chain cfg bits (bc_i # chain) tbl =
     (case hash_insert tbl (hash_ptr cfg (buf_addr bc_i) bits) bc_i of
        Inl e \<Rightarrow> Inl e
      | Inr tbl' \<Rightarrow> rehash_chain cfg bits chain tbl')"

fun rehash_table :: "config \<Rightarrow> nat \<Rightarrow> kmem_bufctl list list \<Rightarrow> kmem_bufctl list list \<Rightarrow> error + kmem_bufctl list list" where
  "rehash_table cfg bits [] tbl = Inr tbl"
| "rehash_table cfg bits (chain # old_tbl) tbl =
     (case rehash_chain cfg bits chain tbl of
        Inl e \<Rightarrow> Inl e
      | Inr tbl' \<Rightarrow> rehash_table cfg bits old_tbl tbl')"

definition try_hash_resize :: "config \<Rightarrow> env \<Rightarrow> kmem_cache \<Rightarrow> error + (kmem_cache \<times> event list)" where
  "try_hash_resize cfg e cp =
     (if \<not> hash_needs_more cfg (hh cp) then Inr (cp, [])
      else
        let new_tbl_nr_lists = hash_next_nr_lists cfg (hh cp) in
        if \<not> base_zalloc e then Inr (cp, [])
        else
          let old_tbl = alloc_hash cp;
              old_tbl_nr_lists = nr_hash_lists (hh cp);
              hh1 = hash_incr_nr_lists cfg (hh cp)
          in if old_tbl_nr_lists > length old_tbl then Inl FAULT
             else
               case rehash_table cfg (nr_hash_bits hh1) (take old_tbl_nr_lists old_tbl)
                      (replicate new_tbl_nr_lists []) of
                 Inl err \<Rightarrow> Inl err
               | Inr new_tbl \<Rightarrow>
                   Inr (cp\<lparr>alloc_hash := new_tbl, alloc_hash_is_static := False,
                           hh := hash_reset_load_limit cfg hh1\<rparr>,
                        if alloc_hash_is_static cp then [] else [BASE_FREE]))"

definition track_alloc :: "config \<Rightarrow> env \<Rightarrow> kmem_cache \<Rightarrow> kmem_bufctl \<Rightarrow> error + (kmem_cache \<times> event list)" where
  "track_alloc cfg e cp bc =
     (case hash_insert (alloc_hash cp) (hash_ptr cfg (buf_addr bc) (nr_hash_bits (hh cp))) bc of
        Inl err \<Rightarrow> Inl err
      | Inr tbl \<Rightarrow>
          try_hash_resize cfg e
            (cp\<lparr>alloc_hash := tbl, hh := (hh cp)\<lparr>nr_items := nr_items (hh cp) + 1\<rparr>\<rparr>))"

text \<open>
  \<open>__yank_bufctl\<close>: the first bufctl of the chain whose address is \<open>buf\<close> is
  unlinked and returned; the code panics when there is none.
\<close>

definition yank_bufctl :: "config \<Rightarrow> kmem_cache \<Rightarrow> addr \<Rightarrow> error + (kmem_bufctl \<times> kmem_cache)" where
  "yank_bufctl cfg cp buf =
     (let hash_idx = hash_ptr cfg buf (nr_hash_bits (hh cp)) in
      if hash_idx \<ge> length (alloc_hash cp) then Inl FAULT
      else
        case find (\<lambda>bc_i. buf_addr bc_i = buf) (alloc_hash cp ! hash_idx) of
          None \<Rightarrow> Inl PANIC
        | Some bc_i \<Rightarrow>
            Inr (bc_i, cp\<lparr>alloc_hash := (alloc_hash cp)[hash_idx := remove1 bc_i (alloc_hash cp ! hash_idx)]\<rparr>))"

subsection \<open>The slab back-end\<close>

text \<open>\<open>TAILQ_REMOVE\<close> of a slab that is not on the list it is removed from corrupts the lists.\<close>

definition tailq_remove :: "addr list \<Rightarrow> addr \<Rightarrow> error + addr list" where
  "tailq_remove l a_slab = (if a_slab \<in> set l then Inr (remove1 a_slab l) else Inl FAULT)"

text \<open>
  The loop of \<open>kmem_cache_grow\<close> that threads the free list through the page:
  \<open>n\<close> links, then the terminating \<open>NULL\<close>; the list holds \<open>n + 1\<close> objects.
\<close>

fun small_freelist :: "nat \<Rightarrow> addr \<Rightarrow> nat \<Rightarrow> addr list" where
  "small_freelist 0 buf sz = [buf]"
| "small_freelist (Suc n) buf sz = buf # small_freelist n (buf + sz) sz"

text \<open>The loop that sets up the bufctls, each put at the head of the slab's free list.\<close>

fun bufctl_freelist_init :: "nat \<Rightarrow> addr \<Rightarrow> nat \<Rightarrow> addr \<Rightarrow> kmem_bufctl list \<Rightarrow> kmem_bufctl list" where
  "bufctl_freelist_init 0 buf sz a_slab l = l"
| "bufctl_freelist_init (Suc n) buf sz a_slab l =
     bufctl_freelist_init n (buf + sz) sz a_slab (\<lparr>buf_addr = buf, my_slab = a_slab\<rparr> # l)"

text \<open>
  \<open>kmem_cache_grow\<close> returns whether it grew the cache. In the embedded
  layout the slab record sits at the end of the imported page. A cache whose
  objects do not fit (\<open>num_total_obj = 0\<close>, where the loop bound \<open>num_total_obj - 1\<close>
  wraps) makes the code run off the page; an object size of 0 is a division
  by zero.
\<close>

definition kmem_cache_grow :: "config \<Rightarrow> env \<Rightarrow> kmem_cache \<Rightarrow> error + (bool \<times> kmem_cache \<times> event list)" where
  "kmem_cache_grow cfg e cp =
     (if \<not> use_bufctls cp then
        let a_page = arena_alloc e in
        if a_page = NULL then Inr (False, cp, [])
        else
          let a_slab = a_page + PGSIZE cfg - sizeof_kmem_slab cfg;
              total = (PGSIZE cfg - sizeof_kmem_slab cfg) div obj_size cp
          in if obj_size cp = 0 \<or> total = 0 then Inl FAULT
             else Inr (True,
                    cp\<lparr>slabs := (slabs cp)(a_slab \<mapsto>
                           \<lparr>num_busy_obj = 0, num_total_obj = of_nat total,
                            free_small_obj = small_freelist (total - 1) a_page (obj_size cp),
                            bufctl_freelist = []\<rparr>),
                        empty_slab_list := a_slab # empty_slab_list cp\<rparr>, [])
      else
        let a_slab = slab_alloc e in
        if a_slab = NULL then Inr (False, cp, [])
        else
          let buf = arena_alloc e in
          if buf = NULL then Inr (False, cp, [SLAB_FREE a_slab])
          else if obj_size cp = 0 then Inl FAULT
          else
            let total = import_amt cp div obj_size cp
            in Inr (True,
                 cp\<lparr>slabs := (slabs cp)(a_slab \<mapsto>
                        \<lparr>num_busy_obj = 0, num_total_obj = of_nat total,
                         free_small_obj = [],
                         bufctl_freelist = bufctl_freelist_init total buf (obj_size cp) a_slab []\<rparr>),
                     empty_slab_list := a_slab # empty_slab_list cp\<rparr>, []))"

text \<open>
  \<open>__kmem_free_to_slab\<close>. The embedded layout finds the slab record from the
  address of the object; an address whose page holds no slab record of the
  cache is a wild write.
\<close>

definition kmem_free_to_slab :: "config \<Rightarrow> kmem_cache \<Rightarrow> addr \<Rightarrow> error + kmem_cache" where
  "kmem_free_to_slab cfg cp buf =
     (case (if \<not> use_bufctls cp then
              let a_slab = ROUNDDOWN buf (PGSIZE cfg) + PGSIZE cfg - sizeof_kmem_slab cfg in
              (case slabs cp a_slab of
                 None \<Rightarrow> Inl FAULT
               | Some s \<Rightarrow> Inr (cp, a_slab, s\<lparr>free_small_obj := buf # free_small_obj s\<rparr>))
            else
              (case yank_bufctl cfg cp buf of
                 Inl err \<Rightarrow> Inl err
               | Inr (a_bufctl, cp1) \<Rightarrow>
                   (case slabs cp1 (my_slab a_bufctl) of
                      None \<Rightarrow> Inl FAULT
                    | Some s \<Rightarrow>
                        Inr (cp1, my_slab a_bufctl,
                             s\<lparr>bufctl_freelist := a_bufctl # bufctl_freelist s\<rparr>)))) of
        Inl err \<Rightarrow> Inl err
      | Inr (cp1, a_slab, s) \<Rightarrow>
          let s1 = s\<lparr>num_busy_obj := num_busy_obj s - 1\<rparr>;
              cp2 = cp1\<lparr>slabs := (slabs cp1)(a_slab \<mapsto> s1), nr_cur_alloc := nr_cur_alloc cp1 - 1\<rparr>
          in if num_busy_obj s1 + 1 = num_total_obj s1 then
               (case tailq_remove (full_slab_list cp2) a_slab of
                  Inl err \<Rightarrow> Inl err
                | Inr l \<Rightarrow> Inr (cp2\<lparr>full_slab_list := l,
                                    partial_slab_list := a_slab # partial_slab_list cp2\<rparr>))
             else if num_busy_obj s1 = 0 then
               (case tailq_remove (partial_slab_list cp2) a_slab of
                  Inl err \<Rightarrow> Inl err
                | Inr l \<Rightarrow> Inr (cp2\<lparr>partial_slab_list := l,
                                    empty_slab_list := a_slab # empty_slab_list cp2\<rparr>))
             else Inr cp2)"

text \<open>
  \<open>__kmem_alloc_from_slab\<close>, in four steps. First the slab: the head of the
  partial list, else the head of the empty list after growing the cache if
  that list is empty too; the slab is then on the partial list.
\<close>

definition alloc_pick_slab :: "config \<Rightarrow> env \<Rightarrow> kmem_cache \<Rightarrow> mem_flag set \<Rightarrow> error + (addr \<times> kmem_cache \<times> event list)" where
  "alloc_pick_slab cfg e cp fl =
     (case partial_slab_list cp of
        a_slab # _ \<Rightarrow> Inr (a_slab, cp, [])
      | [] \<Rightarrow>
          (case (if empty_slab_list cp = [] then kmem_cache_grow cfg e cp
                 else Inr (True, cp, [])) of
             Inl err \<Rightarrow> Inl err
           | Inr (grown, cp1, evs) \<Rightarrow>
               if \<not> grown then (if MEM_ERROR \<in> fl then Inl ENOMEM else Inl PANIC)
               else
                 (case empty_slab_list cp1 of
                    [] \<Rightarrow> Inl FAULT
                  | a_slab # rest \<Rightarrow>
                      Inr (a_slab,
                           cp1\<lparr>empty_slab_list := rest,
                               partial_slab_list := a_slab # partial_slab_list cp1\<rparr>, evs))))"

text \<open>
  Then the object: the head of the slab's free list. An empty free list is a
  \<open>NULL\<close> that the code dereferences.
\<close>

definition alloc_take_obj :: "config \<Rightarrow> env \<Rightarrow> kmem_cache \<Rightarrow> addr \<Rightarrow> error + (addr \<times> kmem_cache \<times> event list)" where
  "alloc_take_obj cfg e cp a_slab =
     (case slabs cp a_slab of
        None \<Rightarrow> Inl FAULT
      | Some s \<Rightarrow>
          if \<not> use_bufctls cp then
            (case free_small_obj s of
               [] \<Rightarrow> Inl FAULT
             | retval # rest \<Rightarrow>
                 Inr (retval, cp\<lparr>slabs := (slabs cp)(a_slab \<mapsto> s\<lparr>free_small_obj := rest\<rparr>)\<rparr>, []))
          else
            (case bufctl_freelist s of
               [] \<Rightarrow> Inl FAULT
             | a_bufctl # rest \<Rightarrow>
                 (case track_alloc cfg e
                         (cp\<lparr>slabs := (slabs cp)(a_slab \<mapsto> s\<lparr>bufctl_freelist := rest\<rparr>)\<rparr>)
                         a_bufctl of
                    Inl err \<Rightarrow> Inl err
                  | Inr (cp1, evs) \<Rightarrow> Inr (buf_addr a_bufctl, cp1, evs))))"

text \<open>Then the counters, and the move to the full list of a slab that has become full.\<close>

definition alloc_account :: "kmem_cache \<Rightarrow> addr \<Rightarrow> error + kmem_cache" where
  "alloc_account cp a_slab =
     (case slabs cp a_slab of
        None \<Rightarrow> Inl FAULT
      | Some s \<Rightarrow>
          let s1 = s\<lparr>num_busy_obj := num_busy_obj s + 1\<rparr>;
              cp1 = cp\<lparr>slabs := (slabs cp)(a_slab \<mapsto> s1)\<rparr>
          in (case (if num_busy_obj s1 = num_total_obj s1 then
                      (case tailq_remove (partial_slab_list cp1) a_slab of
                         Inl err \<Rightarrow> Inl err
                       | Inr l \<Rightarrow> Inr (cp1\<lparr>partial_slab_list := l,
                                           full_slab_list := a_slab # full_slab_list cp1\<rparr>))
                    else Inr cp1) of
                Inl err \<Rightarrow> Inl err
              | Inr cp2 \<Rightarrow> Inr (cp2\<lparr>nr_cur_alloc := nr_cur_alloc cp2 + 1\<rparr>)))"

text \<open>
  Last, outside the lock, the constructor; when it fails the object goes back
  to its slab and the result is \<open>NULL\<close>.
\<close>

definition kmem_alloc_from_slab :: "config \<Rightarrow> env \<Rightarrow> kmem_cache \<Rightarrow> mem_flag set \<Rightarrow> error + (addr \<times> kmem_cache \<times> event list)" where
  "kmem_alloc_from_slab cfg e cp fl =
     (case alloc_pick_slab cfg e cp fl of
        Inl err \<Rightarrow> Inl err
      | Inr (a_slab, cp1, evs1) \<Rightarrow>
          (case alloc_take_obj cfg e cp1 a_slab of
             Inl err \<Rightarrow> Inl err
           | Inr (retval, cp2, evs2) \<Rightarrow>
               (case alloc_account cp2 a_slab of
                  Inl err \<Rightarrow> Inl err
                | Inr cp3 \<Rightarrow>
                    (case ctor cp3 of
                       None \<Rightarrow> Inr (retval, cp3, evs1 @ evs2)
                     | Some c \<Rightarrow>
                         if c retval fl \<noteq> 0 then
                           (case kmem_free_to_slab cfg cp3 retval of
                              Inl err \<Rightarrow> Inl err
                            | Inr cp4 \<Rightarrow> Inr (NULL, cp4, evs1 @ evs2 @ [CTOR retval]))
                         else Inr (retval, cp3, evs1 @ evs2 @ [CTOR retval])))))"

subsection \<open>The magazine front end\<close>

text \<open>
  The loop at \<open>try_alloc\<close> in \<open>kmem_cache_alloc\<close>, for the per-CPU cache of
  \<open>cpu\<close> (\<open>core_id()\<close>); \<open>n\<close> counts the calls of \<open>lock_depot\<close>. The result
  is the object popped from the loaded magazine, or \<open>NULL\<close> when the depot
  has no magazine with rounds and the call goes on to the slab back-end.
\<close>

function try_alloc :: "config \<Rightarrow> env \<Rightarrow> nat \<Rightarrow> nat \<Rightarrow> kmem_cache \<Rightarrow> error + (addr option \<times> kmem_cache)" where
  "try_alloc cfg e cpu n kc =
     (if cpu \<ge> length (pcpu_caches kc) then Inl FAULT
      else
        let pcc = pcpu_caches kc ! cpu in
        if nr_rounds (loaded pcc) \<noteq> 0 then
          (if nr_rounds (loaded pcc) > length (rounds (loaded pcc)) then Inl FAULT
           else
             Inr (Some (rounds (loaded pcc) ! (nr_rounds (loaded pcc) - 1)),
                  kc\<lparr>pcpu_caches := (pcpu_caches kc)[cpu :=
                       pcc\<lparr>loaded := (loaded pcc)\<lparr>nr_rounds := nr_rounds (loaded pcc) - 1\<rparr>,
                           nr_allocs_ever := nr_allocs_ever pcc + 1\<rparr>]\<rparr>))
        else if \<not> mag_is_empty (prev pcc) then
          try_alloc cfg e cpu n (kc\<lparr>pcpu_caches := (pcpu_caches kc)[cpu := swap_mags pcc]\<rparr>)
        else
          let d = lock_depot cfg (trylock e n) (depot kc) in
          (case not_empty d of
             mag # rest \<Rightarrow>
               let d1 = d\<lparr>not_empty := rest, nr_not_empty := nr_not_empty d - 1\<rparr>;
                   d2 = return_to_depot d1 (prev pcc)
               in try_alloc cfg e cpu (n + 1)
                    (kc\<lparr>depot := d2,
                        pcpu_caches := (pcpu_caches kc)[cpu := pcc\<lparr>prev := loaded pcc, loaded := mag\<rparr>]\<rparr>)
           | [] \<Rightarrow> Inr (None, kc\<lparr>depot := d\<rparr>)))"
  by pat_completeness auto
termination
proof (relation "measure (\<lambda>(cfg, e, cpu, n, kc).
          2 * length (not_empty (depot kc))
          + (if nr_rounds (loaded (pcpu_caches kc ! cpu)) = 0
                \<and> nr_rounds (prev (pcpu_caches kc ! cpu)) \<noteq> 0 then 1 else 0))",
       goal_cases)
  case 1
  show ?case by simp
next
  case 2
  then show ?case by (simp add: swap_mags_def mag_is_empty_def)
next
  case (3 cfg e cpu n kc pcc d mag rest d1 d2)
  then have "not_empty (depot kc) = mag # rest"
    by (simp add: lock_depot_def Let_def split: option.splits if_splits)
  with 3 show ?case
    by (simp add: return_to_depot_def mag_is_empty_def)
qed

text \<open>
  \<open>kmem_cache_alloc\<close>: the magazines first, the slab back-end when they and the
  depot have nothing.
\<close>

definition kmem_cache_alloc :: "config \<Rightarrow> env \<Rightarrow> nat \<Rightarrow> kmem_cache \<Rightarrow> mem_flag set \<Rightarrow> error + (addr \<times> kmem_cache \<times> event list)" where
  "kmem_cache_alloc cfg e cpu kc fl =
     (case try_alloc cfg e cpu 0 kc of
        Inl err \<Rightarrow> Inl err
      | Inr (Some ret, kc1) \<Rightarrow> Inr (ret, kc1, [])
      | Inr (None, kc1) \<Rightarrow> kmem_alloc_from_slab cfg e kc1 fl)"

text \<open>
  \<open>kmem_cache_alloc(kmem_magazine_cache, MEM_ATOMIC)\<close>, the \<open>n\<close>-th of a call
  of \<open>kmem_cache_free\<close> on the cache \<open>kc\<close>. With \<open>mc = None\<close> the cache \<open>kc\<close> is
  not \<open>kmem_magazine_cache\<close>: the call leaves \<open>kc\<close> alone and returns a
  magazine, or it panics. With \<open>mc = Some en\<close> the cache \<open>kc\<close> is
  \<open>kmem_magazine_cache\<close>, and the call is \<open>kmem_cache_alloc\<close> on \<open>kc\<close> itself, in
  the environment \<open>en n\<close>; it returns \<open>NULL\<close> when the constructor of \<open>kc\<close>
  fails.
\<close>

definition magazine_cache_alloc :: "config \<Rightarrow> env \<Rightarrow> (nat \<Rightarrow> env) option \<Rightarrow> nat \<Rightarrow> nat \<Rightarrow> kmem_cache \<Rightarrow> error + (kmem_magazine option \<times> kmem_cache \<times> event list)" where
  "magazine_cache_alloc cfg e mc cpu n kc =
     (case mc of
        None \<Rightarrow>
          (case magazine_alloc e n of
             None \<Rightarrow> Inl PANIC
           | Some mag \<Rightarrow> Inr (Some mag, kc, []))
      | Some en \<Rightarrow>
          (case kmem_cache_alloc cfg (en n) cpu kc {MEM_ATOMIC} of
             Inl err \<Rightarrow> Inl err
           | Inr (p, kc1, evs) \<Rightarrow>
               Inr (if p = NULL then None else Some (magazine_at e p), kc1, evs)))"

text \<open>
  The loop at \<open>try_free\<close> in \<open>kmem_cache_free\<close>; \<open>nl\<close> counts the calls of
  \<open>lock_depot\<close>, \<open>nm\<close> the magazines asked of the magazine cache, and \<open>evs\<close>
  are the events of these allocations so far. The loop ends with \<open>True\<close> when
  the object is in the loaded magazine, and with \<open>False\<close> when the magazine
  cache has returned \<open>NULL\<close> and the slab back-end is to take the object.
  Nothing in the code bounds the number of rounds of the loop.
\<close>

partial_function (option) try_free :: "config \<Rightarrow> env \<Rightarrow> (nat \<Rightarrow> env) option \<Rightarrow> nat \<Rightarrow> addr \<Rightarrow> nat \<Rightarrow> nat \<Rightarrow> kmem_cache \<Rightarrow> event list \<Rightarrow> (error + (bool \<times> kmem_cache \<times> event list)) option" where
  "try_free cfg e mc cpu buf nl nm kc evs =
     (if cpu \<ge> length (pcpu_caches kc) then Some (Inl FAULT)
      else
        let pcc = pcpu_caches kc ! cpu in
        if nr_rounds (loaded pcc) < magsize pcc then
          (if nr_rounds (loaded pcc) \<ge> length (rounds (loaded pcc)) then Some (Inl FAULT)
           else
             Some (Inr (True,
               kc\<lparr>pcpu_caches := (pcpu_caches kc)[cpu :=
                    pcc\<lparr>loaded := (loaded pcc)\<lparr>rounds := (rounds (loaded pcc))[nr_rounds (loaded pcc) := buf],
                                               nr_rounds := nr_rounds (loaded pcc) + 1\<rparr>\<rparr>]\<rparr>,
               evs)))
        else if nr_rounds (prev pcc) < magsize pcc then
          try_free cfg e mc cpu buf nl nm
            (kc\<lparr>pcpu_caches := (pcpu_caches kc)[cpu := swap_mags pcc]\<rparr>) evs
        else
          let d = lock_depot cfg (trylock e nl) (depot kc);
              pcc1 = pcc\<lparr>magsize := depot_magsize d\<rparr>
          in (case empty d of
                mag # rest \<Rightarrow>
                  let d1 = d\<lparr>empty := rest, nr_empty := nr_empty d - 1\<rparr>;
                      d2 = return_to_depot d1 (prev pcc1)
                  in try_free cfg e mc cpu buf (nl + 1) nm
                       (kc\<lparr>depot := d2,
                           pcpu_caches := (pcpu_caches kc)[cpu := pcc1\<lparr>prev := loaded pcc1, loaded := mag\<rparr>]\<rparr>)
                       evs
              | [] \<Rightarrow>
                  let kc1 = kc\<lparr>depot := d, pcpu_caches := (pcpu_caches kc)[cpu := pcc1]\<rparr> in
                  (case magazine_cache_alloc cfg e mc cpu nm kc1 of
                     Inl err \<Rightarrow> Some (Inl err)
                   | Inr (None, kc2, evs1) \<Rightarrow> Some (Inr (False, kc2, evs @ evs1))
                   | Inr (Some mag, kc2, evs1) \<Rightarrow>
                       if nr_rounds mag \<noteq> 0 then Some (Inl PANIC)
                       else
                         let d3 = lock_depot cfg (trylock e (nl + 1)) (depot kc2);
                             d4 = d3\<lparr>empty := mag # empty d3, nr_empty := nr_empty d3 + 1\<rparr>
                         in try_free cfg e mc cpu buf (nl + 2) (nm + 1) (kc2\<lparr>depot := d4\<rparr>)
                              (evs @ evs1))))"

text \<open>
  \<open>kmem_cache_free\<close>: when the magazine cache has returned \<open>NULL\<close>, the
  destructor runs (if the cache has one) and the object goes to the slab
  back-end.
\<close>

definition kmem_cache_free :: "config \<Rightarrow> env \<Rightarrow> (nat \<Rightarrow> env) option \<Rightarrow> nat \<Rightarrow> kmem_cache \<Rightarrow> addr \<Rightarrow> (error + (kmem_cache \<times> event list)) option" where
  "kmem_cache_free cfg e mc cpu kc buf =
     (case try_free cfg e mc cpu buf 0 0 kc [] of
        None \<Rightarrow> None
      | Some (Inl err) \<Rightarrow> Some (Inl err)
      | Some (Inr (True, kc1, evs)) \<Rightarrow> Some (Inr (kc1, evs))
      | Some (Inr (False, kc1, evs)) \<Rightarrow>
          (case kmem_free_to_slab cfg kc1 buf of
             Inl err \<Rightarrow> Some (Inl err)
           | Inr kc2 \<Rightarrow> Some (Inr (kc2, evs @ (if dtor kc1 then [DTOR buf] else [])))))"

text \<open>
  A \<open>kmem_cache_free\<close> followed by a \<open>kmem_cache_alloc\<close> on the same CPU, with
  nothing in between: what the allocation returns.
\<close>

definition free_then_alloc :: "config \<Rightarrow> env \<Rightarrow> (nat \<Rightarrow> env) option \<Rightarrow> env \<Rightarrow> nat \<Rightarrow> kmem_cache \<Rightarrow> addr \<Rightarrow> mem_flag set \<Rightarrow> (error + addr) option" where
  "free_then_alloc cfg e1 mc e2 cpu kc buf fl =
     (case kmem_cache_free cfg e1 mc cpu kc buf of
        None \<Rightarrow> None
      | Some (Inl err) \<Rightarrow> Some (Inl err)
      | Some (Inr (kc1, evs)) \<Rightarrow>
          (case kmem_cache_alloc cfg e2 cpu kc1 fl of
             Inl err \<Rightarrow> Some (Inl err)
           | Inr (ret, kc2, evs2) \<Rightarrow> Some (Inr ret)))"

subsection \<open>Destroying slabs\<close>

text \<open>
  \<open>kmem_slab_destroy\<close> writes nothing to the cache: it gives the slab's region
  back to the source arena and, with bufctls, frees the bufctls of the free
  list and the slab record. The start of the region is the lowest address of
  those bufctls, searched from \<open>SIZE_MAX\<close>.
\<close>

fun destroy_bufctls :: "kmem_bufctl list \<Rightarrow> addr \<Rightarrow> addr \<times> event list" where
  "destroy_bufctls [] buf_start = (buf_start, [])"
| "destroy_bufctls (i # l) buf_start =
     (case destroy_bufctls l (min buf_start (buf_addr i)) of
        (b, evs) \<Rightarrow> (b, BUFCTL_FREE i # evs))"

definition kmem_slab_destroy :: "config \<Rightarrow> kmem_cache \<Rightarrow> addr \<Rightarrow> error + event list" where
  "kmem_slab_destroy cfg cp a_slab =
     (if \<not> use_bufctls cp then Inr [ARENA_FREE (ROUNDDOWN a_slab (PGSIZE cfg)) (PGSIZE cfg)]
      else
        (case slabs cp a_slab of
           None \<Rightarrow> Inl FAULT
         | Some s \<Rightarrow>
             (case destroy_bufctls (bufctl_freelist s) SIZE_MAX of
                (buf_start, evs) \<Rightarrow>
                  Inr (evs @ [ARENA_FREE buf_start (import_amt cp), SLAB_FREE a_slab]))))"

text \<open>
  \<open>kmem_cache_reap\<close> walks the empty list and destroys each slab. The loop
  reads the list; neither it nor \<open>kmem_slab_destroy\<close> unlinks a slab.
\<close>

fun reap_slabs :: "config \<Rightarrow> kmem_cache \<Rightarrow> addr list \<Rightarrow> error + event list" where
  "reap_slabs cfg cp [] = Inr []"
| "reap_slabs cfg cp (a_slab # next) =
     (case kmem_slab_destroy cfg cp a_slab of
        Inl err \<Rightarrow> Inl err
      | Inr evs \<Rightarrow>
          (case reap_slabs cfg cp next of
             Inl err \<Rightarrow> Inl err
           | Inr evs' \<Rightarrow> Inr (evs @ evs')))"

definition kmem_cache_reap :: "config \<Rightarrow> kmem_cache \<Rightarrow> error + (kmem_cache \<times> event list)" where
  "kmem_cache_reap cfg cp =
     (case reap_slabs cfg cp (empty_slab_list cp) of
        Inl err \<Rightarrow> Inl err
      | Inr evs \<Rightarrow> Inr (cp, evs))"

subsection \<open>Creating a cache\<close>

definition depot_init :: "config \<Rightarrow> kmem_depot" where
  "depot_init cfg =
     \<lparr>not_empty = [], empty = [], depot_magsize = KMC_MAG_MIN_SZ cfg,
      nr_not_empty = 0, nr_empty = 0, busy_count = 0, busy_start = 0\<rparr>"

text \<open>
  \<open>__kmem_alloc_from_slab(kmem_magazine_cache, MEM_WAIT)\<close>, the \<open>n\<close>-th of
  \<open>build_pcpu_caches\<close> for the cache \<open>kc\<close> that is being created. With
  \<open>mc = None\<close> the magazine comes from another cache, or the call panics.
  With \<open>mc = Some en\<close> the cache being created is \<open>kmem_magazine_cache\<close>, and
  the call takes an object of \<open>kc\<close> itself from the slab back-end, in the
  environment \<open>en n\<close>. When its constructor fails the call returns \<open>NULL\<close>,
  which \<open>build_pcpu_caches\<close> stores as the magazine of the core: the model
  has no such magazine and gives the wild access that the first use of the
  per-CPU cache would be.
\<close>

definition magazine_from_slab :: "config \<Rightarrow> env \<Rightarrow> (nat \<Rightarrow> env) option \<Rightarrow> nat \<Rightarrow> kmem_cache \<Rightarrow> error + (kmem_magazine \<times> kmem_cache \<times> event list)" where
  "magazine_from_slab cfg e mc n kc =
     (case mc of
        None \<Rightarrow>
          (case magazine_alloc e n of
             None \<Rightarrow> Inl PANIC
           | Some mag \<Rightarrow> Inr (mag, kc, []))
      | Some en \<Rightarrow>
          (case kmem_alloc_from_slab cfg (en n) kc {MEM_WAIT} of
             Inl err \<Rightarrow> Inl err
           | Inr (p, kc1, evs) \<Rightarrow>
               if p = NULL then Inl FAULT else Inr (magazine_at e p, kc1, evs)))"

text \<open>
  \<open>build_pcpu_caches\<close>: the loop over the cores, from core \<open>i\<close> on with \<open>n\<close>
  cores to go; each core takes its loaded and its previous magazine.
\<close>

fun build_pcpu_caches :: "config \<Rightarrow> env \<Rightarrow> (nat \<Rightarrow> env) option \<Rightarrow> nat \<Rightarrow> nat \<Rightarrow> kmem_cache \<Rightarrow> error + (kmem_pcpu_cache list \<times> kmem_cache \<times> event list)" where
  "build_pcpu_caches cfg e mc i 0 kc = Inr ([], kc, [])"
| "build_pcpu_caches cfg e mc i (Suc n) kc =
     (case magazine_from_slab cfg e mc (2 * i) kc of
        Inl err \<Rightarrow> Inl err
      | Inr (mag_loaded, kc1, evs1) \<Rightarrow>
          (case magazine_from_slab cfg e mc (2 * i + 1) kc1 of
             Inl err \<Rightarrow> Inl err
           | Inr (mag_prev, kc2, evs2) \<Rightarrow>
               (case build_pcpu_caches cfg e mc (i + 1) n kc2 of
                  Inl err \<Rightarrow> Inl err
                | Inr (pccs, kc3, evs3) \<Rightarrow>
                    Inr (\<lparr>magsize = KMC_MAG_MIN_SZ cfg, loaded = mag_loaded, prev = mag_prev,
                          nr_allocs_ever = 0\<rparr> # pccs,
                         kc3, evs1 @ evs2 @ evs3))))"

text \<open>
  \<open>__kmem_cache_create\<close>, for \<open>num_cores\<close> cores and a source arena whose
  \<open>qcache_max\<close> is given. The import size is computed from the size the caller
  asks for, the object size of the cache is that size rounded up to the
  alignment. The per-CPU caches are built last, when the rest of the cache is
  set up: for \<open>kmem_magazine_cache\<close> the magazines are objects of the cache
  that is being created.
\<close>

definition kmem_cache_create :: "config \<Rightarrow> env \<Rightarrow> (nat \<Rightarrow> env) option \<Rightarrow> nat \<Rightarrow> nat \<Rightarrow> nat \<Rightarrow> nat \<Rightarrow> kmc_flag set \<Rightarrow> (addr \<Rightarrow> mem_flag set \<Rightarrow> int) option \<Rightarrow> bool \<Rightarrow> error + (kmem_cache \<times> event list)" where
  "kmem_cache_create cfg e mc num_cores qcache_max sz al fl c d =
     (if al = 0 then Inl PANIC
      else if al > PGSIZE cfg then Inl PANIC
      else
        (case build_pcpu_caches cfg e mc 0 num_cores
                \<lparr>obj_size = ROUNDUP sz al,
                 import_amt = (if KMC_QCACHE \<in> fl then ROUNDUPPWR2 cfg (3 * qcache_max)
                               else ROUNDUP (NUM_BUF_PER_SLAB cfg * sz) (PGSIZE cfg)),
                 align = al,
                 flags = (if sz > SLAB_LARGE_CUTOFF cfg \<or> KMC_NOTOUCH \<in> fl
                          then insert KMC_USE_BUFCTL fl else fl),
                 full_slab_list = [], partial_slab_list = [], empty_slab_list = [],
                 slabs = Map.empty,
                 ctor = c, dtor = d,
                 nr_cur_alloc = 0,
                 alloc_hash = replicate (nr_hash_lists (hash_init_hh cfg)) [],
                 alloc_hash_is_static = True,
                 hh = hash_init_hh cfg,
                 depot = depot_init cfg,
                 pcpu_caches = []\<rparr> of
           Inl err \<Rightarrow> Inl err
         | Inr (pccs, kc, evs) \<Rightarrow> Inr (kc\<lparr>pcpu_caches := pccs\<rparr>, evs)))"

subsection \<open>Well-formed magazines\<close>

text \<open>
  What the front end assumes of the magazines it handles on a CPU: an array of
  at least \<open>KMC_MAG_MAX_SZ\<close> rounds in each, a target within \<open>1 .. KMC_MAG_MAX_SZ\<close>,
  and no rounds in the magazines of the depot's empty list.
\<close>

definition front_ok :: "config \<Rightarrow> kmem_cache \<Rightarrow> nat \<Rightarrow> bool" where
  "front_ok cfg kc cpu =
     (cpu < length (pcpu_caches kc)
      \<and> KMC_MAG_MAX_SZ cfg \<le> length (rounds (loaded (pcpu_caches kc ! cpu)))
      \<and> KMC_MAG_MAX_SZ cfg \<le> length (rounds (prev (pcpu_caches kc ! cpu)))
      \<and> magsize (pcpu_caches kc ! cpu) \<le> KMC_MAG_MAX_SZ cfg
      \<and> 1 \<le> depot_magsize (depot kc)
      \<and> depot_magsize (depot kc) \<le> KMC_MAG_MAX_SZ cfg
      \<and> list_all (\<lambda>m. nr_rounds m = 0 \<and> KMC_MAG_MAX_SZ cfg \<le> length (rounds m)) (empty (depot kc)))"

text \<open>
  What the magazine cache returns when it returns: a magazine as its
  constructor \<open>__mag_ctor\<close> leaves it, with no rounds, and with an array for
  \<open>KMC_MAG_MAX_SZ\<close> rounds.
\<close>

definition magazines_ok :: "config \<Rightarrow> env \<Rightarrow> bool" where
  "magazines_ok cfg e =
     (\<forall>n. case magazine_alloc e n of
             None \<Rightarrow> True
           | Some m \<Rightarrow> nr_rounds m = 0 \<and> KMC_MAG_MAX_SZ cfg \<le> length (rounds m))"

text \<open>
  What is assumed of the objects of \<open>kmem_magazine_cache\<close> itself, for the
  calls in which it takes one of its own objects as a magazine: an object of
  the cache is a magazine as \<open>__mag_ctor\<close> or \<open>drain_mag\<close> leave it.
\<close>

definition magazine_objs_ok :: "config \<Rightarrow> env \<Rightarrow> bool" where
  "magazine_objs_ok cfg e =
     (\<forall>p. p \<noteq> NULL \<longrightarrow>
          nr_rounds (magazine_at e p) = 0 \<and> KMC_MAG_MAX_SZ cfg \<le> length (rounds (magazine_at e p)))"

subsection \<open>Caches that the allocator can reach\<close>

text \<open>
  The slabs on the three lists, the bufctls in the hash index, the rounds
  that a magazine holds, and the objects cached in all the magazines of a
  cache, per-CPU and depot.
\<close>

definition all_slabs :: "kmem_cache \<Rightarrow> addr list" where
  "all_slabs cp = full_slab_list cp @ partial_slab_list cp @ empty_slab_list cp"

definition hash_bufctls :: "kmem_cache \<Rightarrow> kmem_bufctl list" where
  "hash_bufctls cp = concat (alloc_hash cp)"

definition live :: "kmem_magazine \<Rightarrow> addr multiset" where
  "live m = mset (take (nr_rounds m) (rounds m))"

definition cached_objs :: "kmem_cache \<Rightarrow> addr multiset" where
  "cached_objs kc =
     sum_list (map (\<lambda>pcc. live (loaded pcc) + live (prev pcc)) (pcpu_caches kc))
     + sum_list (map live (not_empty (depot kc)))
     + sum_list (map live (empty (depot kc)))"

text \<open>The objects held by the magazines of a depot.\<close>

definition dsum :: "kmem_depot \<Rightarrow> addr multiset" where
  "dsum d = sum_list (map live (not_empty d)) + sum_list (map live (empty d))"

text \<open>
  What is assumed of the helpers of \<open>hash.h\<close>: \<open>hash_incr_nr_lists\<close> moves to
  the number of lists that \<open>hash_next_nr_lists\<close> announced, and
  \<open>hash_reset_load_limit\<close> changes neither the number of lists nor of bits.
\<close>

definition config_ok :: "config \<Rightarrow> bool" where
  "config_ok cfg =
     ((\<forall>h. nr_hash_lists (hash_incr_nr_lists cfg h) = hash_next_nr_lists cfg h)
      \<and> (\<forall>h. nr_hash_lists (hash_reset_load_limit cfg h) = nr_hash_lists h)
      \<and> (\<forall>h. nr_hash_bits (hash_reset_load_limit cfg h) = nr_hash_bits h)
      \<and> 1 \<le> KMC_MAG_MIN_SZ cfg \<and> KMC_MAG_MIN_SZ cfg \<le> KMC_MAG_MAX_SZ cfg)"

text \<open>
  A cache with bufctls has slabs of at least one object, and sizes that fit
  \<open>size_t\<close>.
\<close>

definition geometry_ok :: "kmem_cache \<Rightarrow> bool" where
  "geometry_ok kc =
     (0 < obj_size kc \<and> (if use_bufctls kc then obj_size kc \<le> import_amt kc else True)
      \<and> import_amt kc \<le> SIZE_MAX)"

text \<open>
  The start of the region of a slab with bufctls, noted when
  \<open>kmem_cache_grow\<close> has put a new slab on the lists.
\<close>

definition note_region :: "env \<Rightarrow> kmem_cache \<Rightarrow> kmem_cache \<Rightarrow> (addr \<rightharpoonup> addr) \<Rightarrow> (addr \<rightharpoonup> addr)" where
  "note_region e kc kc' reg =
     (if use_bufctls kc \<and> slab_alloc e \<in> set (all_slabs kc') \<and> slab_alloc e \<notin> set (all_slabs kc)
      then reg(slab_alloc e \<mapsto> arena_alloc e) else reg)"

text \<open>
  What is assumed of the environment of an allocation: the magazine cache
  returns magazines as its constructor leaves them. With bufctls, the slab
  record that \<open>kmem_slab_cache\<close> returns is not one of the cache's slabs, and
  the region that the arena returns ends within the address space and
  overlaps no region of a slab of the cache. In the embedded layout, the
  page that the arena returns is aligned to \<open>PGSIZE\<close>.
\<close>

definition env_ok :: "config \<Rightarrow> env \<Rightarrow> kmem_cache \<Rightarrow> (addr \<rightharpoonup> addr) \<Rightarrow> bool" where
  "env_ok cfg e kc reg =
     (magazines_ok cfg e
      \<and> (if use_bufctls kc
          then slab_alloc e \<notin> set (all_slabs kc) \<and> arena_alloc e + import_amt kc \<le> SIZE_MAX
               \<and> (\<forall>a base. reg a = Some base \<longrightarrow>
                      arena_alloc e + import_amt kc \<le> base \<or> base + import_amt kc \<le> arena_alloc e)
          else arena_alloc e mod PGSIZE cfg = 0))"

text \<open>
  \<open>reach cfg kc out reg\<close>: the cache \<open>kc\<close>, a cache other than
  \<open>kmem_magazine_cache\<close>, is the result of \<open>kmem_cache_create\<close> followed by
  calls of \<open>kmem_cache_alloc\<close> and of \<open>kmem_cache_free\<close> that returned, each
  free being that of an object which a caller holds; \<open>out\<close> are the objects
  that callers hold (allocated and not yet freed), and \<open>reg\<close> maps the slabs
  with bufctls to the start of the region that \<open>kmem_cache_grow\<close> imported
  for them.
\<close>

inductive reach :: "config \<Rightarrow> kmem_cache \<Rightarrow> addr multiset \<Rightarrow> (addr \<rightharpoonup> addr) \<Rightarrow> bool" for cfg where
  created:
    "\<lbrakk>config_ok cfg; magazines_ok cfg e;
      kmem_cache_create cfg e None num_cores qcache_max sz al fl c d = Inr (kc, evs);
      geometry_ok kc\<rbrakk>
     \<Longrightarrow> reach cfg kc {#} Map.empty"
| allocated:
    "\<lbrakk>reach cfg kc out reg; env_ok cfg e kc reg;
      kmem_cache_alloc cfg e cpu kc fl = Inr (ret, kc', evs)\<rbrakk>
     \<Longrightarrow> reach cfg kc' (if ret = NULL then out else add_mset ret out) (note_region e kc kc' reg)"
| freed:
    "\<lbrakk>reach cfg kc out reg; magazines_ok cfg e; buf \<in># out;
      kmem_cache_free cfg e None cpu kc buf = Some (Inr (kc', evs))\<rbrakk>
     \<Longrightarrow> reach cfg kc' (out - {#buf#}) reg"

text \<open>The magazines of a cache are well formed: see \<open>front_ok\<close>; no live round is \<open>NULL\<close>.\<close>

definition mag_wf :: "config \<Rightarrow> kmem_magazine \<Rightarrow> bool" where
  "mag_wf cfg m =
     (nr_rounds m \<le> length (rounds m) \<and> KMC_MAG_MAX_SZ cfg \<le> length (rounds m)
      \<and> NULL \<notin> set (take (nr_rounds m) (rounds m)))"

definition front_inv :: "config \<Rightarrow> kmem_cache \<Rightarrow> bool" where
  "front_inv cfg kc =
     ((\<forall>pcc \<in> set (pcpu_caches kc).
          mag_wf cfg (loaded pcc) \<and> mag_wf cfg (prev pcc) \<and> magsize pcc \<le> KMC_MAG_MAX_SZ cfg)
      \<and> (\<forall>m \<in> set (not_empty (depot kc)) \<union> set (empty (depot kc)). mag_wf cfg m)
      \<and> depot_magsize (depot kc) \<le> KMC_MAG_MAX_SZ cfg)"

text \<open>No free object of a slab is \<open>NULL\<close>.\<close>

definition nonnull :: "kmem_cache \<Rightarrow> bool" where
  "nonnull cp =
     (\<forall>a s. slabs cp a = Some s \<longrightarrow>
        NULL \<notin> set (free_small_obj s) \<and> NULL \<notin> buf_addr ` set (bufctl_freelist s))"

text \<open>What the slab back-end never writes, and what the front end never writes.\<close>

definition same_frame :: "kmem_cache \<Rightarrow> kmem_cache \<Rightarrow> bool" where
  "same_frame cp cp' =
     (depot cp' = depot cp \<and> pcpu_caches cp' = pcpu_caches cp \<and> flags cp' = flags cp
      \<and> obj_size cp' = obj_size cp \<and> import_amt cp' = import_amt cp
      \<and> ctor cp' = ctor cp \<and> dtor cp' = dtor cp)"

definition same_back :: "kmem_cache \<Rightarrow> kmem_cache \<Rightarrow> bool" where
  "same_back kc kc' = (kc' = kc\<lparr>depot := depot kc', pcpu_caches := pcpu_caches kc'\<rparr>)"

text \<open>
  The accounting of a cache whose callers hold the objects \<open>out\<close>: the live
  counter and the hash index cover these and the objects in the magazines.
\<close>

definition accounted :: "config \<Rightarrow> kmem_cache \<Rightarrow> addr multiset \<Rightarrow> bool" where
  "accounted cfg kc out =
     (front_inv cfg kc \<and> nonnull kc \<and> NULL \<notin># out
      \<and> nr_hash_lists (hh kc) = length (alloc_hash kc)
      \<and> nr_cur_alloc kc = of_nat (size out + size (cached_objs kc))
      \<and> (if use_bufctls kc
          then mset (map buf_addr (hash_bufctls kc)) = out + cached_objs kc
          else hash_bufctls kc = []))"

text \<open>
  The slabs of a cache with bufctls. The slabs on the lists are those with a
  record and a region; a bufctl in the hash belongs to one of them; the
  bufctls of a slab, those on its free list and those in the hash, are the
  ones that \<open>kmem_cache_grow\<close> made for its region; \<open>num_busy_obj\<close> counts
  those in the hash; the regions lie within the address space and do not
  overlap.
\<close>

definition busy_of :: "kmem_cache \<Rightarrow> addr \<Rightarrow> kmem_bufctl multiset" where
  "busy_of kc a = filter_mset (\<lambda>bc. my_slab bc = a) (mset (hash_bufctls kc))"

definition slab_inv :: "kmem_cache \<Rightarrow> (addr \<rightharpoonup> addr) \<Rightarrow> bool" where
  "slab_inv kc reg =
     (set (all_slabs kc) = dom (slabs kc) \<and> dom reg = dom (slabs kc)
      \<and> (\<forall>bc \<in> set (hash_bufctls kc). my_slab bc \<in> dom (slabs kc))
      \<and> (\<forall>a s base. slabs kc a = Some s \<longrightarrow> reg a = Some base \<longrightarrow>
             mset (bufctl_freelist s) + busy_of kc a
               = mset (bufctl_freelist_init (import_amt kc div obj_size kc) base (obj_size kc) a [])
             \<and> num_total_obj s = of_nat (import_amt kc div obj_size kc)
             \<and> unat (num_busy_obj s) = size (busy_of kc a)
             \<and> base + import_amt kc \<le> SIZE_MAX)
      \<and> (\<forall>a a' base base'. reg a = Some base \<longrightarrow> reg a' = Some base' \<longrightarrow> a \<noteq> a' \<longrightarrow>
             base + import_amt kc \<le> base' \<or> base' + import_amt kc \<le> base))"

text \<open>Every bufctl of the hash is in the chain that \<open>hash_ptr\<close> gives for its address.\<close>

definition tbl_ok :: "config \<Rightarrow> nat \<Rightarrow> kmem_bufctl list list \<Rightarrow> bool" where
  "tbl_ok cfg bits tbl =
     (\<forall>i < length tbl. \<forall>bc \<in> set (tbl ! i). hash_ptr cfg (buf_addr bc) bits = i)"

definition hash_ok :: "config \<Rightarrow> kmem_cache \<Rightarrow> bool" where
  "hash_ok cfg kc = tbl_ok cfg (nr_hash_bits (hh kc)) (alloc_hash kc)"

text \<open>
  The slabs of a cache in the embedded layout: every free object lies in the
  page that ends with the record of its slab.
\<close>

definition page_inv :: "config \<Rightarrow> kmem_cache \<Rightarrow> bool" where
  "page_inv cfg kc =
     (\<forall>a s. slabs kc a = Some s \<longrightarrow>
        (\<forall>b \<in> set (free_small_obj s).
           ROUNDDOWN b (PGSIZE cfg) + PGSIZE cfg - sizeof_kmem_slab cfg = a))"

definition back_inv :: "config \<Rightarrow> kmem_cache \<Rightarrow> (addr \<rightharpoonup> addr) \<Rightarrow> bool" where
  "back_inv cfg kc reg =
     (geometry_ok kc
      \<and> (if use_bufctls kc then slab_inv kc reg \<and> hash_ok cfg kc else page_inv cfg kc))"

subsection \<open>A configuration and caches for the examples\<close>

text \<open>
  Pages of 4096 bytes, a slab record of 48 bytes, 8 buffers per slab and a
  cutoff of an eighth of a page; magazines of 2 to 4 rounds; the tunables
  \<open>resize_timeout_ns\<close> and \<open>resize_threshold\<close> as the source initialises them;
  a hash on the low bits of the address, over a table that doubles.
\<close>

definition example_config :: config where
  "example_config =
     \<lparr>PGSIZE = 4096, sizeof_kmem_slab = 48, NUM_BUF_PER_SLAB = 8, SLAB_LARGE_CUTOFF = 512,
      KMC_MAG_MIN_SZ = 2, KMC_MAG_MAX_SZ = 4,
      resize_timeout_ns = 1000000000, resize_threshold = 1,
      hash_ptr = (\<lambda>a bits. a mod 2 ^ bits),
      hash_init_hh = \<lparr>nr_hash_lists = 4, nr_hash_bits = 2, nr_items = 0, load_limit = 2\<rparr>,
      hash_needs_more = (\<lambda>h. nr_items h > load_limit h),
      hash_next_nr_lists = (\<lambda>h. 2 * nr_hash_lists h),
      hash_incr_nr_lists = (\<lambda>h. h\<lparr>nr_hash_lists := 2 * nr_hash_lists h,
                                      nr_hash_bits := nr_hash_bits h + 1\<rparr>),
      hash_reset_load_limit = (\<lambda>h. h\<lparr>load_limit := nr_hash_lists h div 2\<rparr>),
      ROUNDUPPWR2 = (\<lambda>n. 2 ^ (LEAST k. n \<le> 2 ^ k))\<rparr>"

definition busy_depot :: kmem_depot where
  "busy_depot = \<lparr>not_empty = [\<lparr>nr_rounds = 1, rounds = [8192, 0, 0, 0]\<rparr>], empty = [],
                 depot_magsize = 2, nr_not_empty = 1, nr_empty = 0,
                 busy_count = 1, busy_start = 200\<rparr>"

text \<open>
  The magazine that the magazine cache of the examples hands out: a bounded
  stack with no rounds, whose bound is the maximum that the depot's target
  can reach (\<open>struct kmem_magazine\<close> is declared in \<open>slab.h\<close>).
\<close>

definition new_magazine :: "config \<Rightarrow> kmem_magazine" where
  "new_magazine cfg = \<lparr>nr_rounds = 0, rounds = replicate (KMC_MAG_MAX_SZ cfg) NULL\<rparr>"

text \<open>
  An environment in which nothing is contended and nothing can be had: the
  arena has no memory, and an allocation from the magazine cache panics.
\<close>

definition quiet_env :: env where
  "quiet_env = \<lparr>trylock = (\<lambda>n. None), magazine_alloc = (\<lambda>n. None),
                 magazine_at = (\<lambda>p. new_magazine example_config),
                 arena_alloc = NULL, slab_alloc = NULL, base_zalloc = False\<rparr>"

text \<open>An environment in which the magazine cache always has a new magazine.\<close>

definition magazine_env :: env where
  "magazine_env = quiet_env\<lparr>magazine_alloc := (\<lambda>n. Some (new_magazine example_config))\<rparr>"

text \<open>
  A cache of 512-byte objects in the embedded layout, with a destructor, on
  one core: as created, and with one slab at page 8192 (7 objects, the record
  at 12240) of which four objects fill the two magazines and a fifth is
  held by a caller.
\<close>

definition small_cache :: kmem_cache where
  "small_cache =
     fst (projr (kmem_cache_create example_config magazine_env None 1 0 512 512 {} None True))"

definition full_mags_cache :: kmem_cache where
  "full_mags_cache =
     small_cache\<lparr>partial_slab_list := [12240],
       slabs := [12240 \<mapsto> \<lparr>num_busy_obj = 5, num_total_obj = 7,
                             free_small_obj = [10752, 11264], bufctl_freelist = []\<rparr>],
       nr_cur_alloc := 5,
       pcpu_caches := [\<lparr>magsize = 2,
                        loaded = \<lparr>nr_rounds = 2, rounds = [8192, 8704, 0, 0]\<rparr>,
                        prev = \<lparr>nr_rounds = 2, rounds = [9216, 9728, 0, 0]\<rparr>,
                        nr_allocs_ever = 5\<rparr>]\<rparr>"

text \<open>
  The same cache after one \<open>kmem_cache_grow\<close> that imports the page at 8192.
\<close>

definition grown_cache :: kmem_cache where
  "grown_cache =
     fst (snd (projr (kmem_cache_grow example_config (quiet_env\<lparr>arena_alloc := 8192\<rparr>) small_cache)))"

text \<open>
  A cache for objects of one byte aligned to a page, which the caller does not
  want touched: \<open>kmem_cache_create("...", 1, PGSIZE, KMC_NOTOUCH, ...)\<close>. Then
  the cache after its first \<open>__kmem_alloc_from_slab\<close> (the slab record at 20000,
  the region at 8192), and after the \<open>__kmem_free_to_slab\<close> of that object.
\<close>

definition one_slot_cache :: kmem_cache where
  "one_slot_cache =
     fst (projr (kmem_cache_create example_config magazine_env None 1 0 1 4096 {KMC_NOTOUCH} None False))"

definition one_slot_env :: env where
  "one_slot_env = quiet_env\<lparr>arena_alloc := 8192, slab_alloc := 20000\<rparr>"

definition one_slot_busy :: kmem_cache where
  "one_slot_busy = fst (snd (projr (kmem_alloc_from_slab example_config one_slot_env one_slot_cache {})))"

definition one_slot_idle :: kmem_cache where
  "one_slot_idle = projr (kmem_free_to_slab example_config one_slot_busy 8192)"

text \<open>
  The cache \<open>one_slot_busy\<close> after the caller has given the object back with
  \<open>kmem_cache_free\<close>.
\<close>

definition one_slot_cached :: kmem_cache where
  "one_slot_cached =
     fst (projr (the (kmem_cache_free example_config quiet_env None 0 one_slot_busy 8192)))"

text \<open>
  A cache with bufctls for objects of 1025 bytes aligned to a page, three to a
  slab of 12288 bytes, whose constructor always fails:
  \<open>kmem_cache_create("...", 1025, PGSIZE, 0, ..., ctor, ...)\<close>. Then the cache
  when its first \<open>__kmem_alloc_from_slab\<close> has picked the slab (the record at
  40000, the region at 8192) and when it has taken the object, and the cache
  after that \<open>kmem_cache_alloc\<close>.
\<close>

definition three_slot_cache :: kmem_cache where
  "three_slot_cache =
     fst (projr (kmem_cache_create example_config magazine_env None 1 0 1025 4096 {}
                   (Some (\<lambda>buf fl. 1)) False))"

definition three_slot_env :: env where
  "three_slot_env = quiet_env\<lparr>arena_alloc := 8192, slab_alloc := 40000\<rparr>"

definition three_slot_picked :: kmem_cache where
  "three_slot_picked =
     fst (snd (projr (alloc_pick_slab example_config three_slot_env three_slot_cache {})))"

definition three_slot_taken :: kmem_cache where
  "three_slot_taken =
     fst (snd (projr (alloc_take_obj example_config three_slot_env three_slot_picked 40000)))"

definition three_slot_idle :: kmem_cache where
  "three_slot_idle =
     fst (snd (projr (kmem_cache_alloc example_config three_slot_env 0 three_slot_cache {})))"

text \<open>
  A magazine cache: \<open>kmem_magazine_cache\<close> as \<open>kmem_cache_init\<close> creates it on
  one core, for magazines of 512 bytes, with a constructor that returns 0
  as \<open>__mag_ctor\<close> does. Its first slab is the page at 8192.
\<close>

definition magazine_cache_env :: "nat \<Rightarrow> env" where
  "magazine_cache_env n = quiet_env\<lparr>arena_alloc := 8192\<rparr>"

definition example_magazine_cache :: kmem_cache where
  "example_magazine_cache =
     fst (projr (kmem_cache_create example_config quiet_env (Some magazine_cache_env) 1 0 512 512 {}
                   (Some (\<lambda>buf fl. 0)) False))"

text \<open>The object \<open>buf\<close> is the top round of the loaded magazine of the CPU.\<close>

definition pushed :: "kmem_cache \<Rightarrow> nat \<Rightarrow> addr \<Rightarrow> bool" where
  "pushed kc cpu buf =
     (cpu < length (pcpu_caches kc)
      \<and> nr_rounds (loaded (pcpu_caches kc ! cpu)) \<noteq> 0
      \<and> nr_rounds (loaded (pcpu_caches kc ! cpu)) \<le> length (rounds (loaded (pcpu_caches kc ! cpu)))
      \<and> rounds (loaded (pcpu_caches kc ! cpu)) ! (nr_rounds (loaded (pcpu_caches kc ! cpu)) - 1) = buf)"

section \<open>Properties\<close>

declare try_alloc.simps [simp del]

subsection \<open>The example states, evaluated\<close>

lemma replicate_4: "replicate 4 x = [x, x, x, x]"
  by (simp add: numeral_eq_Suc)

lemma small_cache_simps:
  "small_cache = \<lparr>obj_size = 512, import_amt = 4096, align = 512, flags = {},
             full_slab_list = [], partial_slab_list = [], empty_slab_list = [],
             slabs = Map.empty, ctor = None, dtor = True, nr_cur_alloc = 0,
             alloc_hash = [[], [], [], []], alloc_hash_is_static = True,
             hh = \<lparr>nr_hash_lists = 4, nr_hash_bits = 2, nr_items = 0, load_limit = 2\<rparr>,
             depot = \<lparr>not_empty = [], empty = [], depot_magsize = 2,
                      nr_not_empty = 0, nr_empty = 0, busy_count = 0, busy_start = 0\<rparr>,
             pcpu_caches = [\<lparr>magsize = 2, loaded = \<lparr>nr_rounds = 0, rounds = [0, 0, 0, 0]\<rparr>,
                             prev = \<lparr>nr_rounds = 0, rounds = [0, 0, 0, 0]\<rparr>, nr_allocs_ever = 0\<rparr>]\<rparr>"
  by (simp add: small_cache_def kmem_cache_create_def magazine_from_slab_def magazine_env_def
      quiet_env_def example_config_def ROUNDUP_def ROUNDDOWN_def depot_init_def new_magazine_def
      NULL_def replicate_4)

lemma full_mags_simps:
  "full_mags_cache = \<lparr>obj_size = 512, import_amt = 4096, align = 512, flags = {},
             full_slab_list = [], partial_slab_list = [12240], empty_slab_list = [],
             slabs = [12240 \<mapsto> \<lparr>num_busy_obj = 5, num_total_obj = 7,
                             free_small_obj = [10752, 11264], bufctl_freelist = []\<rparr>],
             ctor = None, dtor = True, nr_cur_alloc = 5,
             alloc_hash = [[], [], [], []], alloc_hash_is_static = True,
             hh = \<lparr>nr_hash_lists = 4, nr_hash_bits = 2, nr_items = 0, load_limit = 2\<rparr>,
             depot = \<lparr>not_empty = [], empty = [], depot_magsize = 2,
                      nr_not_empty = 0, nr_empty = 0, busy_count = 0, busy_start = 0\<rparr>,
             pcpu_caches = [\<lparr>magsize = 2,
                        loaded = \<lparr>nr_rounds = 2, rounds = [8192, 8704, 0, 0]\<rparr>,
                        prev = \<lparr>nr_rounds = 2, rounds = [9216, 9728, 0, 0]\<rparr>,
                        nr_allocs_ever = 5\<rparr>]\<rparr>"
  by (simp add: full_mags_cache_def small_cache_simps)

subsection \<open>The contention accounting of the depot lock\<close>

text \<open>
  C2, as the specification words it, fails on the code. The code tests the
  window with \<open>time - busy_start > resize_timeout_ns\<close> on \<open>uint64_t\<close>. A thread
  that read the time 100 before blocking and takes the lock after another
  thread has set \<open>busy_start\<close> to 200 finds the difference wrapped around and
  restarts the window, although 100 does not exceed \<open>200 + resize_timeout\<close>:
  the code leaves \<open>busy_count = 1\<close> and the magazine size alone, where the
  wording of the specification has the count pass the threshold and the
  magazine size grow.
\<close>

theorem lock_depot_window_counterexample:
  "lock_depot example_config (Some 100) busy_depot
     \<noteq> lock_depot_spec example_config 100 busy_depot
   \<and> nr_not_empty busy_depot \<noteq> 0
   \<and> \<not> unat (100 :: 64 word) > unat (busy_start busy_depot) + unat (resize_timeout_ns example_config)
   \<and> busy_start (lock_depot example_config (Some 100) busy_depot) = 100
   \<and> busy_count (lock_depot example_config (Some 100) busy_depot) = 1
   \<and> depot_magsize (lock_depot example_config (Some 100) busy_depot) = 2
   \<and> busy_start (lock_depot_spec example_config 100 busy_depot) = 200
   \<and> depot_magsize (lock_depot_spec example_config 100 busy_depot) = 3"
  by (simp add: lock_depot_def lock_depot_spec_def example_config_def busy_depot_def Let_def)

text \<open>
  C2, amended: on a contended acquisition of the depot lock, a depot whose
  count of not-empty magazines is zero is left as it is. Otherwise the window
  has expired when \<open>time - busy_start\<close>, computed modulo \<open>2 ^ 64\<close>, exceeds
  \<open>resize_timeout_ns\<close>; then the count restarts from 0 and \<open>busy_start\<close> becomes
  the sampled time. The count is incremented, and when it then exceeds
  \<open>resize_threshold\<close> it is reset to 0 and \<open>magsize\<close> becomes
  \<open>min KMC_MAG_MAX_SZ (magsize + 1)\<close>. Nothing else of the depot changes.
  Whenever the sampled time is not before \<open>busy_start\<close>, the test is the one
  of the specification: the time exceeds \<open>busy_start + resize_timeout\<close>.
\<close>

theorem lock_depot_contended:
  "(nr_not_empty d = 0 \<longrightarrow> lock_depot cfg (Some time) d = d)
   \<and> (nr_not_empty d \<noteq> 0 \<longrightarrow>
        (let expired = (time - busy_start d > resize_timeout_ns cfg);
             count = (if expired then 0 else busy_count d) + 1;
             grow = (count > resize_threshold cfg)
         in lock_depot cfg (Some time) d =
              d\<lparr>busy_count := (if grow then 0 else count),
                busy_start := (if expired then time else busy_start d),
                depot_magsize := (if grow then min (KMC_MAG_MAX_SZ cfg) (depot_magsize d + 1)
                                  else depot_magsize d)\<rparr>))
   \<and> (busy_start d \<le> time \<longrightarrow>
        (time - busy_start d > resize_timeout_ns cfg
           \<longleftrightarrow> unat time > unat (busy_start d) + unat (resize_timeout_ns cfg)))"
proof (intro conjI impI)
  assume "nr_not_empty d = 0"
  then show "lock_depot cfg (Some time) d = d"
    by (simp add: lock_depot_def)
next
  assume "nr_not_empty d \<noteq> 0"
  then show "let expired = (time - busy_start d > resize_timeout_ns cfg);
             count = (if expired then 0 else busy_count d) + 1;
             grow = (count > resize_threshold cfg)
         in lock_depot cfg (Some time) d =
              d\<lparr>busy_count := (if grow then 0 else count),
                busy_start := (if expired then time else busy_start d),
                depot_magsize := (if grow then min (KMC_MAG_MAX_SZ cfg) (depot_magsize d + 1)
                                  else depot_magsize d)\<rparr>"
    by (simp add: lock_depot_def Let_def)
next
  assume le: "busy_start d \<le> time"
  then have "unat (time - busy_start d) = unat time - unat (busy_start d)"
    by (simp add: unat_sub)
  moreover have "unat (busy_start d) \<le> unat time"
    using le by (simp add: word_le_nat_alt)
  ultimately show "(time - busy_start d > resize_timeout_ns cfg)
           \<longleftrightarrow> unat time > unat (busy_start d) + unat (resize_timeout_ns cfg)"
    by (auto simp: word_less_nat_alt)
qed

theorem lock_depot_contended_witness:
  "nr_not_empty busy_depot \<noteq> 0 \<and> busy_start busy_depot \<le> 2000000000
   \<and> lock_depot example_config (Some 2000000000) busy_depot
        = busy_depot\<lparr>busy_count := 1, busy_start := 2000000000\<rparr>
   \<and> lock_depot example_config (Some 1000) busy_depot
        = busy_depot\<lparr>busy_count := 0, depot_magsize := 3\<rparr>
   \<and> nr_not_empty (busy_depot\<lparr>nr_not_empty := 0\<rparr>) = 0
   \<and> lock_depot example_config (Some 2000000000) (busy_depot\<lparr>nr_not_empty := 0\<rparr>)
        = busy_depot\<lparr>nr_not_empty := 0\<rparr>"
  using lock_depot_contended [of busy_depot example_config 2000000000]
    lock_depot_contended [of busy_depot example_config 1000]
    lock_depot_contended [of "busy_depot\<lparr>nr_not_empty := 0\<rparr>" example_config 2000000000]
  by (simp add: example_config_def busy_depot_def Let_def)

subsection \<open>The free path of the front end\<close>

lemma try_free_room:
  assumes "cpu < length (pcpu_caches kc)"
    and "nr_rounds (loaded (pcpu_caches kc ! cpu)) < magsize (pcpu_caches kc ! cpu)"
    and "nr_rounds (loaded (pcpu_caches kc ! cpu)) < length (rounds (loaded (pcpu_caches kc ! cpu)))"
  shows "try_free cfg e mc cpu buf nl nm kc evs =
     Some (Inr (True, kc\<lparr>pcpu_caches := (pcpu_caches kc)[cpu :=
            (pcpu_caches kc ! cpu)\<lparr>loaded := (loaded (pcpu_caches kc ! cpu))
               \<lparr>rounds := (rounds (loaded (pcpu_caches kc ! cpu)))[nr_rounds (loaded (pcpu_caches kc ! cpu)) := buf],
                nr_rounds := nr_rounds (loaded (pcpu_caches kc ! cpu)) + 1\<rparr>\<rparr>]\<rparr>, evs))"
  using assms by (subst try_free.simps) (simp add: Let_def)

text \<open>
  The loop for a cache other than \<open>kmem_magazine_cache\<close>, when neither
  magazine of the CPU has room and the depot has no empty magazine.
\<close>

lemma try_free_magazine:
  assumes "cpu < length (pcpu_caches kc)"
    and "\<not> nr_rounds (loaded (pcpu_caches kc ! cpu)) < magsize (pcpu_caches kc ! cpu)"
    and "\<not> nr_rounds (prev (pcpu_caches kc ! cpu)) < magsize (pcpu_caches kc ! cpu)"
    and "empty (depot kc) = []"
  shows "try_free cfg e None cpu buf nl nm kc evs =
     (case magazine_alloc e nm of
        None \<Rightarrow> Some (Inl PANIC)
      | Some mag \<Rightarrow>
          if nr_rounds mag \<noteq> 0 then Some (Inl PANIC)
          else try_free cfg e None cpu buf (nl + 2) (nm + 1)
                 (kc\<lparr>pcpu_caches := (pcpu_caches kc)[cpu :=
                       (pcpu_caches kc ! cpu)\<lparr>magsize := depot_magsize (lock_depot cfg (trylock e nl) (depot kc))\<rparr>],
                     depot := (lock_depot cfg (trylock e (nl + 1)) (lock_depot cfg (trylock e nl) (depot kc)))
                       \<lparr>empty := mag # empty (lock_depot cfg (trylock e (nl + 1)) (lock_depot cfg (trylock e nl) (depot kc))),
                        nr_empty := nr_empty (lock_depot cfg (trylock e (nl + 1)) (lock_depot cfg (trylock e nl) (depot kc))) + 1\<rparr>\<rparr>)
                 evs)"
proof -
  have "empty (lock_depot cfg (trylock e nl) (depot kc)) = []"
    using assms(4) by (simp add: lock_depot_def Let_def split: option.splits)
  with assms show ?thesis
    by (subst try_free.simps) (simp add: Let_def magazine_cache_alloc_def split: option.splits)
qed

text \<open>
  C9: when the loaded magazine of the CPU has room (\<open>nr_rounds < magsize\<close>, in a
  magazine whose array holds that many rounds), \<open>kmem_cache_free\<close> returns the
  cache with the pointer stored at index \<open>nr_rounds\<close> of the loaded magazine
  and that count incremented, and nothing else changed: the previous
  magazine, the other per-CPU caches, the depot, the slab lists and slabs, the
  hash index and \<open>nr_cur_alloc\<close> are those of the cache before, and no event
  (so no call of the destructor) is recorded. This holds for every cache,
  \<open>kmem_magazine_cache\<close> too.
\<close>

theorem kmem_cache_free_room:
  assumes "cpu < length (pcpu_caches kc)"
    and "nr_rounds (loaded (pcpu_caches kc ! cpu)) < magsize (pcpu_caches kc ! cpu)"
    and "nr_rounds (loaded (pcpu_caches kc ! cpu)) < length (rounds (loaded (pcpu_caches kc ! cpu)))"
  shows "kmem_cache_free cfg e mc cpu kc buf =
     Some (Inr (kc\<lparr>pcpu_caches := (pcpu_caches kc)[cpu :=
            (pcpu_caches kc ! cpu)\<lparr>loaded := (loaded (pcpu_caches kc ! cpu))
               \<lparr>rounds := (rounds (loaded (pcpu_caches kc ! cpu)))[nr_rounds (loaded (pcpu_caches kc ! cpu)) := buf],
                nr_rounds := nr_rounds (loaded (pcpu_caches kc ! cpu)) + 1\<rparr>\<rparr>]\<rparr>, []))"
  by (simp add: kmem_cache_free_def try_free_room [OF assms])

theorem kmem_cache_free_room_witness:
  "0 < length (pcpu_caches small_cache)
   \<and> nr_rounds (loaded (pcpu_caches small_cache ! 0)) < magsize (pcpu_caches small_cache ! 0)
   \<and> nr_rounds (loaded (pcpu_caches small_cache ! 0)) < length (rounds (loaded (pcpu_caches small_cache ! 0)))
   \<and> kmem_cache_free example_config quiet_env None 0 small_cache 8192 =
       Some (Inr (small_cache\<lparr>pcpu_caches :=
          [\<lparr>magsize = 2, loaded = \<lparr>nr_rounds = 1, rounds = [8192, 0, 0, 0]\<rparr>,
            prev = \<lparr>nr_rounds = 0, rounds = [0, 0, 0, 0]\<rparr>, nr_allocs_ever = 0\<rparr>]\<rparr>, []))"
  using kmem_cache_free_room [of 0 small_cache example_config quiet_env None 8192]
  by (simp add: small_cache_simps)

text \<open>
  C7: the code does not do this. When neither magazine of the CPU has room
  and the depot has no empty magazine, \<open>kmem_cache_free\<close> asks
  \<open>kmem_magazine_cache\<close> for a magazine with \<open>MEM_ATOMIC\<close>. An allocation
  with \<open>MEM_ATOMIC\<close> from a cache that has no free object and cannot grow
  does not return \<open>NULL\<close>: \<open>__kmem_alloc_from_slab\<close> panics, as the first line
  below shows on the cache \<open>small_cache\<close> with an arena that has nothing. So
  the free of the object 10240, on a CPU with two full magazines and an empty
  depot, panics when the magazine cache is out of memory, where the comment
  in \<open>kmem_cache_free\<close> and the specification have the destructor run and the
  object go to the slab back-end.
\<close>

theorem kmem_cache_free_magazine_panic:
  "kmem_cache_alloc example_config quiet_env 0 small_cache {MEM_ATOMIC} = Inl PANIC
   \<and> \<not> nr_rounds (loaded (pcpu_caches full_mags_cache ! 0)) < magsize (pcpu_caches full_mags_cache ! 0)
   \<and> \<not> nr_rounds (prev (pcpu_caches full_mags_cache ! 0)) < magsize (pcpu_caches full_mags_cache ! 0)
   \<and> empty (depot full_mags_cache) = []
   \<and> dtor full_mags_cache
   \<and> magazine_alloc quiet_env 0 = None
   \<and> kmem_cache_free example_config quiet_env None 0 full_mags_cache 10240 = Some (Inl PANIC)"
proof -
  have t: "try_alloc example_config quiet_env 0 0 small_cache = Inr (None, small_cache)"
    by (subst try_alloc.simps)
       (simp add: small_cache_simps quiet_env_def lock_depot_def mag_is_empty_def)
  have a: "kmem_cache_alloc example_config quiet_env 0 small_cache {MEM_ATOMIC} = Inl PANIC"
    unfolding kmem_cache_alloc_def t sum.case prod.case option.case
    by (simp add: kmem_alloc_from_slab_def alloc_pick_slab_def kmem_cache_grow_def
        use_bufctls_def small_cache_simps quiet_env_def NULL_def)
  have f: "kmem_cache_free example_config quiet_env None 0 full_mags_cache 10240 = Some (Inl PANIC)"
    unfolding kmem_cache_free_def
    by (subst try_free_magazine) (simp_all add: full_mags_simps quiet_env_def)
  from a f show ?thesis
    by (simp add: full_mags_simps quiet_env_def)
qed

subsection \<open>A free followed by an allocation\<close>

lemma lock_depot_lists:
  "empty (lock_depot cfg c d) = empty d" "not_empty (lock_depot cfg c d) = not_empty d"
  by (simp_all add: lock_depot_def Let_def split: option.splits)

lemma lock_depot_magsize:
  assumes "1 \<le> depot_magsize d" "depot_magsize d \<le> KMC_MAG_MAX_SZ cfg"
  shows "1 \<le> depot_magsize (lock_depot cfg c d) \<and> depot_magsize (lock_depot cfg c d) \<le> KMC_MAG_MAX_SZ cfg"
  using assms by (auto simp: lock_depot_def Let_def split: option.splits)

text \<open>One round of the free loop, whatever the loop does next.\<close>

lemma try_free_round:
  fixes f :: "config \<Rightarrow> env \<Rightarrow> (nat \<Rightarrow> env) option \<Rightarrow> nat \<Rightarrow> addr \<Rightarrow> nat \<Rightarrow> nat \<Rightarrow> kmem_cache \<Rightarrow> event list \<Rightarrow> (error + (bool \<times> kmem_cache \<times> event list)) option"
  assumes "(if cpu \<ge> length (pcpu_caches kc) then Some (Inl FAULT)
      else
        let pcc = pcpu_caches kc ! cpu in
        if nr_rounds (loaded pcc) < magsize pcc then
          (if nr_rounds (loaded pcc) \<ge> length (rounds (loaded pcc)) then Some (Inl FAULT)
           else
             Some (Inr (True,
               kc\<lparr>pcpu_caches := (pcpu_caches kc)[cpu :=
                    pcc\<lparr>loaded := (loaded pcc)\<lparr>rounds := (rounds (loaded pcc))[nr_rounds (loaded pcc) := buf],
                                               nr_rounds := nr_rounds (loaded pcc) + 1\<rparr>\<rparr>]\<rparr>,
               evs)))
        else if nr_rounds (prev pcc) < magsize pcc then
          f cfg e mc cpu buf nl nm
            (kc\<lparr>pcpu_caches := (pcpu_caches kc)[cpu := swap_mags pcc]\<rparr>) evs
        else
          let d = lock_depot cfg (trylock e nl) (depot kc);
              pcc1 = pcc\<lparr>magsize := depot_magsize d\<rparr>
          in (case empty d of
                mag # rest \<Rightarrow>
                  let d1 = d\<lparr>empty := rest, nr_empty := nr_empty d - 1\<rparr>;
                      d2 = return_to_depot d1 (prev pcc1)
                  in f cfg e mc cpu buf (nl + 1) nm
                       (kc\<lparr>depot := d2,
                           pcpu_caches := (pcpu_caches kc)[cpu := pcc1\<lparr>prev := loaded pcc1, loaded := mag\<rparr>]\<rparr>)
                       evs
              | [] \<Rightarrow>
                  let kc1 = kc\<lparr>depot := d, pcpu_caches := (pcpu_caches kc)[cpu := pcc1]\<rparr> in
                  (case magazine_cache_alloc cfg e mc cpu nm kc1 of
                     Inl err \<Rightarrow> Some (Inl err)
                   | Inr (None, kc2, evs1) \<Rightarrow> Some (Inr (False, kc2, evs @ evs1))
                   | Inr (Some mag, kc2, evs1) \<Rightarrow>
                       if nr_rounds mag \<noteq> 0 then Some (Inl PANIC)
                       else
                         let d3 = lock_depot cfg (trylock e (nl + 1)) (depot kc2);
                             d4 = d3\<lparr>empty := mag # empty d3, nr_empty := nr_empty d3 + 1\<rparr>
                         in f cfg e mc cpu buf (nl + 2) (nm + 1) (kc2\<lparr>depot := d4\<rparr>)
                              (evs @ evs1)))) = Some (Inr (b, kc', evs'))"
  shows "cpu < length (pcpu_caches kc) \<and>
    (let pcc = pcpu_caches kc ! cpu; d = lock_depot cfg (trylock e nl) (depot kc);
         pcc1 = pcc\<lparr>magsize := depot_magsize d\<rparr>;
         kc1 = kc\<lparr>depot := d, pcpu_caches := (pcpu_caches kc)[cpu := pcc1]\<rparr> in
     (nr_rounds (loaded pcc) < magsize pcc \<and> nr_rounds (loaded pcc) < length (rounds (loaded pcc)) \<and> b
        \<and> evs' = evs
        \<and> kc' = kc\<lparr>pcpu_caches := (pcpu_caches kc)[cpu :=
                    pcc\<lparr>loaded := (loaded pcc)\<lparr>rounds := (rounds (loaded pcc))[nr_rounds (loaded pcc) := buf],
                                               nr_rounds := nr_rounds (loaded pcc) + 1\<rparr>\<rparr>]\<rparr>)
     \<or> (\<not> nr_rounds (loaded pcc) < magsize pcc \<and> nr_rounds (prev pcc) < magsize pcc
        \<and> f cfg e mc cpu buf nl nm (kc\<lparr>pcpu_caches := (pcpu_caches kc)[cpu := swap_mags pcc]\<rparr>) evs
            = Some (Inr (b, kc', evs')))
     \<or> (\<not> nr_rounds (loaded pcc) < magsize pcc \<and> \<not> nr_rounds (prev pcc) < magsize pcc
        \<and> (\<exists>mag rest. empty d = mag # rest
             \<and> f cfg e mc cpu buf (nl + 1) nm
                 (kc\<lparr>depot := return_to_depot (d\<lparr>empty := rest, nr_empty := nr_empty d - 1\<rparr>) (prev pcc),
                     pcpu_caches := (pcpu_caches kc)[cpu := pcc1\<lparr>prev := loaded pcc, loaded := mag\<rparr>]\<rparr>) evs
                 = Some (Inr (b, kc', evs'))))
     \<or> (\<not> nr_rounds (loaded pcc) < magsize pcc \<and> \<not> nr_rounds (prev pcc) < magsize pcc \<and> empty d = []
        \<and> (\<exists>evs1. magazine_cache_alloc cfg e mc cpu nm kc1 = Inr (None, kc', evs1)
              \<and> \<not> b \<and> evs' = evs @ evs1))
     \<or> (\<not> nr_rounds (loaded pcc) < magsize pcc \<and> \<not> nr_rounds (prev pcc) < magsize pcc \<and> empty d = []
        \<and> (\<exists>mag kc2 evs1. magazine_cache_alloc cfg e mc cpu nm kc1 = Inr (Some mag, kc2, evs1)
              \<and> nr_rounds mag = 0
              \<and> f cfg e mc cpu buf (nl + 2) (nm + 1)
                  (kc2\<lparr>depot := (lock_depot cfg (trylock e (nl + 1)) (depot kc2))
                          \<lparr>empty := mag # empty (lock_depot cfg (trylock e (nl + 1)) (depot kc2)),
                           nr_empty := nr_empty (lock_depot cfg (trylock e (nl + 1)) (depot kc2)) + 1\<rparr>\<rparr>)
                  (evs @ evs1) = Some (Inr (b, kc', evs')))))"
  using assms
  by (simp add: Let_def split: if_splits list.splits option.splits sum.splits prod.splits)

lemma magazine_cache_alloc_other:
  "magazine_cache_alloc cfg e None cpu n kc = Inr (r, kc', evs)
     \<longleftrightarrow> (\<exists>mag. magazine_alloc e n = Some mag \<and> r = Some mag \<and> kc' = kc \<and> evs = [])"
  by (auto simp: magazine_cache_alloc_def split: option.splits)

text \<open>
  When the loop ends with \<open>True\<close>, the object is the top round of the loaded
  magazine. For a cache other than \<open>kmem_magazine_cache\<close> the loop does not
  end otherwise, and records no event.
\<close>

lemma try_free_pushed:
  assumes "try_free cfg0 e0 mc0 cpu0 buf0 nl0 nm0 kc0 evs0 = Some y0"
  shows "\<forall>b kc' evs'. y0 = Inr (b, kc', evs') \<longrightarrow>
           (b \<longrightarrow> pushed kc' cpu0 buf0) \<and> (mc0 = None \<longrightarrow> b \<and> evs' = evs0)"
proof (rule try_free.raw_induct [where P = "\<lambda>cfg e mc cpu buf nl nm kc evs y.
           \<forall>b kc' evs'. y = Inr (b, kc', evs') \<longrightarrow>
             (b \<longrightarrow> pushed kc' cpu buf) \<and> (mc = None \<longrightarrow> b \<and> evs' = evs)", OF _ assms], goal_cases)
  case (1 f cfg e mc cpu buf nl nm kc evs y)
  show ?case
  proof (intro allI impI)
    fix b kc' evs'
    assume y: "y = Inr (b, kc', evs')"
    let ?pcc = "pcpu_caches kc ! cpu"
    let ?d = "lock_depot cfg (trylock e nl) (depot kc)"
    let ?pcc1 = "?pcc\<lparr>magsize := depot_magsize ?d\<rparr>"
    let ?kc1 = "kc\<lparr>depot := ?d, pcpu_caches := (pcpu_caches kc)[cpu := ?pcc1]\<rparr>"
    note IH = 1(1) [rule_format, OF _ refl]
    from try_free_round [where f = f and cfg = cfg and e = e and mc = mc and cpu = cpu and kc = kc
        and buf = buf and nl = nl and nm = nm and evs = evs and b = b and kc' = kc' and evs' = evs',
        OF 1(2) [unfolded y]]
    have cpu: "cpu < length (pcpu_caches kc)"
      and c: "(nr_rounds (loaded ?pcc) < magsize ?pcc \<and> nr_rounds (loaded ?pcc) < length (rounds (loaded ?pcc)) \<and> b
        \<and> evs' = evs
        \<and> kc' = kc\<lparr>pcpu_caches := (pcpu_caches kc)[cpu :=
                    ?pcc\<lparr>loaded := (loaded ?pcc)\<lparr>rounds := (rounds (loaded ?pcc))[nr_rounds (loaded ?pcc) := buf],
                                               nr_rounds := nr_rounds (loaded ?pcc) + 1\<rparr>\<rparr>]\<rparr>)
     \<or> (\<not> nr_rounds (loaded ?pcc) < magsize ?pcc \<and> nr_rounds (prev ?pcc) < magsize ?pcc
        \<and> f cfg e mc cpu buf nl nm (kc\<lparr>pcpu_caches := (pcpu_caches kc)[cpu := swap_mags ?pcc]\<rparr>) evs
            = Some (Inr (b, kc', evs')))
     \<or> (\<not> nr_rounds (loaded ?pcc) < magsize ?pcc \<and> \<not> nr_rounds (prev ?pcc) < magsize ?pcc
        \<and> (\<exists>mag rest. empty ?d = mag # rest
             \<and> f cfg e mc cpu buf (nl + 1) nm
                 (kc\<lparr>depot := return_to_depot (?d\<lparr>empty := rest, nr_empty := nr_empty ?d - 1\<rparr>) (prev ?pcc),
                     pcpu_caches := (pcpu_caches kc)[cpu := ?pcc1\<lparr>prev := loaded ?pcc, loaded := mag\<rparr>]\<rparr>) evs
                 = Some (Inr (b, kc', evs'))))
     \<or> (\<not> nr_rounds (loaded ?pcc) < magsize ?pcc \<and> \<not> nr_rounds (prev ?pcc) < magsize ?pcc \<and> empty ?d = []
        \<and> (\<exists>evs1. magazine_cache_alloc cfg e mc cpu nm ?kc1 = Inr (None, kc', evs1)
              \<and> \<not> b \<and> evs' = evs @ evs1))
     \<or> (\<not> nr_rounds (loaded ?pcc) < magsize ?pcc \<and> \<not> nr_rounds (prev ?pcc) < magsize ?pcc \<and> empty ?d = []
        \<and> (\<exists>mag kc2 evs1. magazine_cache_alloc cfg e mc cpu nm ?kc1 = Inr (Some mag, kc2, evs1)
              \<and> nr_rounds mag = 0
              \<and> f cfg e mc cpu buf (nl + 2) (nm + 1)
                  (kc2\<lparr>depot := (lock_depot cfg (trylock e (nl + 1)) (depot kc2))
                          \<lparr>empty := mag # empty (lock_depot cfg (trylock e (nl + 1)) (depot kc2)),
                           nr_empty := nr_empty (lock_depot cfg (trylock e (nl + 1)) (depot kc2)) + 1\<rparr>\<rparr>)
                  (evs @ evs1) = Some (Inr (b, kc', evs'))))"
      by (simp_all add: Let_def)
    from c show "(b \<longrightarrow> pushed kc' cpu buf) \<and> (mc = None \<longrightarrow> b \<and> evs' = evs)"
    proof (elim disjE conjE exE)
      assume "nr_rounds (loaded ?pcc) < length (rounds (loaded ?pcc))" and b
        and "evs' = evs"
        and "kc' = kc\<lparr>pcpu_caches := (pcpu_caches kc)[cpu :=
                    ?pcc\<lparr>loaded := (loaded ?pcc)\<lparr>rounds := (rounds (loaded ?pcc))[nr_rounds (loaded ?pcc) := buf],
                                               nr_rounds := nr_rounds (loaded ?pcc) + 1\<rparr>\<rparr>]\<rparr>"
      with cpu show ?thesis by (simp add: pushed_def)
    next
      assume "f cfg e mc cpu buf nl nm (kc\<lparr>pcpu_caches := (pcpu_caches kc)[cpu := swap_mags ?pcc]\<rparr>) evs
            = Some (Inr (b, kc', evs'))"
      from IH [OF this] show ?thesis by simp
    next
      fix mag rest
      assume "f cfg e mc cpu buf (nl + 1) nm
                 (kc\<lparr>depot := return_to_depot (?d\<lparr>empty := rest, nr_empty := nr_empty ?d - 1\<rparr>) (prev ?pcc),
                     pcpu_caches := (pcpu_caches kc)[cpu := ?pcc1\<lparr>prev := loaded ?pcc, loaded := mag\<rparr>]\<rparr>) evs
                 = Some (Inr (b, kc', evs'))"
      from IH [OF this] show ?thesis by simp
    next
      fix evs1
      assume "magazine_cache_alloc cfg e mc cpu nm ?kc1 = Inr (None, kc', evs1)" and "\<not> b"
      then show ?thesis by (cases mc) (auto simp: magazine_cache_alloc_other)
    next
      fix mag kc2 evs1
      assume m: "magazine_cache_alloc cfg e mc cpu nm ?kc1 = Inr (Some mag, kc2, evs1)"
        and rec: "f cfg e mc cpu buf (nl + 2) (nm + 1)
                  (kc2\<lparr>depot := (lock_depot cfg (trylock e (nl + 1)) (depot kc2))
                          \<lparr>empty := mag # empty (lock_depot cfg (trylock e (nl + 1)) (depot kc2)),
                           nr_empty := nr_empty (lock_depot cfg (trylock e (nl + 1)) (depot kc2)) + 1\<rparr>\<rparr>)
                  (evs @ evs1) = Some (Inr (b, kc', evs'))"
      from IH [OF rec] m show ?thesis by (cases mc) (auto simp: magazine_cache_alloc_other)
    qed
  qed
qed

lemma try_alloc_pushed:
  assumes "pushed kc cpu buf"
  shows "\<exists>kc'. try_alloc cfg e cpu n kc = Inr (Some buf, kc')"
  using assms by (subst try_alloc.simps) (simp add: pushed_def Let_def)

lemma try_free_True_alloc:
  assumes "try_free cfg e1 mc cpu buf nl nm kc evs = Some (Inr (True, kc1, evs1))"
  shows "\<exists>kc2. kmem_cache_alloc cfg e2 cpu kc1 fl = Inr (buf, kc2, [])"
proof -
  from try_free_pushed [OF assms, rule_format, OF refl] have "pushed kc1 cpu buf" by simp
  from try_alloc_pushed [OF this] obtain kc2 where "try_alloc cfg e2 cpu 0 kc1 = Inr (Some buf, kc2)"
    by blast
  then show ?thesis by (simp add: kmem_cache_alloc_def)
qed

lemma kmem_cache_free_other:
  assumes "kmem_cache_free cfg e None cpu kc buf = Some (Inr (kc1, evs))"
  shows "try_free cfg e None cpu buf 0 0 kc [] = Some (Inr (True, kc1, [])) \<and> evs = []"
proof -
  from assms obtain b kc' evs' where t: "try_free cfg e None cpu buf 0 0 kc [] = Some (Inr (b, kc', evs'))"
    by (auto simp: kmem_cache_free_def split: option.splits sum.splits prod.splits)
  from try_free_pushed [OF t, rule_format, OF refl] have b: "b" "evs' = []" by simp_all
  with t assms show ?thesis by (simp add: kmem_cache_free_def)
qed

text \<open>The free loop returns when there is room for the object, or a magazine to be had.\<close>

lemma try_free_pushed_room:
  assumes "cpu < length (pcpu_caches kc)"
    and "nr_rounds (loaded (pcpu_caches kc ! cpu)) < magsize (pcpu_caches kc ! cpu)"
    and "magsize (pcpu_caches kc ! cpu) \<le> length (rounds (loaded (pcpu_caches kc ! cpu)))"
  shows "\<exists>kc'. try_free cfg e mc cpu buf nl nm kc evs = Some (Inr (True, kc', evs))"
proof -
  have "nr_rounds (loaded (pcpu_caches kc ! cpu)) < length (rounds (loaded (pcpu_caches kc ! cpu)))"
    using assms by simp
  from try_free_room [OF assms(1,2) this, of cfg e mc buf nl nm evs]
  show ?thesis by simp
qed

lemma try_free_pushed_swap:
  assumes "cpu < length (pcpu_caches kc)"
    and "\<not> nr_rounds (loaded (pcpu_caches kc ! cpu)) < magsize (pcpu_caches kc ! cpu)"
    and "nr_rounds (prev (pcpu_caches kc ! cpu)) < magsize (pcpu_caches kc ! cpu)"
    and "magsize (pcpu_caches kc ! cpu) \<le> length (rounds (prev (pcpu_caches kc ! cpu)))"
  shows "\<exists>kc'. try_free cfg e mc cpu buf nl nm kc evs = Some (Inr (True, kc', evs))"
proof -
  let ?kc1 = "kc\<lparr>pcpu_caches := (pcpu_caches kc)[cpu := swap_mags (pcpu_caches kc ! cpu)]\<rparr>"
  have "try_free cfg e mc cpu buf nl nm kc evs = try_free cfg e mc cpu buf nl nm ?kc1 evs"
    using assms by (subst try_free.simps) (simp add: Let_def)
  moreover have "\<exists>kc'. try_free cfg e mc cpu buf nl nm ?kc1 evs = Some (Inr (True, kc', evs))"
    using assms by (intro try_free_pushed_room) (simp_all add: swap_mags_def)
  ultimately show ?thesis by simp
qed

lemma try_free_pushed_depot:
  assumes ok: "front_ok cfg kc cpu"
    and "\<not> nr_rounds (loaded (pcpu_caches kc ! cpu)) < magsize (pcpu_caches kc ! cpu)"
    and "\<not> nr_rounds (prev (pcpu_caches kc ! cpu)) < magsize (pcpu_caches kc ! cpu)"
    and ne: "empty (depot kc) \<noteq> []"
  shows "\<exists>kc'. try_free cfg e mc cpu buf nl nm kc evs = Some (Inr (True, kc', evs))"
proof -
  obtain mag rest where mr: "empty (depot kc) = mag # rest"
    using ne by (cases "empty (depot kc)") auto
  let ?d = "lock_depot cfg (trylock e nl) (depot kc)"
  let ?pcc1 = "(pcpu_caches kc ! cpu)\<lparr>magsize := depot_magsize ?d\<rparr>"
  let ?kc1 = "kc\<lparr>depot := return_to_depot (?d\<lparr>empty := rest, nr_empty := nr_empty ?d - 1\<rparr>) (prev ?pcc1),
                 pcpu_caches := (pcpu_caches kc)[cpu := ?pcc1\<lparr>prev := loaded ?pcc1, loaded := mag\<rparr>]\<rparr>"
  have cpu: "cpu < length (pcpu_caches kc)" using ok by (simp add: front_ok_def)
  have step: "try_free cfg e mc cpu buf nl nm kc evs = try_free cfg e mc cpu buf (nl + 1) nm ?kc1 evs"
    using assms(2,3) cpu mr by (subst try_free.simps) (simp add: Let_def lock_depot_lists)
  have m: "1 \<le> depot_magsize ?d \<and> depot_magsize ?d \<le> KMC_MAG_MAX_SZ cfg"
    using ok by (intro lock_depot_magsize) (simp_all add: front_ok_def)
  have mag: "nr_rounds mag = 0 \<and> KMC_MAG_MAX_SZ cfg \<le> length (rounds mag)"
    using ok mr by (simp add: front_ok_def)
  have "\<exists>kc'. try_free cfg e mc cpu buf (nl + 1) nm ?kc1 evs = Some (Inr (True, kc', evs))"
    using cpu m mag by (intro try_free_pushed_room) simp_all
  with step show ?thesis by simp
qed

lemma try_free_pushed_ok:
  assumes ok: "front_ok cfg kc cpu"
    and "nr_rounds (loaded (pcpu_caches kc ! cpu)) < magsize (pcpu_caches kc ! cpu)
         \<or> nr_rounds (prev (pcpu_caches kc ! cpu)) < magsize (pcpu_caches kc ! cpu)
         \<or> empty (depot kc) \<noteq> []"
  shows "\<exists>kc'. try_free cfg e mc cpu buf nl nm kc evs = Some (Inr (True, kc', evs))"
proof (cases "nr_rounds (loaded (pcpu_caches kc ! cpu)) < magsize (pcpu_caches kc ! cpu)")
  case True
  with ok show ?thesis by (intro try_free_pushed_room) (simp_all add: front_ok_def)
next
  case nl: False
  show ?thesis
  proof (cases "nr_rounds (prev (pcpu_caches kc ! cpu)) < magsize (pcpu_caches kc ! cpu)")
    case True
    with ok nl show ?thesis by (intro try_free_pushed_swap) (simp_all add: front_ok_def)
  next
    case False
    with ok nl assms(2) show ?thesis by (intro try_free_pushed_depot) simp_all
  qed
qed

lemma try_free_pushed_magazine:
  assumes ok: "front_ok cfg kc cpu"
    and full: "\<not> nr_rounds (loaded (pcpu_caches kc ! cpu)) < magsize (pcpu_caches kc ! cpu)"
      "\<not> nr_rounds (prev (pcpu_caches kc ! cpu)) < magsize (pcpu_caches kc ! cpu)"
    and em: "empty (depot kc) = []"
    and mag: "magazine_alloc e nm = Some mag" "nr_rounds mag = 0" "KMC_MAG_MAX_SZ cfg \<le> length (rounds mag)"
  shows "\<exists>kc'. try_free cfg e None cpu buf nl nm kc evs = Some (Inr (True, kc', evs))"
proof -
  let ?d = "lock_depot cfg (trylock e nl) (depot kc)"
  let ?pcc1 = "(pcpu_caches kc ! cpu)\<lparr>magsize := depot_magsize ?d\<rparr>"
  let ?d3 = "lock_depot cfg (trylock e (nl + 1)) ?d"
  let ?kc1 = "kc\<lparr>pcpu_caches := (pcpu_caches kc)[cpu := ?pcc1],
                 depot := ?d3\<lparr>empty := mag # empty ?d3, nr_empty := nr_empty ?d3 + 1\<rparr>\<rparr>"
  have cpu: "cpu < length (pcpu_caches kc)" using ok by (simp add: front_ok_def)
  have step: "try_free cfg e None cpu buf nl nm kc evs = try_free cfg e None cpu buf (nl + 2) (nm + 1) ?kc1 evs"
    using mag by (simp add: try_free_magazine [OF cpu full em])
  have m: "1 \<le> depot_magsize ?d \<and> depot_magsize ?d \<le> KMC_MAG_MAX_SZ cfg"
    using ok by (intro lock_depot_magsize) (simp_all add: front_ok_def)
  then have m3: "1 \<le> depot_magsize ?d3 \<and> depot_magsize ?d3 \<le> KMC_MAG_MAX_SZ cfg"
    by (intro lock_depot_magsize) simp_all
  have ok1: "front_ok cfg ?kc1 cpu"
    using ok cpu m m3 mag em by (simp add: front_ok_def lock_depot_lists)
  have "\<exists>kc'. try_free cfg e None cpu buf (nl + 2) (nm + 1) ?kc1 evs = Some (Inr (True, kc', evs))"
    using ok1 by (intro try_free_pushed_ok) (simp_all add: lock_depot_lists)
  with step show ?thesis by simp
qed

text \<open>
  The free on \<open>kmem_magazine_cache\<close> itself, when neither magazine of the CPU
  has room and the depot has no empty magazine: the magazine that the free
  asks for is the top round of the loaded magazine.
\<close>

lemma try_alloc_pop:
  assumes "cpu < length (pcpu_caches kc)" "nr_rounds (loaded (pcpu_caches kc ! cpu)) \<noteq> 0"
    "nr_rounds (loaded (pcpu_caches kc ! cpu)) \<le> length (rounds (loaded (pcpu_caches kc ! cpu)))"
  shows "try_alloc cfg e cpu n kc =
    Inr (Some (rounds (loaded (pcpu_caches kc ! cpu)) ! (nr_rounds (loaded (pcpu_caches kc ! cpu)) - 1)),
         kc\<lparr>pcpu_caches := (pcpu_caches kc)[cpu :=
              (pcpu_caches kc ! cpu)\<lparr>loaded := (loaded (pcpu_caches kc ! cpu))
                                        \<lparr>nr_rounds := nr_rounds (loaded (pcpu_caches kc ! cpu)) - 1\<rparr>,
                  nr_allocs_ever := nr_allocs_ever (pcpu_caches kc ! cpu) + 1\<rparr>]\<rparr>)"
  using assms by (subst try_alloc.simps) (simp add: Let_def)

lemma try_free_pushed_self:
  assumes ok: "front_ok cfg kc cpu"
    and full: "\<not> nr_rounds (loaded (pcpu_caches kc ! cpu)) < magsize (pcpu_caches kc ! cpu)"
      "\<not> nr_rounds (prev (pcpu_caches kc ! cpu)) < magsize (pcpu_caches kc ! cpu)"
    and em: "empty (depot kc) = []"
    and ms: "1 \<le> magsize (pcpu_caches kc ! cpu)"
    and wf: "mag_wf cfg (loaded (pcpu_caches kc ! cpu))"
    and mo: "magazine_objs_ok cfg e"
  shows "\<exists>kc'. try_free cfg e (Some en) cpu buf nl nm kc evs = Some (Inr (True, kc', evs))"
proof -
  let ?pcc = "pcpu_caches kc ! cpu"
  let ?p = "rounds (loaded ?pcc) ! (nr_rounds (loaded ?pcc) - 1)"
  let ?d = "lock_depot cfg (trylock e nl) (depot kc)"
  let ?d3 = "lock_depot cfg (trylock e (nl + 1)) ?d"
  let ?kc3 = "kc\<lparr>pcpu_caches := (pcpu_caches kc)[cpu :=
                   ?pcc\<lparr>magsize := depot_magsize ?d,
                         loaded := (loaded ?pcc)\<lparr>nr_rounds := nr_rounds (loaded ?pcc) - 1\<rparr>,
                         nr_allocs_ever := nr_allocs_ever ?pcc + 1\<rparr>],
                 depot := ?d3\<lparr>empty := magazine_at e ?p # empty ?d3, nr_empty := nr_empty ?d3 + 1\<rparr>\<rparr>"
  have cpu: "cpu < length (pcpu_caches kc)" using ok by (simp add: front_ok_def)
  have pos: "nr_rounds (loaded ?pcc) \<noteq> 0" using full(1) ms by simp
  have le: "nr_rounds (loaded ?pcc) \<le> length (rounds (loaded ?pcc))"
    using wf by (simp add: mag_wf_def)
  have "?p \<in> set (take (nr_rounds (loaded ?pcc)) (rounds (loaded ?pcc)))"
    using pos le by (simp add: in_set_conv_nth) (rule exI [of _ "nr_rounds (loaded ?pcc) - 1"], simp)
  with wf have top: "?p \<noteq> NULL" by (auto simp: mag_wf_def)
  with mo have mag: "nr_rounds (magazine_at e ?p) = 0"
    "KMC_MAG_MAX_SZ cfg \<le> length (rounds (magazine_at e ?p))"
    by (simp_all add: magazine_objs_ok_def)
  have step: "try_free cfg e (Some en) cpu buf nl nm kc evs
      = try_free cfg e (Some en) cpu buf (nl + 2) (nm + 1) ?kc3 evs"
    using cpu full em pos le top mag
    by (subst try_free.simps)
       (simp add: Let_def lock_depot_lists magazine_cache_alloc_def kmem_cache_alloc_def try_alloc_pop)
  have m: "1 \<le> depot_magsize ?d \<and> depot_magsize ?d \<le> KMC_MAG_MAX_SZ cfg"
    using ok by (intro lock_depot_magsize) (simp_all add: front_ok_def)
  then have m3: "1 \<le> depot_magsize ?d3 \<and> depot_magsize ?d3 \<le> KMC_MAG_MAX_SZ cfg"
    by (intro lock_depot_magsize) simp_all
  have ok1: "front_ok cfg ?kc3 cpu"
    using ok cpu m m3 mag em by (simp add: front_ok_def lock_depot_lists)
  have "\<exists>kc'. try_free cfg e (Some en) cpu buf (nl + 2) (nm + 1) ?kc3 evs = Some (Inr (True, kc', evs))"
    using ok1 by (intro try_free_pushed_ok) (simp_all add: lock_depot_lists)
  with step show ?thesis by simp
qed

text \<open>
  C3: \<open>kmem_cache_free\<close> of \<open>x\<close> followed by \<open>kmem_cache_alloc\<close> on the same CPU,
  with nothing in between, returns \<open>x\<close>.
  \<^item> For a cache other than \<open>kmem_magazine_cache\<close>: whenever the free returns,
    the allocation that follows returns \<open>x\<close>, whatever the contention on the
    depot lock and whatever the state of the magazines.
  \<^item> For every cache, \<open>kmem_magazine_cache\<close> too: whenever the loop of the free
    ends with the object in a magazine, the allocation that follows returns
    \<open>x\<close>.
  \<^item> On a CPU whose magazines are well formed the free does return, and the
    allocation returns \<open>x\<close>, with one exception: the cache is not
    \<open>kmem_magazine_cache\<close>, neither magazine of the CPU has room, the depot
    has no empty magazine, and the allocation of a magazine from
    \<open>kmem_magazine_cache\<close> panics; then the free panics. For
    \<open>kmem_magazine_cache\<close> itself, well formed means in addition that the
    target of the CPU is at least one round, that no round of its loaded
    magazine is \<open>NULL\<close>, and that the objects of the cache are magazines
    without rounds.
\<close>

theorem free_then_alloc_same:
  "(kmem_cache_free cfg e1 None cpu kc buf = Some (Inr (kc1, evs))
      \<longrightarrow> free_then_alloc cfg e1 None e2 cpu kc buf fl = Some (Inr buf))
   \<and> (try_free cfg e1 mc cpu buf 0 0 kc [] = Some (Inr (True, kc1, evs))
      \<longrightarrow> free_then_alloc cfg e1 mc e2 cpu kc buf fl = Some (Inr buf))
   \<and> (front_ok cfg kc cpu \<and> magazines_ok cfg e1
       \<and> (mc \<noteq> None \<longrightarrow> 1 \<le> magsize (pcpu_caches kc ! cpu)
              \<and> mag_wf cfg (loaded (pcpu_caches kc ! cpu)) \<and> magazine_objs_ok cfg e1) \<longrightarrow>
        (if \<not> nr_rounds (loaded (pcpu_caches kc ! cpu)) < magsize (pcpu_caches kc ! cpu)
            \<and> \<not> nr_rounds (prev (pcpu_caches kc ! cpu)) < magsize (pcpu_caches kc ! cpu)
            \<and> empty (depot kc) = [] \<and> mc = None \<and> magazine_alloc e1 0 = None
         then kmem_cache_free cfg e1 mc cpu kc buf = Some (Inl PANIC)
         else free_then_alloc cfg e1 mc e2 cpu kc buf fl = Some (Inr buf)))"
proof (intro conjI impI)
  have T: "free_then_alloc cfg e1 mc' e2 cpu kc buf fl = Some (Inr buf)"
    if t: "try_free cfg e1 mc' cpu buf 0 0 kc [] = Some (Inr (True, kc', evs'))" for mc' kc' evs'
  proof -
    from try_free_True_alloc [OF t] obtain kc2 where
      "kmem_cache_alloc cfg e2 cpu kc' fl = Inr (buf, kc2, [])" by blast
    with t show ?thesis by (simp add: free_then_alloc_def kmem_cache_free_def)
  qed
  show "free_then_alloc cfg e1 mc e2 cpu kc buf fl = Some (Inr buf)"
    if "try_free cfg e1 mc cpu buf 0 0 kc [] = Some (Inr (True, kc1, evs))"
    using that by (rule T)
  show "free_then_alloc cfg e1 None e2 cpu kc buf fl = Some (Inr buf)"
    if f: "kmem_cache_free cfg e1 None cpu kc buf = Some (Inr (kc1, evs))"
    using kmem_cache_free_other [OF f] by (auto intro: T)
  show "if \<not> nr_rounds (loaded (pcpu_caches kc ! cpu)) < magsize (pcpu_caches kc ! cpu)
            \<and> \<not> nr_rounds (prev (pcpu_caches kc ! cpu)) < magsize (pcpu_caches kc ! cpu)
            \<and> empty (depot kc) = [] \<and> mc = None \<and> magazine_alloc e1 0 = None
         then kmem_cache_free cfg e1 mc cpu kc buf = Some (Inl PANIC)
         else free_then_alloc cfg e1 mc e2 cpu kc buf fl = Some (Inr buf)"
    if h: "front_ok cfg kc cpu \<and> magazines_ok cfg e1
       \<and> (mc \<noteq> None \<longrightarrow> 1 \<le> magsize (pcpu_caches kc ! cpu)
              \<and> mag_wf cfg (loaded (pcpu_caches kc ! cpu)) \<and> magazine_objs_ok cfg e1)"
  proof (cases "nr_rounds (loaded (pcpu_caches kc ! cpu)) < magsize (pcpu_caches kc ! cpu)
         \<or> nr_rounds (prev (pcpu_caches kc ! cpu)) < magsize (pcpu_caches kc ! cpu)
         \<or> empty (depot kc) \<noteq> []")
    case True
    from h have ok: "front_ok cfg kc cpu" by simp
    from try_free_pushed_ok [OF ok True, where e = e1 and mc = mc and buf = buf and nl = 0 and nm = 0
        and evs = "[]"] T True
    show ?thesis by auto
  next
    case False
    from h have ok: "front_ok cfg kc cpu" and env: "magazines_ok cfg e1" by simp_all
    from ok have cpu: "cpu < length (pcpu_caches kc)" by (simp add: front_ok_def)
    from False have full: "\<not> nr_rounds (loaded (pcpu_caches kc ! cpu)) < magsize (pcpu_caches kc ! cpu)"
      "\<not> nr_rounds (prev (pcpu_caches kc ! cpu)) < magsize (pcpu_caches kc ! cpu)"
      and em: "empty (depot kc) = []" by simp_all
    show ?thesis
    proof (cases mc)
      case (Some en)
      with h have s: "1 \<le> magsize (pcpu_caches kc ! cpu)" "mag_wf cfg (loaded (pcpu_caches kc ! cpu))"
        "magazine_objs_ok cfg e1" by simp_all
      from try_free_pushed_self [OF ok full em s, where en = en and buf = buf and nl = 0 and nm = 0
          and evs = "[]"] T Some
      show ?thesis by auto
    next
      case mcN: None
      show ?thesis
      proof (cases "magazine_alloc e1 0")
        case None
        then have "kmem_cache_free cfg e1 None cpu kc buf = Some (Inl PANIC)"
          by (simp add: kmem_cache_free_def try_free_magazine [OF cpu full em])
        with None full em mcN show ?thesis by simp
      next
        case (Some mag)
        with env have "nr_rounds mag = 0 \<and> KMC_MAG_MAX_SZ cfg \<le> length (rounds mag)"
          by (auto simp: magazines_ok_def split: option.splits dest: spec [of _ 0])
        with try_free_pushed_magazine [OF ok full em Some, where buf = buf and nl = 0 and evs = "[]"]
          T Some mcN
        show ?thesis by auto
      qed
    qed
  qed
qed

theorem free_then_alloc_same_witness:
  "kmem_cache_free example_config magazine_env None 0 full_mags_cache 10240
     = Some (Inr (fst (projr (the (kmem_cache_free example_config magazine_env None 0 full_mags_cache 10240))), []))
   \<and> free_then_alloc example_config magazine_env None quiet_env 0 full_mags_cache 10240 {} = Some (Inr 10240)
   \<and> try_free example_config quiet_env (Some (\<lambda>n. quiet_env)) 0 8192 0 0 small_cache []
     = Some (Inr (True, small_cache\<lparr>pcpu_caches :=
          [\<lparr>magsize = 2, loaded = \<lparr>nr_rounds = 1, rounds = [8192, 0, 0, 0]\<rparr>,
            prev = \<lparr>nr_rounds = 0, rounds = [0, 0, 0, 0]\<rparr>, nr_allocs_ever = 0\<rparr>]\<rparr>, []))
   \<and> free_then_alloc example_config quiet_env (Some (\<lambda>n. quiet_env)) quiet_env 0 small_cache 8192 {}
     = Some (Inr 8192)
   \<and> front_ok example_config full_mags_cache 0 \<and> magazines_ok example_config quiet_env
   \<and> magazine_alloc quiet_env 0 = None
   \<and> kmem_cache_free example_config quiet_env None 0 full_mags_cache 10240 = Some (Inl PANIC)
   \<and> 1 \<le> magsize (pcpu_caches full_mags_cache ! 0)
   \<and> mag_wf example_config (loaded (pcpu_caches full_mags_cache ! 0))
   \<and> magazine_objs_ok example_config quiet_env
   \<and> free_then_alloc example_config quiet_env (Some (\<lambda>n. quiet_env)) quiet_env 0 full_mags_cache 10240 {}
     = Some (Inr 10240)"
proof -
  have ok: "front_ok example_config full_mags_cache 0"
    by (simp add: front_ok_def full_mags_simps example_config_def)
  have me: "magazines_ok example_config magazine_env" "magazines_ok example_config quiet_env"
    by (simp_all add: magazines_ok_def magazine_env_def quiet_env_def new_magazine_def example_config_def)
  have so: "1 \<le> magsize (pcpu_caches full_mags_cache ! 0)"
    "mag_wf example_config (loaded (pcpu_caches full_mags_cache ! 0))"
    "magazine_objs_ok example_config quiet_env"
    by (simp_all add: full_mags_simps mag_wf_def magazine_objs_ok_def quiet_env_def new_magazine_def
        example_config_def NULL_def)
  have t: "try_free example_config quiet_env (Some (\<lambda>n. quiet_env)) 0 8192 0 0 small_cache []
     = Some (Inr (True, small_cache\<lparr>pcpu_caches :=
          [\<lparr>magsize = 2, loaded = \<lparr>nr_rounds = 1, rounds = [8192, 0, 0, 0]\<rparr>,
            prev = \<lparr>nr_rounds = 0, rounds = [0, 0, 0, 0]\<rparr>, nr_allocs_ever = 0\<rparr>]\<rparr>, []))"
    by (subst try_free_room) (simp_all add: small_cache_simps)
  note A = free_then_alloc_same [where cfg = example_config and ?e1.0 = magazine_env and cpu = 0
      and kc = full_mags_cache and buf = 10240 and ?e2.0 = quiet_env and fl = "{}" and mc = None,
      THEN conjunct2, THEN conjunct2]
  note B = free_then_alloc_same [where cfg = example_config and ?e1.0 = quiet_env and cpu = 0
      and kc = full_mags_cache and buf = 10240 and ?e2.0 = quiet_env and fl = "{}" and mc = None,
      THEN conjunct2, THEN conjunct2]
  note S = free_then_alloc_same [where cfg = example_config and ?e1.0 = quiet_env and cpu = 0
      and kc = full_mags_cache and buf = 10240 and ?e2.0 = quiet_env and fl = "{}"
      and mc = "Some (\<lambda>n. quiet_env)", THEN conjunct2, THEN conjunct2]
  note C = free_then_alloc_same [where cfg = example_config and ?e1.0 = quiet_env and cpu = 0
      and kc = small_cache and buf = 8192 and mc = "Some (\<lambda>n. quiet_env)" and ?e2.0 = quiet_env and fl = "{}",
      THEN conjunct2, THEN conjunct1, rule_format, OF t]
  have a: "free_then_alloc example_config magazine_env None quiet_env 0 full_mags_cache 10240 {} = Some (Inr 10240)"
    using A ok me(1) by (simp add: magazine_env_def quiet_env_def)
  have b: "kmem_cache_free example_config quiet_env None 0 full_mags_cache 10240 = Some (Inl PANIC)"
    using B ok me(2) by (simp add: full_mags_simps quiet_env_def)
  have s: "free_then_alloc example_config quiet_env (Some (\<lambda>n. quiet_env)) quiet_env 0 full_mags_cache 10240 {}
     = Some (Inr 10240)"
    using S ok me(2) so by simp
  from a obtain kc1 evs where k: "kmem_cache_free example_config magazine_env None 0 full_mags_cache 10240
        = Some (Inr (kc1, evs))"
    by (auto simp: free_then_alloc_def split: option.splits sum.splits)
  from kmem_cache_free_other [OF k] have "evs = []" by simp
  with k have f: "kmem_cache_free example_config magazine_env None 0 full_mags_cache 10240
     = Some (Inr (fst (projr (the (kmem_cache_free example_config magazine_env None 0 full_mags_cache 10240))), []))"
    by simp
  from a b C f t ok me(2) so s show ?thesis by (simp add: quiet_env_def)
qed

subsection \<open>Reaping\<close>

lemma grown_cache_simps:
  "kmem_cache_grow example_config (quiet_env\<lparr>arena_alloc := 8192\<rparr>) small_cache = Inr (True, grown_cache, [])"
  "grown_cache = small_cache\<lparr>empty_slab_list := [12240],
       slabs := [12240 \<mapsto> \<lparr>num_busy_obj = 0, num_total_obj = 7,
          free_small_obj = [8192, 8704, 9216, 9728, 10240, 10752, 11264], bufctl_freelist = []\<rparr>]\<rparr>"
proof -
  have six: "(6::nat) = Suc (Suc (Suc (Suc (Suc (Suc 0)))))"
    by simp
  have fl: "small_freelist 6 8192 512 = [8192, 8704, 9216, 9728, 10240, 10752, 11264]"
    unfolding six by simp
  show "kmem_cache_grow example_config (quiet_env\<lparr>arena_alloc := 8192\<rparr>) small_cache = Inr (True, grown_cache, [])"
    by (simp add: grown_cache_def kmem_cache_grow_def small_cache_simps use_bufctls_def quiet_env_def
      example_config_def NULL_def Let_def)
  show "grown_cache = small_cache\<lparr>empty_slab_list := [12240],
       slabs := [12240 \<mapsto> \<lparr>num_busy_obj = 0, num_total_obj = 7,
          free_small_obj = [8192, 8704, 9216, 9728, 10240, 10752, 11264], bufctl_freelist = []\<rparr>]\<rparr>"
    by (simp add: grown_cache_def kmem_cache_grow_def small_cache_simps use_bufctls_def quiet_env_def
      example_config_def NULL_def Let_def fl)
qed

lemma kmem_cache_reap_same:
  "kmem_cache_reap cfg cp = Inr (cp', evs) \<Longrightarrow> cp' = cp"
  by (auto simp: kmem_cache_reap_def split: sum.splits)

text \<open>
  C8: the code does not do what the claim says. \<open>kmem_cache_reap\<close> gives the
  page of every slab of the empty list back to the arena, and leaves the
  cache as it was: the destroyed slab is still the head of the empty list.
  In the example the cache has grown by the page at 8192, whose slab record
  is at 12240; after the reap has freed that page, the list still holds
  12240, and the next \<open>__kmem_alloc_from_slab\<close> hands out the address 8192 from
  the page that the arena has back.
\<close>

theorem kmem_cache_reap_keeps_slab:
  "kmem_cache_grow example_config (quiet_env\<lparr>arena_alloc := 8192\<rparr>) small_cache = Inr (True, grown_cache, [])
   \<and> empty_slab_list grown_cache = [12240]
   \<and> kmem_cache_reap example_config grown_cache = Inr (grown_cache, [ARENA_FREE 8192 4096])
   \<and> map_sum id fst (kmem_alloc_from_slab example_config quiet_env grown_cache {}) = Inr 8192"
  apply (simp add: grown_cache_simps(1))
  apply (simp add: grown_cache_simps(2) small_cache_simps kmem_cache_reap_def kmem_slab_destroy_def
      use_bufctls_def ROUNDDOWN_def example_config_def)
  apply (simp add: kmem_alloc_from_slab_def alloc_pick_slab_def alloc_take_obj_def alloc_account_def
      use_bufctls_def Let_def tailq_remove_def)
  done

subsection \<open>The slab lists of a slab with one object\<close>

lemma one_slot_cache_simps:
  "one_slot_cache = \<lparr>obj_size = 4096, import_amt = 4096, align = 4096,
             flags = {KMC_USE_BUFCTL, KMC_NOTOUCH},
             full_slab_list = [], partial_slab_list = [], empty_slab_list = [],
             slabs = Map.empty, ctor = None, dtor = False, nr_cur_alloc = 0,
             alloc_hash = [[], [], [], []], alloc_hash_is_static = True,
             hh = \<lparr>nr_hash_lists = 4, nr_hash_bits = 2, nr_items = 0, load_limit = 2\<rparr>,
             depot = \<lparr>not_empty = [], empty = [], depot_magsize = 2,
                      nr_not_empty = 0, nr_empty = 0, busy_count = 0, busy_start = 0\<rparr>,
             pcpu_caches = [\<lparr>magsize = 2, loaded = \<lparr>nr_rounds = 0, rounds = [0, 0, 0, 0]\<rparr>,
                             prev = \<lparr>nr_rounds = 0, rounds = [0, 0, 0, 0]\<rparr>, nr_allocs_ever = 0\<rparr>]\<rparr>"
  by (simp add: one_slot_cache_def kmem_cache_create_def magazine_from_slab_def magazine_env_def
      quiet_env_def example_config_def ROUNDUP_def ROUNDDOWN_def depot_init_def new_magazine_def NULL_def
      replicate_4)

lemma one_slot_create:
  "kmem_cache_create example_config magazine_env None 1 0 1 4096 {KMC_NOTOUCH} None False
     = Inr (one_slot_cache, [])"
  by (simp add: one_slot_cache_simps kmem_cache_create_def magazine_from_slab_def magazine_env_def
      quiet_env_def example_config_def ROUNDUP_def ROUNDDOWN_def depot_init_def new_magazine_def NULL_def
      replicate_4)

lemma one_slot_busy_simps:
  "kmem_alloc_from_slab example_config one_slot_env one_slot_cache {} = Inr (8192, one_slot_busy, [])"
  "one_slot_busy = one_slot_cache\<lparr>full_slab_list := [20000],
       slabs := [20000 \<mapsto> \<lparr>num_busy_obj = 1, num_total_obj = 1, free_small_obj = [], bufctl_freelist = []\<rparr>],
       nr_cur_alloc := 1,
       alloc_hash := [[\<lparr>buf_addr = 8192, my_slab = 20000\<rparr>], [], [], []],
       hh := \<lparr>nr_hash_lists = 4, nr_hash_bits = 2, nr_items = 1, load_limit = 2\<rparr>\<rparr>"
  by (simp_all add: one_slot_busy_def one_slot_cache_simps one_slot_env_def quiet_env_def
      kmem_alloc_from_slab_def alloc_pick_slab_def alloc_take_obj_def alloc_account_def
      kmem_cache_grow_def track_alloc_def try_hash_resize_def hash_insert_def
      use_bufctls_def Let_def tailq_remove_def example_config_def NULL_def)

lemma one_slot_idle_simps:
  "kmem_free_to_slab example_config one_slot_busy 8192 = Inr one_slot_idle"
  "one_slot_idle = one_slot_cache\<lparr>partial_slab_list := [20000],
       slabs := [20000 \<mapsto> \<lparr>num_busy_obj = 0, num_total_obj = 1, free_small_obj = [],
                             bufctl_freelist = [\<lparr>buf_addr = 8192, my_slab = 20000\<rparr>]\<rparr>],
       hh := \<lparr>nr_hash_lists = 4, nr_hash_bits = 2, nr_items = 1, load_limit = 2\<rparr>\<rparr>"
  by (simp_all add: one_slot_idle_def one_slot_busy_simps(2) one_slot_cache_simps
      kmem_free_to_slab_def yank_bufctl_def use_bufctls_def Let_def tailq_remove_def example_config_def)

text \<open>
  C1: the code does not keep the invariant for a slab of one object. A cache
  created with \<open>kmem_cache_create("...", 1, PGSIZE, KMC_NOTOUCH, ...)\<close> has
  objects of 4096 bytes and imports 4096 bytes per slab. Its first allocation
  from the slab back-end fills the slab, which goes to the full list; when
  the object is freed, the test for "was full" comes first and moves the slab
  to the partial list, and the test for "no busy object" in the \<open>else\<close> branch
  is not reached: the slab has \<open>num_busy_obj = 0\<close> and is on the partial list,
  not on the empty list.
\<close>

theorem one_slot_slab_on_partial_list:
  "kmem_cache_create example_config magazine_env None 1 0 1 4096 {KMC_NOTOUCH} None False
     = Inr (one_slot_cache, [])
   \<and> kmem_alloc_from_slab example_config one_slot_env one_slot_cache {} = Inr (8192, one_slot_busy, [])
   \<and> kmem_free_to_slab example_config one_slot_busy 8192 = Inr one_slot_idle
   \<and> slabs one_slot_idle 20000 =
        Some \<lparr>num_busy_obj = 0, num_total_obj = 1, free_small_obj = [],
              bufctl_freelist = [\<lparr>buf_addr = 8192, my_slab = 20000\<rparr>]\<rparr>
   \<and> partial_slab_list one_slot_idle = [20000]
   \<and> empty_slab_list one_slot_idle = []
   \<and> full_slab_list one_slot_idle = []"
proof (intro conjI)
  show "kmem_cache_create example_config magazine_env None 1 0 1 4096 {KMC_NOTOUCH} None False
     = Inr (one_slot_cache, [])"
    by (rule one_slot_create)
  show "kmem_alloc_from_slab example_config one_slot_env one_slot_cache {} = Inr (8192, one_slot_busy, [])"
    by (rule one_slot_busy_simps(1))
  show "kmem_free_to_slab example_config one_slot_busy 8192 = Inr one_slot_idle"
    by (rule one_slot_idle_simps(1))
qed (simp_all add: one_slot_idle_simps(2) one_slot_cache_simps)

subsection \<open>The hash of allocated bufctls\<close>

lemma mset_concat_update:
  "idx < length tbl \<Longrightarrow> mset (concat (tbl[idx := x # tbl ! idx])) = add_mset x (mset (concat tbl))"
  by (induction tbl arbitrary: idx) (auto split: nat.splits)

lemma hash_insert_Inr:
  "hash_insert tbl idx bc = Inr tbl' \<Longrightarrow>
     mset (concat tbl') = add_mset bc (mset (concat tbl)) \<and> length tbl' = length tbl"
  by (auto simp: hash_insert_def mset_concat_update split: if_splits)

lemma rehash_chain_Inr:
  "rehash_chain cfg bits chain tbl = Inr tbl' \<Longrightarrow>
     mset (concat tbl') = mset chain + mset (concat tbl) \<and> length tbl' = length tbl"
proof (induction chain arbitrary: tbl)
  case Nil
  then show ?case by simp
next
  case (Cons bc chain)
  then show ?case
    by (auto split: sum.splits dest!: hash_insert_Inr)
qed

lemma rehash_table_Inr:
  "rehash_table cfg bits old tbl = Inr tbl' \<Longrightarrow>
     mset (concat tbl') = mset (concat old) + mset (concat tbl) \<and> length tbl' = length tbl"
proof (induction old arbitrary: tbl)
  case Nil
  then show ?case by simp
next
  case (Cons chain old)
  then show ?case
    by (auto split: sum.splits dest!: rehash_chain_Inr)
qed

lemma try_hash_resize_Inr:
  assumes "try_hash_resize cfg e cp = Inr (cp', evs)" and "config_ok cfg"
    and "nr_hash_lists (hh cp) = length (alloc_hash cp)"
  shows "mset (hash_bufctls cp') = mset (hash_bufctls cp)"
    and "nr_hash_lists (hh cp') = length (alloc_hash cp')"
    and "\<exists>t s h. cp' = cp\<lparr>alloc_hash := t, alloc_hash_is_static := s, hh := h\<rparr>"
proof -
  show "mset (hash_bufctls cp') = mset (hash_bufctls cp)"
    using assms
    by (auto simp: try_hash_resize_def Let_def hash_bufctls_def split: if_splits sum.splits
        dest!: rehash_table_Inr)
  show "nr_hash_lists (hh cp') = length (alloc_hash cp')"
    using assms
    by (auto simp: try_hash_resize_def Let_def config_ok_def split: if_splits sum.splits
        dest!: rehash_table_Inr)
  show "\<exists>t s h. cp' = cp\<lparr>alloc_hash := t, alloc_hash_is_static := s, hh := h\<rparr>"
  proof (cases "alloc_hash cp' = alloc_hash cp \<and> hh cp' = hh cp \<and> cp' = cp")
    case True
    then have "cp' = cp\<lparr>alloc_hash := alloc_hash cp, alloc_hash_is_static := alloc_hash_is_static cp, hh := hh cp\<rparr>"
      by simp
    then show ?thesis by blast
  next
    case False
    with assms(1) show ?thesis
      by (auto simp: try_hash_resize_def Let_def split: if_splits sum.splits)
  qed
qed

lemma track_alloc_Inr:
  assumes "track_alloc cfg e cp bc = Inr (cp', evs)" and "config_ok cfg"
    and "nr_hash_lists (hh cp) = length (alloc_hash cp)"
  shows "mset (hash_bufctls cp') = add_mset bc (mset (hash_bufctls cp))"
    and "nr_hash_lists (hh cp') = length (alloc_hash cp')"
    and "\<exists>t s h. cp' = cp\<lparr>alloc_hash := t, alloc_hash_is_static := s, hh := h\<rparr>"
proof -
  from assms(1) obtain tbl where
    ins: "hash_insert (alloc_hash cp) (hash_ptr cfg (buf_addr bc) (nr_hash_bits (hh cp))) bc = Inr tbl"
    and res: "try_hash_resize cfg e
          (cp\<lparr>alloc_hash := tbl, hh := (hh cp)\<lparr>nr_items := nr_items (hh cp) + 1\<rparr>\<rparr>) = Inr (cp', evs)"
    by (auto simp: track_alloc_def split: sum.splits)
  let ?cp1 = "cp\<lparr>alloc_hash := tbl, hh := (hh cp)\<lparr>nr_items := nr_items (hh cp) + 1\<rparr>\<rparr>"
  have len: "nr_hash_lists (hh ?cp1) = length (alloc_hash ?cp1)"
    using hash_insert_Inr [OF ins] assms(3) by simp
  from try_hash_resize_Inr [OF res assms(2) len] hash_insert_Inr [OF ins]
  show "mset (hash_bufctls cp') = add_mset bc (mset (hash_bufctls cp))"
    and "nr_hash_lists (hh cp') = length (alloc_hash cp')"
    and "\<exists>t s h. cp' = cp\<lparr>alloc_hash := t, alloc_hash_is_static := s, hh := h\<rparr>"
    by (auto simp: hash_bufctls_def)
qed

lemma mset_concat_remove1:
  "idx < length tbl \<Longrightarrow> x \<in> set (tbl ! idx) \<Longrightarrow>
     mset (concat (tbl[idx := remove1 x (tbl ! idx)])) = mset (concat tbl) - {#x#}"
proof (induction tbl arbitrary: idx)
  case Nil
  then show ?case by simp
next
  case (Cons a tbl)
  show ?case
  proof (cases idx)
    case 0
    with Cons.prems show ?thesis by simp
  next
    case (Suc j)
    with Cons.prems have j: "j < length tbl" "x \<in> set (tbl ! j)" by simp_all
    then have "x \<in># mset (concat tbl)" by (auto intro: nth_mem)
    then have "mset a + mset (concat tbl) - {#x#} = mset a + (mset (concat tbl) - {#x#})"
      by (rule diff_union_single_conv)
    with Cons.IH [OF j] Suc show ?thesis by simp
  qed
qed

lemma yank_bufctl_Inr:
  assumes "yank_bufctl cfg cp buf = Inr (bc, cp')"
  shows "buf_addr bc = buf" and "bc \<in> set (hash_bufctls cp)"
    and "mset (hash_bufctls cp') = mset (hash_bufctls cp) - {#bc#}"
    and "length (alloc_hash cp') = length (alloc_hash cp)"
    and "\<exists>t. cp' = cp\<lparr>alloc_hash := t\<rparr>"
proof -
  let ?i = "hash_ptr cfg buf (nr_hash_bits (hh cp))"
  from assms have i: "?i < length (alloc_hash cp)"
    and f: "find (\<lambda>bc_i. buf_addr bc_i = buf) (alloc_hash cp ! ?i) = Some bc"
    and cp': "cp' = cp\<lparr>alloc_hash := (alloc_hash cp)[?i := remove1 bc (alloc_hash cp ! ?i)]\<rparr>"
    by (auto simp: yank_bufctl_def Let_def split: if_splits option.splits)
  from f have b: "buf_addr bc = buf" and m: "bc \<in> set (alloc_hash cp ! ?i)"
    by (auto simp: find_Some_iff)
  show "buf_addr bc = buf" by (rule b)
  show "bc \<in> set (hash_bufctls cp)"
    using i m by (auto simp: hash_bufctls_def intro: nth_mem)
  show "mset (hash_bufctls cp') = mset (hash_bufctls cp) - {#bc#}"
    using i m by (simp add: cp' hash_bufctls_def mset_concat_remove1)
  show "length (alloc_hash cp') = length (alloc_hash cp)"
    by (simp add: cp')
  show "\<exists>t. cp' = cp\<lparr>alloc_hash := t\<rparr>"
    using cp' by blast
qed

subsection \<open>Growing the cache and picking a slab\<close>

lemma small_freelist_ge: "x \<in> set (small_freelist n buf sz) \<Longrightarrow> buf \<le> x"
  by (induction n buf sz rule: small_freelist.induct) auto

lemma bufctl_freelist_init_set:
  "set (bufctl_freelist_init n buf sz a l) =
     set l \<union> (\<lambda>i. \<lparr>buf_addr = buf + i * sz, my_slab = a\<rparr>) ` {..<n}"
proof (induction n buf sz a l rule: bufctl_freelist_init.induct)
  case (1 buf sz a_slab l)
  then show ?case by simp
next
  case (2 n buf sz a_slab l)
  have "(\<lambda>i. \<lparr>buf_addr = buf + i * sz, my_slab = a_slab\<rparr>) ` {..<Suc n} =
        insert \<lparr>buf_addr = buf, my_slab = a_slab\<rparr>
          ((\<lambda>i. \<lparr>buf_addr = buf + sz + i * sz, my_slab = a_slab\<rparr>) ` {..<n})"
    by (auto simp: lessThan_Suc_eq_insert_0 image_image add.assoc)
  with 2 show ?case by auto
qed

lemma nonnull_upd:
  assumes "nonnull cp" and "slabs cp' = (slabs cp)(a \<mapsto> s)"
    and "NULL \<notin> set (free_small_obj s)" and "NULL \<notin> buf_addr ` set (bufctl_freelist s)"
  shows "nonnull cp'"
  using assms unfolding nonnull_def by (auto split: if_splits)

lemma nonnull_same: "nonnull cp \<Longrightarrow> slabs cp' = slabs cp \<Longrightarrow> nonnull cp'"
  by (simp add: nonnull_def)

lemma nonnullD:
  "nonnull cp \<Longrightarrow> slabs cp a = Some s \<Longrightarrow>
     NULL \<notin> set (free_small_obj s) \<and> NULL \<notin> buf_addr ` set (bufctl_freelist s)"
  by (simp add: nonnull_def)

lemma kmem_cache_grow_cases:
  assumes "kmem_cache_grow cfg e cp = Inr (g, cp', evs)"
  shows "(\<not> g \<and> cp' = cp)
    \<or> (g \<and> \<not> use_bufctls cp \<and> arena_alloc e \<noteq> NULL \<and> obj_size cp \<noteq> 0
        \<and> (PGSIZE cfg - sizeof_kmem_slab cfg) div obj_size cp \<noteq> 0 \<and> evs = []
        \<and> cp' = cp\<lparr>slabs := (slabs cp)(arena_alloc e + PGSIZE cfg - sizeof_kmem_slab cfg \<mapsto>
                       \<lparr>num_busy_obj = 0,
                        num_total_obj = of_nat ((PGSIZE cfg - sizeof_kmem_slab cfg) div obj_size cp),
                        free_small_obj = small_freelist ((PGSIZE cfg - sizeof_kmem_slab cfg) div obj_size cp - 1)
                                           (arena_alloc e) (obj_size cp),
                        bufctl_freelist = []\<rparr>),
                    empty_slab_list := (arena_alloc e + PGSIZE cfg - sizeof_kmem_slab cfg) # empty_slab_list cp\<rparr>)
    \<or> (g \<and> use_bufctls cp \<and> arena_alloc e \<noteq> NULL \<and> slab_alloc e \<noteq> NULL \<and> obj_size cp \<noteq> 0
        \<and> evs = []
        \<and> cp' = cp\<lparr>slabs := (slabs cp)(slab_alloc e \<mapsto>
                       \<lparr>num_busy_obj = 0, num_total_obj = of_nat (import_amt cp div obj_size cp),
                        free_small_obj = [],
                        bufctl_freelist = bufctl_freelist_init (import_amt cp div obj_size cp)
                                            (arena_alloc e) (obj_size cp) (slab_alloc e) []\<rparr>),
                    empty_slab_list := slab_alloc e # empty_slab_list cp\<rparr>)"
  using assms unfolding kmem_cache_grow_def Let_def
  by (simp split: if_splits)

lemma kmem_cache_grow_Inr:
  assumes "kmem_cache_grow cfg e cp = Inr (g, cp', evs)" and "nonnull cp"
  shows "nonnull cp' \<and> same_frame cp cp' \<and> alloc_hash cp' = alloc_hash cp \<and> hh cp' = hh cp
         \<and> nr_cur_alloc cp' = nr_cur_alloc cp"
  using kmem_cache_grow_cases [OF assms(1)]
proof (elim disjE conjE)
  assume "cp' = cp"
  with assms show ?thesis by (simp add: same_frame_def)
next
  assume nn: "arena_alloc e \<noteq> NULL"
    and cp': "cp' = cp\<lparr>slabs := (slabs cp)(arena_alloc e + PGSIZE cfg - sizeof_kmem_slab cfg \<mapsto>
                       \<lparr>num_busy_obj = 0,
                        num_total_obj = of_nat ((PGSIZE cfg - sizeof_kmem_slab cfg) div obj_size cp),
                        free_small_obj = small_freelist ((PGSIZE cfg - sizeof_kmem_slab cfg) div obj_size cp - 1)
                                           (arena_alloc e) (obj_size cp),
                        bufctl_freelist = []\<rparr>),
                    empty_slab_list := (arena_alloc e + PGSIZE cfg - sizeof_kmem_slab cfg) # empty_slab_list cp\<rparr>"
  have "nonnull cp'"
    using assms(2)
  proof (rule nonnull_upd)
    show "slabs cp' = (slabs cp)(arena_alloc e + PGSIZE cfg - sizeof_kmem_slab cfg \<mapsto>
                       \<lparr>num_busy_obj = 0,
                        num_total_obj = of_nat ((PGSIZE cfg - sizeof_kmem_slab cfg) div obj_size cp),
                        free_small_obj = small_freelist ((PGSIZE cfg - sizeof_kmem_slab cfg) div obj_size cp - 1)
                                           (arena_alloc e) (obj_size cp),
                        bufctl_freelist = []\<rparr>)"
      by (simp add: cp')
  qed (use nn in \<open>auto simp: NULL_def dest: small_freelist_ge\<close>)
  then show ?thesis by (simp add: cp' same_frame_def)
next
  assume nn: "arena_alloc e \<noteq> NULL"
    and cp': "cp' = cp\<lparr>slabs := (slabs cp)(slab_alloc e \<mapsto>
                       \<lparr>num_busy_obj = 0, num_total_obj = of_nat (import_amt cp div obj_size cp),
                        free_small_obj = [],
                        bufctl_freelist = bufctl_freelist_init (import_amt cp div obj_size cp)
                                            (arena_alloc e) (obj_size cp) (slab_alloc e) []\<rparr>),
                    empty_slab_list := slab_alloc e # empty_slab_list cp\<rparr>"
  have "nonnull cp'"
    using assms(2)
  proof (rule nonnull_upd)
    show "slabs cp' = (slabs cp)(slab_alloc e \<mapsto>
                       \<lparr>num_busy_obj = 0, num_total_obj = of_nat (import_amt cp div obj_size cp),
                        free_small_obj = [],
                        bufctl_freelist = bufctl_freelist_init (import_amt cp div obj_size cp)
                                            (arena_alloc e) (obj_size cp) (slab_alloc e) []\<rparr>)"
      by (simp add: cp')
  qed (use nn in \<open>auto simp: NULL_def bufctl_freelist_init_set\<close>)
  then show ?thesis by (simp add: cp' same_frame_def)
qed

lemma alloc_pick_slab_cases:
  assumes "alloc_pick_slab cfg e cp fl = Inr (a, cp1, evs)"
  shows "(\<exists>rest. partial_slab_list cp = a # rest \<and> cp1 = cp \<and> evs = [])
    \<or> (\<exists>cp0 rest. partial_slab_list cp = []
          \<and> (if empty_slab_list cp = [] then kmem_cache_grow cfg e cp = Inr (True, cp0, evs)
              else cp0 = cp \<and> evs = [])
          \<and> empty_slab_list cp0 = a # rest
          \<and> cp1 = cp0\<lparr>empty_slab_list := rest, partial_slab_list := a # partial_slab_list cp0\<rparr>)"
  using assms unfolding alloc_pick_slab_def
  by (simp split: list.splits sum.splits if_splits prod.splits)

lemma alloc_pick_slab_Inr:
  assumes "alloc_pick_slab cfg e cp fl = Inr (a, cp1, evs)" and "nonnull cp"
  shows "nonnull cp1 \<and> same_frame cp cp1 \<and> alloc_hash cp1 = alloc_hash cp \<and> hh cp1 = hh cp
         \<and> nr_cur_alloc cp1 = nr_cur_alloc cp"
  using alloc_pick_slab_cases [OF assms(1)]
proof (elim disjE exE conjE)
  fix rest assume "cp1 = cp"
  with assms show ?thesis by (simp add: same_frame_def)
next
  fix cp0 rest
  assume g: "if empty_slab_list cp = [] then kmem_cache_grow cfg e cp = Inr (True, cp0, evs)
              else cp0 = cp \<and> evs = []"
    and cp1: "cp1 = cp0\<lparr>empty_slab_list := rest, partial_slab_list := a # partial_slab_list cp0\<rparr>"
  have "nonnull cp0 \<and> same_frame cp cp0 \<and> alloc_hash cp0 = alloc_hash cp \<and> hh cp0 = hh cp
         \<and> nr_cur_alloc cp0 = nr_cur_alloc cp"
  proof (cases "empty_slab_list cp = []")
    case True
    with g have "kmem_cache_grow cfg e cp = Inr (True, cp0, evs)" by simp
    from kmem_cache_grow_Inr [OF this assms(2)] show ?thesis .
  next
    case False
    with g assms(2) show ?thesis by (simp add: same_frame_def)
  qed
  then show ?thesis
    by (auto simp: cp1 same_frame_def intro: nonnull_same)
qed

subsection \<open>Taking an object from a slab and giving it back\<close>

lemma alloc_take_obj_cases:
  assumes "alloc_take_obj cfg e cp a = Inr (retval, cp2, evs)"
  shows "\<exists>s. slabs cp a = Some s \<and>
     ((\<not> use_bufctls cp \<and> (\<exists>rest. free_small_obj s = retval # rest \<and> evs = []
          \<and> cp2 = cp\<lparr>slabs := (slabs cp)(a \<mapsto> s\<lparr>free_small_obj := rest\<rparr>)\<rparr>))
      \<or> (use_bufctls cp \<and> (\<exists>a_bufctl rest. bufctl_freelist s = a_bufctl # rest
          \<and> retval = buf_addr a_bufctl
          \<and> track_alloc cfg e (cp\<lparr>slabs := (slabs cp)(a \<mapsto> s\<lparr>bufctl_freelist := rest\<rparr>)\<rparr>) a_bufctl
              = Inr (cp2, evs))))"
  using assms unfolding alloc_take_obj_def
  by (simp split: option.splits list.splits sum.splits if_splits prod.splits)

lemma alloc_take_obj_Inr:
  assumes t: "alloc_take_obj cfg e cp a = Inr (retval, cp2, evs)" and nn: "nonnull cp"
    and cfg: "config_ok cfg" and len: "nr_hash_lists (hh cp) = length (alloc_hash cp)"
  shows "retval \<noteq> NULL \<and> nonnull cp2 \<and> same_frame cp cp2 \<and> nr_cur_alloc cp2 = nr_cur_alloc cp
     \<and> nr_hash_lists (hh cp2) = length (alloc_hash cp2)
     \<and> (if use_bufctls cp
         then mset (map buf_addr (hash_bufctls cp2)) = add_mset retval (mset (map buf_addr (hash_bufctls cp)))
         else hash_bufctls cp2 = hash_bufctls cp)"
proof -
  from alloc_take_obj_cases [OF t] obtain s where s: "slabs cp a = Some s"
    and c: "(\<not> use_bufctls cp \<and> (\<exists>rest. free_small_obj s = retval # rest \<and> evs = []
          \<and> cp2 = cp\<lparr>slabs := (slabs cp)(a \<mapsto> s\<lparr>free_small_obj := rest\<rparr>)\<rparr>))
      \<or> (use_bufctls cp \<and> (\<exists>a_bufctl rest. bufctl_freelist s = a_bufctl # rest
          \<and> retval = buf_addr a_bufctl
          \<and> track_alloc cfg e (cp\<lparr>slabs := (slabs cp)(a \<mapsto> s\<lparr>bufctl_freelist := rest\<rparr>)\<rparr>) a_bufctl
              = Inr (cp2, evs)))"
    by blast
  note sn = nonnullD [OF nn s]
  from c show ?thesis
  proof (elim disjE conjE exE)
    fix rest
    assume nb: "\<not> use_bufctls cp" and fl: "free_small_obj s = retval # rest"
      and cp2: "cp2 = cp\<lparr>slabs := (slabs cp)(a \<mapsto> s\<lparr>free_small_obj := rest\<rparr>)\<rparr>"
    have "nonnull cp2"
      using nn by (rule nonnull_upd [where a = a and s = "s\<lparr>free_small_obj := rest\<rparr>"])
        (use sn fl in \<open>auto simp: cp2\<close>)
    with nb sn fl len show ?thesis
      by (auto simp: cp2 same_frame_def hash_bufctls_def)
  next
    fix a_bufctl rest
    assume ub: "use_bufctls cp" and fl: "bufctl_freelist s = a_bufctl # rest"
      and rv: "retval = buf_addr a_bufctl"
      and tr: "track_alloc cfg e (cp\<lparr>slabs := (slabs cp)(a \<mapsto> s\<lparr>bufctl_freelist := rest\<rparr>)\<rparr>) a_bufctl
              = Inr (cp2, evs)"
    let ?cp1 = "cp\<lparr>slabs := (slabs cp)(a \<mapsto> s\<lparr>bufctl_freelist := rest\<rparr>)\<rparr>"
    have nn1: "nonnull ?cp1"
      using nn by (rule nonnull_upd [where a = a and s = "s\<lparr>bufctl_freelist := rest\<rparr>"])
        (use sn fl in auto)
    have len1: "nr_hash_lists (hh ?cp1) = length (alloc_hash ?cp1)"
      using len by simp
    from track_alloc_Inr [OF tr cfg len1] obtain t st h where
      m: "mset (hash_bufctls cp2) = add_mset a_bufctl (mset (hash_bufctls ?cp1))"
      and l2: "nr_hash_lists (hh cp2) = length (alloc_hash cp2)"
      and cp2: "cp2 = ?cp1\<lparr>alloc_hash := t, alloc_hash_is_static := st, hh := h\<rparr>"
      by blast
    have "nonnull cp2"
      using nn1 by (rule nonnull_same) (simp add: cp2)
    moreover have "image_mset buf_addr (mset (hash_bufctls cp2))
                     = image_mset buf_addr (add_mset a_bufctl (mset (hash_bufctls ?cp1)))"
      using m by (simp only:)
    then have "mset (map buf_addr (hash_bufctls cp2)) = add_mset retval (mset (map buf_addr (hash_bufctls cp)))"
      by (simp add: rv hash_bufctls_def)
    moreover have "retval \<noteq> NULL"
      using sn fl rv by auto
    moreover have "same_frame cp cp2 \<and> nr_cur_alloc cp2 = nr_cur_alloc cp"
      by (subst cp2, subst cp2) (simp add: same_frame_def)
    ultimately show ?thesis using ub l2 by simp
  qed
qed

lemma alloc_account_cases:
  assumes "alloc_account cp a = Inr cp3"
  shows "\<exists>s. slabs cp a = Some s \<and>
     ((num_busy_obj s + 1 = num_total_obj s \<and> a \<in> set (partial_slab_list cp)
        \<and> cp3 = cp\<lparr>slabs := (slabs cp)(a \<mapsto> s\<lparr>num_busy_obj := num_busy_obj s + 1\<rparr>),
                   partial_slab_list := remove1 a (partial_slab_list cp),
                   full_slab_list := a # full_slab_list cp,
                   nr_cur_alloc := nr_cur_alloc cp + 1\<rparr>)
      \<or> (num_busy_obj s + 1 \<noteq> num_total_obj s
        \<and> cp3 = cp\<lparr>slabs := (slabs cp)(a \<mapsto> s\<lparr>num_busy_obj := num_busy_obj s + 1\<rparr>),
                   nr_cur_alloc := nr_cur_alloc cp + 1\<rparr>))"
  using assms unfolding alloc_account_def tailq_remove_def Let_def
  by (auto split: option.splits sum.splits if_splits)

lemma alloc_account_Inr:
  assumes t: "alloc_account cp a = Inr cp3" and nn: "nonnull cp"
  shows "nonnull cp3 \<and> same_frame cp cp3 \<and> alloc_hash cp3 = alloc_hash cp \<and> hh cp3 = hh cp
         \<and> nr_cur_alloc cp3 = nr_cur_alloc cp + 1"
proof -
  from alloc_account_cases [OF t] obtain s where s: "slabs cp a = Some s"
    and c: "slabs cp3 = (slabs cp)(a \<mapsto> s\<lparr>num_busy_obj := num_busy_obj s + 1\<rparr>)"
      "same_frame cp cp3 \<and> alloc_hash cp3 = alloc_hash cp \<and> hh cp3 = hh cp
         \<and> nr_cur_alloc cp3 = nr_cur_alloc cp + 1"
    by (auto simp: same_frame_def)
  have "nonnull cp3"
    using nn c(1) by (rule nonnull_upd) (use nonnullD [OF nn s] in auto)
  with c(2) show ?thesis by simp
qed

lemma kmem_free_to_slab_cases:
  assumes "kmem_free_to_slab cfg cp buf = Inr cp'"
  shows "\<exists>cp1 a s s1.
     ((\<not> use_bufctls cp \<and> cp1 = cp \<and> a = ROUNDDOWN buf (PGSIZE cfg) + PGSIZE cfg - sizeof_kmem_slab cfg
        \<and> slabs cp a = Some s
        \<and> s1 = s\<lparr>free_small_obj := buf # free_small_obj s, num_busy_obj := num_busy_obj s - 1\<rparr>)
      \<or> (use_bufctls cp \<and> (\<exists>a_bufctl. yank_bufctl cfg cp buf = Inr (a_bufctl, cp1) \<and> a = my_slab a_bufctl
        \<and> slabs cp1 a = Some s
        \<and> s1 = s\<lparr>bufctl_freelist := a_bufctl # bufctl_freelist s, num_busy_obj := num_busy_obj s - 1\<rparr>)))
     \<and> ((num_busy_obj s1 + 1 = num_total_obj s1 \<and> a \<in> set (full_slab_list cp1)
          \<and> cp' = cp1\<lparr>slabs := (slabs cp1)(a \<mapsto> s1), nr_cur_alloc := nr_cur_alloc cp1 - 1,
                        full_slab_list := remove1 a (full_slab_list cp1),
                        partial_slab_list := a # partial_slab_list cp1\<rparr>)
        \<or> (num_busy_obj s1 + 1 \<noteq> num_total_obj s1 \<and> num_busy_obj s1 = 0 \<and> a \<in> set (partial_slab_list cp1)
          \<and> cp' = cp1\<lparr>slabs := (slabs cp1)(a \<mapsto> s1), nr_cur_alloc := nr_cur_alloc cp1 - 1,
                        partial_slab_list := remove1 a (partial_slab_list cp1),
                        empty_slab_list := a # empty_slab_list cp1\<rparr>)
        \<or> (num_busy_obj s1 + 1 \<noteq> num_total_obj s1 \<and> num_busy_obj s1 \<noteq> 0
          \<and> cp' = cp1\<lparr>slabs := (slabs cp1)(a \<mapsto> s1), nr_cur_alloc := nr_cur_alloc cp1 - 1\<rparr>))"
  using assms unfolding kmem_free_to_slab_def tailq_remove_def Let_def
  by (simp split: option.splits sum.splits if_splits prod.splits)


lemma kmem_free_to_slab_Inr:
  assumes t: "kmem_free_to_slab cfg cp buf = Inr cp'" and nn: "nonnull cp" and b: "buf \<noteq> NULL"
  shows "nonnull cp' \<and> same_frame cp cp' \<and> hh cp' = hh cp
     \<and> length (alloc_hash cp') = length (alloc_hash cp)
     \<and> nr_cur_alloc cp' = nr_cur_alloc cp - 1
     \<and> (if use_bufctls cp
         then add_mset buf (mset (map buf_addr (hash_bufctls cp'))) = mset (map buf_addr (hash_bufctls cp))
         else hash_bufctls cp' = hash_bufctls cp)"
proof -
  from kmem_free_to_slab_cases [OF t] obtain cp1 a s s1 where
    c1: "(\<not> use_bufctls cp \<and> cp1 = cp \<and> slabs cp a = Some s
        \<and> s1 = s\<lparr>free_small_obj := buf # free_small_obj s, num_busy_obj := num_busy_obj s - 1\<rparr>)
      \<or> (use_bufctls cp \<and> (\<exists>a_bufctl. yank_bufctl cfg cp buf = Inr (a_bufctl, cp1) \<and> a = my_slab a_bufctl
        \<and> slabs cp1 a = Some s
        \<and> s1 = s\<lparr>bufctl_freelist := a_bufctl # bufctl_freelist s, num_busy_obj := num_busy_obj s - 1\<rparr>))"
    and c2: "slabs cp' = (slabs cp1)(a \<mapsto> s1)" "same_frame cp1 cp'" "hh cp' = hh cp1"
      "alloc_hash cp' = alloc_hash cp1" "nr_cur_alloc cp' = nr_cur_alloc cp1 - 1"
    by (fastforce simp: same_frame_def)
  from c1 show ?thesis
  proof (elim disjE conjE exE)
    assume nb: "\<not> use_bufctls cp" and cp1: "cp1 = cp" and s: "slabs cp a = Some s"
      and s1: "s1 = s\<lparr>free_small_obj := buf # free_small_obj s, num_busy_obj := num_busy_obj s - 1\<rparr>"
    have "nonnull cp'"
      using nn by (rule nonnull_upd [where a = a and s = s1])
        (use nonnullD [OF nn s] b c2(1) in \<open>auto simp: cp1 s1\<close>)
    with nb c2 show ?thesis by (simp add: cp1 hash_bufctls_def)
  next
    fix a_bufctl
    assume ub: "use_bufctls cp" and y: "yank_bufctl cfg cp buf = Inr (a_bufctl, cp1)"
      and s: "slabs cp1 a = Some s"
      and s1: "s1 = s\<lparr>bufctl_freelist := a_bufctl # bufctl_freelist s, num_busy_obj := num_busy_obj s - 1\<rparr>"
    from yank_bufctl_Inr [OF y] obtain t where
      ba: "buf_addr a_bufctl = buf" and mem: "a_bufctl \<in> set (hash_bufctls cp)"
      and m: "mset (hash_bufctls cp1) = mset (hash_bufctls cp) - {#a_bufctl#}"
      and l: "length (alloc_hash cp1) = length (alloc_hash cp)"
      and cp1: "cp1 = cp\<lparr>alloc_hash := t\<rparr>"
      by blast
    have nn1: "nonnull cp1"
      using nn by (rule nonnull_same) (simp add: cp1)
    have "nonnull cp'"
      using nn1 by (rule nonnull_upd [where a = a and s = s1])
        (use nonnullD [OF nn1 s] b c2(1) ba in \<open>auto simp: s1\<close>)
    moreover have "add_mset a_bufctl (mset (hash_bufctls cp1)) = mset (hash_bufctls cp)"
      using m mem by simp
    then have "image_mset buf_addr (add_mset a_bufctl (mset (hash_bufctls cp1)))
                 = image_mset buf_addr (mset (hash_bufctls cp))"
      by (simp only:)
    then have "add_mset buf (mset (map buf_addr (hash_bufctls cp1))) = mset (map buf_addr (hash_bufctls cp))"
      by (simp add: ba)
    moreover have "same_frame cp cp1 \<and> hh cp1 = hh cp \<and> nr_cur_alloc cp1 = nr_cur_alloc cp"
      by (subst cp1, subst cp1, subst cp1) (simp add: same_frame_def)
    ultimately show ?thesis
      using ub c2 l by (simp add: same_frame_def hash_bufctls_def)
  qed
qed

lemma kmem_alloc_from_slab_cases:
  assumes "kmem_alloc_from_slab cfg e cp fl = Inr (ret, cp', evs)"
  shows "\<exists>a cp1 evs1 retval cp2 evs2 cp3.
     alloc_pick_slab cfg e cp fl = Inr (a, cp1, evs1)
     \<and> alloc_take_obj cfg e cp1 a = Inr (retval, cp2, evs2)
     \<and> alloc_account cp2 a = Inr cp3
     \<and> ((ret = retval \<and> cp' = cp3 \<and> (\<forall>c. ctor cp3 = Some c \<longrightarrow> c retval fl = 0))
        \<or> (ret = NULL \<and> (\<exists>c. ctor cp3 = Some c \<and> c retval fl \<noteq> 0)
            \<and> kmem_free_to_slab cfg cp3 retval = Inr cp'))"
  using assms unfolding kmem_alloc_from_slab_def
  by (simp split: option.splits sum.splits if_splits prod.splits)

lemma kmem_alloc_from_slab_Inr:
  assumes t: "kmem_alloc_from_slab cfg e cp fl = Inr (ret, cp', evs)" and nn: "nonnull cp"
    and cfg: "config_ok cfg" and len: "nr_hash_lists (hh cp) = length (alloc_hash cp)"
  shows "nonnull cp' \<and> same_frame cp cp' \<and> nr_hash_lists (hh cp') = length (alloc_hash cp')
     \<and> nr_cur_alloc cp' = nr_cur_alloc cp + (if ret = NULL then 0 else 1)
     \<and> (if use_bufctls cp
         then mset (map buf_addr (hash_bufctls cp'))
              = (if ret = NULL then {#} else {#ret#}) + mset (map buf_addr (hash_bufctls cp))
         else hash_bufctls cp' = hash_bufctls cp)"
proof -
  from kmem_alloc_from_slab_cases [OF t] obtain a cp1 evs1 retval cp2 evs2 cp3 where
    p: "alloc_pick_slab cfg e cp fl = Inr (a, cp1, evs1)"
    and tk: "alloc_take_obj cfg e cp1 a = Inr (retval, cp2, evs2)"
    and ac: "alloc_account cp2 a = Inr cp3"
    and c: "(ret = retval \<and> cp' = cp3)
        \<or> (ret = NULL \<and> kmem_free_to_slab cfg cp3 retval = Inr cp')"
    by blast
  note P = alloc_pick_slab_Inr [OF p nn]
  have len1: "nr_hash_lists (hh cp1) = length (alloc_hash cp1)"
    using P len by simp
  have nn1: "nonnull cp1" using P by simp
  note T = alloc_take_obj_Inr [OF tk nn1 cfg len1]
  have nn2: "nonnull cp2" and rv: "retval \<noteq> NULL" using T by simp_all
  note A = alloc_account_Inr [OF ac nn2]
  have ub: "use_bufctls cp1 = use_bufctls cp" "use_bufctls cp3 = use_bufctls cp"
    using P T A by (simp_all add: use_bufctls_def same_frame_def)
  have hb: "hash_bufctls cp1 = hash_bufctls cp" "hash_bufctls cp3 = hash_bufctls cp2"
    using P A by (simp_all add: hash_bufctls_def)
  from c show ?thesis
  proof (elim disjE conjE)
    assume "ret = retval" "cp' = cp3"
    with P T A rv ub hb show ?thesis
      by (auto simp: same_frame_def)
  next
    assume r: "ret = NULL" and f: "kmem_free_to_slab cfg cp3 retval = Inr cp'"
    have nn3: "nonnull cp3" using A by simp
    note F = kmem_free_to_slab_Inr [OF f nn3 rv]
    show ?thesis
    proof (cases "use_bufctls cp")
      case True
      with F ub have "add_mset retval (mset (map buf_addr (hash_bufctls cp'))) = mset (map buf_addr (hash_bufctls cp3))"
        by simp
      also have "\<dots> = add_mset retval (mset (map buf_addr (hash_bufctls cp)))"
        using T ub hb True by simp
      finally have "mset (map buf_addr (hash_bufctls cp')) = mset (map buf_addr (hash_bufctls cp))"
        by simp
      with P T A F r True show ?thesis
        by (auto simp: same_frame_def)
    next
      case False
      with P T A F r ub hb show ?thesis
        by (auto simp: same_frame_def)
    qed
  qed
qed

subsection \<open>Magazines\<close>

lemma sum_list_map_update:
  fixes f :: "'a \<Rightarrow> 'b multiset"
  shows "i < length xs \<Longrightarrow> sum_list (map f (xs[i := x])) + f (xs ! i) = sum_list (map f xs) + f x"
  by (induction xs arbitrary: i) (auto split: nat.splits simp: ac_simps)

lemma live_push:
  assumes "nr_rounds m < length (rounds m)"
  shows "live (m\<lparr>rounds := (rounds m)[nr_rounds m := buf], nr_rounds := nr_rounds m + 1\<rparr>)
           = add_mset buf (live m)"
  using assms by (simp add: live_def take_Suc_conv_app_nth)

lemma live_pop:
  assumes "nr_rounds m \<noteq> 0" "nr_rounds m \<le> length (rounds m)"
  shows "live m = add_mset (rounds m ! (nr_rounds m - 1)) (live (m\<lparr>nr_rounds := nr_rounds m - 1\<rparr>))"
proof -
  obtain k where k: "nr_rounds m = Suc k" using assms(1) by (cases "nr_rounds m") auto
  with assms(2) have "k < length (rounds m)" by simp
  then show ?thesis by (simp add: live_def k take_Suc_conv_app_nth)
qed

lemma mag_wf_push:
  assumes "mag_wf cfg m" "nr_rounds m < KMC_MAG_MAX_SZ cfg" "buf \<noteq> NULL"
  shows "mag_wf cfg (m\<lparr>rounds := (rounds m)[nr_rounds m := buf], nr_rounds := nr_rounds m + 1\<rparr>)"
  using assms by (auto simp: mag_wf_def take_Suc_conv_app_nth)

lemma mag_wf_pop:
  assumes "mag_wf cfg m"
  shows "mag_wf cfg (m\<lparr>nr_rounds := nr_rounds m - 1\<rparr>)"
  using assms set_take_subset_set_take [of "nr_rounds m - 1" "nr_rounds m" "rounds m"]
  by (auto simp: mag_wf_def)

lemma mag_wf_top:
  assumes "mag_wf cfg m" "nr_rounds m \<noteq> 0"
  shows "rounds m ! (nr_rounds m - 1) \<noteq> NULL"
proof -
  have "rounds m ! (nr_rounds m - 1) \<in> set (take (nr_rounds m) (rounds m))"
    using assms by (auto simp: mag_wf_def in_set_conv_nth intro!: exI [of _ "nr_rounds m - 1"])
  with assms(1) show ?thesis by (auto simp: mag_wf_def)
qed

lemma same_back_iff: "same_back kc kc' \<longleftrightarrow> (\<exists>d p. kc' = kc\<lparr>depot := d, pcpu_caches := p\<rparr>)"
proof
  assume "same_back kc kc'"
  then show "\<exists>d p. kc' = kc\<lparr>depot := d, pcpu_caches := p\<rparr>"
    unfolding same_back_def by blast
next
  assume "\<exists>d p. kc' = kc\<lparr>depot := d, pcpu_caches := p\<rparr>"
  then obtain d p where "kc' = kc\<lparr>depot := d, pcpu_caches := p\<rparr>" by blast
  then show "same_back kc kc'" by (simp add: same_back_def)
qed

lemma same_back_refl: "same_back kc kc"
  by (simp add: same_back_def)

lemma same_back_trans:
  assumes "same_back kc kc1" and "same_back kc1 kc2"
  shows "same_back kc kc2"
proof -
  from assms(1) obtain d p where 1: "kc1 = kc\<lparr>depot := d, pcpu_caches := p\<rparr>"
    unfolding same_back_iff by blast
  from assms(2) obtain d' p' where 2: "kc2 = kc1\<lparr>depot := d', pcpu_caches := p'\<rparr>"
    unfolding same_back_iff by blast
  show ?thesis unfolding same_back_iff by (rule exI [of _ d'], rule exI [of _ p']) (simp add: 1 2)
qed

subsection \<open>The depot and one step of the front end\<close>

lemma front_step:
  assumes fi: "front_inv cfg kc" and cpu: "cpu < length (pcpu_caches kc)"
    and kc': "depot kc' = d'" "pcpu_caches kc' = (pcpu_caches kc)[cpu := pcc']" "same_back kc kc'"
    and wf: "mag_wf cfg (loaded pcc')" "mag_wf cfg (prev pcc')" "magsize pcc' \<le> KMC_MAG_MAX_SZ cfg"
    and d: "\<forall>m \<in> set (not_empty d') \<union> set (empty d'). mag_wf cfg m" "depot_magsize d' \<le> KMC_MAG_MAX_SZ cfg"
    and bal: "live (loaded pcc') + live (prev pcc') + dsum d' + X
              = live (loaded (pcpu_caches kc ! cpu)) + live (prev (pcpu_caches kc ! cpu)) + dsum (depot kc) + Y"
  shows "front_inv cfg kc' \<and> same_back kc kc' \<and> cached_objs kc' + X = cached_objs kc + Y"
proof -
  let ?f = "\<lambda>pcc. live (loaded pcc) + live (prev pcc)"
  have fi': "front_inv cfg kc'"
    using fi wf d kc'(1,2) unfolding front_inv_def
    by (auto dest!: set_update_subset_insert [THEN subsetD])
  have "cached_objs kc' + X + ?f (pcpu_caches kc ! cpu)
        = (sum_list (map ?f ((pcpu_caches kc)[cpu := pcc'])) + ?f (pcpu_caches kc ! cpu)) + dsum d' + X"
    by (simp add: cached_objs_def dsum_def kc' ac_simps)
  also have "\<dots> = sum_list (map ?f (pcpu_caches kc)) + (?f pcc' + dsum d' + X)"
    using sum_list_map_update [OF cpu, of ?f pcc'] by (simp add: ac_simps)
  also have "?f pcc' + dsum d' + X = ?f (pcpu_caches kc ! cpu) + dsum (depot kc) + Y"
    using bal by (simp add: ac_simps)
  also have "sum_list (map ?f (pcpu_caches kc)) + (?f (pcpu_caches kc ! cpu) + dsum (depot kc) + Y)
             = cached_objs kc + Y + ?f (pcpu_caches kc ! cpu)"
    by (simp add: cached_objs_def dsum_def ac_simps)
  finally have "cached_objs kc' + X = cached_objs kc + Y"
    by simp
  with fi' kc'(3) show ?thesis by simp
qed

lemma front_invD:
  assumes "front_inv cfg kc" "cpu < length (pcpu_caches kc)"
  shows "mag_wf cfg (loaded (pcpu_caches kc ! cpu))" "mag_wf cfg (prev (pcpu_caches kc ! cpu))"
    "magsize (pcpu_caches kc ! cpu) \<le> KMC_MAG_MAX_SZ cfg"
    "\<forall>m \<in> set (not_empty (depot kc)) \<union> set (empty (depot kc)). mag_wf cfg m"
    "depot_magsize (depot kc) \<le> KMC_MAG_MAX_SZ cfg"
  using assms unfolding front_inv_def by (auto dest: nth_mem)

lemma lock_depot_magsize_le:
  "depot_magsize d \<le> KMC_MAG_MAX_SZ cfg \<Longrightarrow> depot_magsize (lock_depot cfg c d) \<le> KMC_MAG_MAX_SZ cfg"
  by (auto simp: lock_depot_def Let_def split: option.splits)

lemma dsum_lock_depot: "dsum (lock_depot cfg c d) = dsum d"
  by (simp add: dsum_def lock_depot_lists)

lemma dsum_return:
  "dsum (return_to_depot d m) = dsum d + live m"
  by (simp add: dsum_def return_to_depot_def)

lemma return_to_depot_sets:
  "set (not_empty (return_to_depot d m)) \<union> set (empty (return_to_depot d m))
     = insert m (set (not_empty d) \<union> set (empty d))"
  "depot_magsize (return_to_depot d m) = depot_magsize d"
  by (auto simp: return_to_depot_def)

text \<open>One round of the allocation loop.\<close>

lemma try_alloc_cases:
  assumes "try_alloc cfg e cpu n kc = Inr (r, kc')"
  shows "cpu < length (pcpu_caches kc) \<and>
    (let pcc = pcpu_caches kc ! cpu; d = lock_depot cfg (trylock e n) (depot kc) in
     (nr_rounds (loaded pcc) \<noteq> 0 \<and> nr_rounds (loaded pcc) \<le> length (rounds (loaded pcc))
        \<and> r = Some (rounds (loaded pcc) ! (nr_rounds (loaded pcc) - 1))
        \<and> kc' = kc\<lparr>pcpu_caches := (pcpu_caches kc)[cpu :=
                       pcc\<lparr>loaded := (loaded pcc)\<lparr>nr_rounds := nr_rounds (loaded pcc) - 1\<rparr>,
                           nr_allocs_ever := nr_allocs_ever pcc + 1\<rparr>]\<rparr>)
     \<or> (nr_rounds (loaded pcc) = 0 \<and> nr_rounds (prev pcc) \<noteq> 0
        \<and> try_alloc cfg e cpu n (kc\<lparr>pcpu_caches := (pcpu_caches kc)[cpu := swap_mags pcc]\<rparr>) = Inr (r, kc'))
     \<or> (nr_rounds (loaded pcc) = 0 \<and> nr_rounds (prev pcc) = 0
        \<and> (\<exists>mag rest. not_empty d = mag # rest
             \<and> try_alloc cfg e cpu (n + 1)
                 (kc\<lparr>depot := return_to_depot (d\<lparr>not_empty := rest, nr_not_empty := nr_not_empty d - 1\<rparr>) (prev pcc),
                     pcpu_caches := (pcpu_caches kc)[cpu := pcc\<lparr>prev := loaded pcc, loaded := mag\<rparr>]\<rparr>)
                 = Inr (r, kc')))
     \<or> (nr_rounds (loaded pcc) = 0 \<and> nr_rounds (prev pcc) = 0 \<and> not_empty d = []
        \<and> r = None \<and> kc' = kc\<lparr>depot := d\<rparr>))"
  using assms
  by (subst (asm) try_alloc.simps)
     (simp add: Let_def mag_is_empty_def split: if_splits list.splits)

subsection \<open>The allocation loop\<close>

lemma try_alloc_Inr:
  "try_alloc cfg e cpu n kc = Inr (r, kc') \<Longrightarrow> front_inv cfg kc \<Longrightarrow>
     front_inv cfg kc' \<and> same_back kc kc'
     \<and> cached_objs kc = (case r of None \<Rightarrow> {#} | Some ret \<Rightarrow> {#ret#}) + cached_objs kc'
     \<and> r \<noteq> Some NULL"
proof (induction cfg e cpu n kc arbitrary: r kc' rule: try_alloc.induct)
  case (1 cfg e cpu n kc)
  let ?pcc = "pcpu_caches kc ! cpu"
  let ?d = "lock_depot cfg (trylock e n) (depot kc)"
  note fi = "1.prems"(2)
  from try_alloc_cases [OF "1.prems"(1)] have cpu: "cpu < length (pcpu_caches kc)"
    and c: "(nr_rounds (loaded ?pcc) \<noteq> 0 \<and> nr_rounds (loaded ?pcc) \<le> length (rounds (loaded ?pcc))
        \<and> r = Some (rounds (loaded ?pcc) ! (nr_rounds (loaded ?pcc) - 1))
        \<and> kc' = kc\<lparr>pcpu_caches := (pcpu_caches kc)[cpu :=
                       ?pcc\<lparr>loaded := (loaded ?pcc)\<lparr>nr_rounds := nr_rounds (loaded ?pcc) - 1\<rparr>,
                           nr_allocs_ever := nr_allocs_ever ?pcc + 1\<rparr>]\<rparr>)
     \<or> (nr_rounds (loaded ?pcc) = 0 \<and> nr_rounds (prev ?pcc) \<noteq> 0
        \<and> try_alloc cfg e cpu n (kc\<lparr>pcpu_caches := (pcpu_caches kc)[cpu := swap_mags ?pcc]\<rparr>) = Inr (r, kc'))
     \<or> (nr_rounds (loaded ?pcc) = 0 \<and> nr_rounds (prev ?pcc) = 0
        \<and> (\<exists>mag rest. not_empty ?d = mag # rest
             \<and> try_alloc cfg e cpu (n + 1)
                 (kc\<lparr>depot := return_to_depot (?d\<lparr>not_empty := rest, nr_not_empty := nr_not_empty ?d - 1\<rparr>) (prev ?pcc),
                     pcpu_caches := (pcpu_caches kc)[cpu := ?pcc\<lparr>prev := loaded ?pcc, loaded := mag\<rparr>]\<rparr>)
                 = Inr (r, kc')))
     \<or> (nr_rounds (loaded ?pcc) = 0 \<and> nr_rounds (prev ?pcc) = 0 \<and> not_empty ?d = []
        \<and> r = None \<and> kc' = kc\<lparr>depot := ?d\<rparr>)"
    by (simp_all add: Let_def)
  note D = front_invD [OF fi cpu]
  from c show ?case
  proof (elim disjE conjE exE)
    assume n0: "nr_rounds (loaded ?pcc) \<noteq> 0" and le: "nr_rounds (loaded ?pcc) \<le> length (rounds (loaded ?pcc))"
      and r: "r = Some (rounds (loaded ?pcc) ! (nr_rounds (loaded ?pcc) - 1))"
      and kc': "kc' = kc\<lparr>pcpu_caches := (pcpu_caches kc)[cpu :=
                       ?pcc\<lparr>loaded := (loaded ?pcc)\<lparr>nr_rounds := nr_rounds (loaded ?pcc) - 1\<rparr>,
                           nr_allocs_ever := nr_allocs_ever ?pcc + 1\<rparr>]\<rparr>"
    have "front_inv cfg kc' \<and> same_back kc kc'
          \<and> cached_objs kc' + {#rounds (loaded ?pcc) ! (nr_rounds (loaded ?pcc) - 1)#} = cached_objs kc + {#}"
      using fi cpu
    proof (rule front_step [where d' = "depot kc"
          and pcc' = "?pcc\<lparr>loaded := (loaded ?pcc)\<lparr>nr_rounds := nr_rounds (loaded ?pcc) - 1\<rparr>,
                           nr_allocs_ever := nr_allocs_ever ?pcc + 1\<rparr>"])
      show "live (loaded (?pcc\<lparr>loaded := (loaded ?pcc)\<lparr>nr_rounds := nr_rounds (loaded ?pcc) - 1\<rparr>,
                           nr_allocs_ever := nr_allocs_ever ?pcc + 1\<rparr>))
            + live (prev (?pcc\<lparr>loaded := (loaded ?pcc)\<lparr>nr_rounds := nr_rounds (loaded ?pcc) - 1\<rparr>,
                           nr_allocs_ever := nr_allocs_ever ?pcc + 1\<rparr>)) + dsum (depot kc)
            + {#rounds (loaded ?pcc) ! (nr_rounds (loaded ?pcc) - 1)#}
            = live (loaded ?pcc) + live (prev ?pcc) + dsum (depot kc) + {#}"
        using live_pop [OF n0 le] by simp
    qed (use D in \<open>simp_all add: kc' same_back_def mag_wf_pop [unfolded One_nat_def]\<close>)
    with r mag_wf_top [OF D(1) n0] show ?thesis by simp
  next
    assume l0: "nr_rounds (loaded ?pcc) = 0" and p0: "nr_rounds (prev ?pcc) \<noteq> 0"
      and rec: "try_alloc cfg e cpu n (kc\<lparr>pcpu_caches := (pcpu_caches kc)[cpu := swap_mags ?pcc]\<rparr>) = Inr (r, kc')"
    let ?kc1 = "kc\<lparr>pcpu_caches := (pcpu_caches kc)[cpu := swap_mags ?pcc]\<rparr>"
    have s: "front_inv cfg ?kc1 \<and> same_back kc ?kc1 \<and> cached_objs ?kc1 + {#} = cached_objs kc + {#}"
      using fi cpu
      by (rule front_step [where pcc' = "swap_mags ?pcc" and d' = "depot kc"])
         (use D in \<open>simp_all add: same_back_def swap_mags_def\<close>)
    have "front_inv cfg kc' \<and> same_back ?kc1 kc'
     \<and> cached_objs ?kc1 = (case r of None \<Rightarrow> {#} | Some ret \<Rightarrow> {#ret#}) + cached_objs kc'
     \<and> r \<noteq> Some NULL"
      using cpu l0 p0 rec s
      by (intro "1.IH"(1) [OF _ refl]) (simp_all add: mag_is_empty_def)
    with s show ?thesis by (auto intro: same_back_trans)
  next
    fix mag rest
    assume l0: "nr_rounds (loaded ?pcc) = 0" and p0: "nr_rounds (prev ?pcc) = 0"
      and ne: "not_empty ?d = mag # rest"
      and rec: "try_alloc cfg e cpu (n + 1)
                 (kc\<lparr>depot := return_to_depot (?d\<lparr>not_empty := rest, nr_not_empty := nr_not_empty ?d - 1\<rparr>) (prev ?pcc),
                     pcpu_caches := (pcpu_caches kc)[cpu := ?pcc\<lparr>prev := loaded ?pcc, loaded := mag\<rparr>]\<rparr>)
                 = Inr (r, kc')"
    let ?d2 = "return_to_depot (?d\<lparr>not_empty := rest, nr_not_empty := nr_not_empty ?d - 1\<rparr>) (prev ?pcc)"
    let ?kc1 = "kc\<lparr>depot := ?d2,
                     pcpu_caches := (pcpu_caches kc)[cpu := ?pcc\<lparr>prev := loaded ?pcc, loaded := mag\<rparr>]\<rparr>"
    have ne0: "not_empty (depot kc) = mag # rest"
      using ne by (simp add: lock_depot_lists)
    have s: "front_inv cfg ?kc1 \<and> same_back kc ?kc1 \<and> cached_objs ?kc1 + {#} = cached_objs kc + {#}"
      using fi cpu
    proof (rule front_step [where d' = ?d2 and pcc' = "?pcc\<lparr>prev := loaded ?pcc, loaded := mag\<rparr>"])
      show "\<forall>m\<in>set (not_empty ?d2) \<union> set (empty ?d2). mag_wf cfg m"
        using D ne0 by (auto simp: return_to_depot_sets lock_depot_lists)
      show "live (loaded (?pcc\<lparr>prev := loaded ?pcc, loaded := mag\<rparr>))
            + live (prev (?pcc\<lparr>prev := loaded ?pcc, loaded := mag\<rparr>)) + dsum ?d2 + {#}
            = live (loaded ?pcc) + live (prev ?pcc) + dsum (depot kc) + {#}"
        using ne0 by (simp add: dsum_return) (simp add: dsum_def lock_depot_lists)
    qed (use D ne0 in \<open>simp_all add: same_back_def return_to_depot_sets lock_depot_magsize_le\<close>)
    have "front_inv cfg kc' \<and> same_back ?kc1 kc'
     \<and> cached_objs ?kc1 = (case r of None \<Rightarrow> {#} | Some ret \<Rightarrow> {#ret#}) + cached_objs kc'
     \<and> r \<noteq> Some NULL"
      using cpu l0 p0 ne rec s
      by (intro "1.IH"(2) [OF _ refl _ _ refl _ refl refl]) (simp_all add: mag_is_empty_def)
    with s show ?thesis by (auto intro: same_back_trans)
  next
    assume r: "r = None" and kc': "kc' = kc\<lparr>depot := ?d\<rparr>"
    have "front_inv cfg kc' \<and> same_back kc kc' \<and> cached_objs kc' + {#} = cached_objs kc + {#}"
      using fi cpu
      by (rule front_step [where pcc' = ?pcc and d' = ?d])
         (use D in \<open>simp_all add: kc' same_back_def lock_depot_lists lock_depot_magsize_le dsum_lock_depot\<close>)
    with r show ?thesis by simp
  qed
qed

subsection \<open>The free loop\<close>

lemma try_free_Inr:
  assumes "try_free cfg0 e0 mc0 cpu0 buf0 nl0 nm0 kc0 evs0 = Some y0"
  shows "\<forall>b kc' evs'. y0 = Inr (b, kc', evs') \<longrightarrow> mc0 = None \<longrightarrow> front_inv cfg0 kc0 \<longrightarrow> magazines_ok cfg0 e0
           \<longrightarrow> buf0 \<noteq> NULL \<longrightarrow>
           front_inv cfg0 kc' \<and> same_back kc0 kc' \<and> cached_objs kc' = {#buf0#} + cached_objs kc0"
proof (rule try_free.raw_induct [where P = "\<lambda>cfg e mc cpu buf nl nm kc evs y.
           \<forall>b kc' evs'. y = Inr (b, kc', evs') \<longrightarrow> mc = None \<longrightarrow> front_inv cfg kc \<longrightarrow> magazines_ok cfg e
           \<longrightarrow> buf \<noteq> NULL \<longrightarrow>
           front_inv cfg kc' \<and> same_back kc kc' \<and> cached_objs kc' = {#buf#} + cached_objs kc", OF _ assms],
    goal_cases)
  case (1 f cfg e mc cpu buf nl nm kc evs y)
  show ?case
  proof (intro allI impI)
    fix b kc' evs'
    assume y: "y = Inr (b, kc', evs')" and mc: "mc = None" and fi: "front_inv cfg kc"
      and me: "magazines_ok cfg e" and bn: "buf \<noteq> NULL"
    let ?kc1 = "kc\<lparr>depot := lock_depot cfg (trylock e nl) (depot kc),
        pcpu_caches := (pcpu_caches kc)[cpu := (pcpu_caches kc ! cpu)\<lparr>magsize :=
          depot_magsize (lock_depot cfg (trylock e nl) (depot kc))\<rparr>]\<rparr>"
    let ?pcc = "pcpu_caches kc ! cpu"
    let ?d = "lock_depot cfg (trylock e nl) (depot kc)"
    let ?pcc1 = "?pcc\<lparr>magsize := depot_magsize ?d\<rparr>"
    let ?d3 = "lock_depot cfg (trylock e (nl + 1)) ?d"
    note IH = 1(1) [rule_format, OF _ refl mc _ me bn]
    from try_free_round [where f = f and cfg = cfg and e = e and mc = mc and cpu = cpu and kc = kc
        and buf = buf and nl = nl and nm = nm and evs = evs and b = b and kc' = kc' and evs' = evs',
        OF 1(2) [unfolded y]]
    have cpu: "cpu < length (pcpu_caches kc)"
      and c: "(nr_rounds (loaded ?pcc) < magsize ?pcc \<and> nr_rounds (loaded ?pcc) < length (rounds (loaded ?pcc)) \<and> b
        \<and> evs' = evs
        \<and> kc' = kc\<lparr>pcpu_caches := (pcpu_caches kc)[cpu :=
                    ?pcc\<lparr>loaded := (loaded ?pcc)\<lparr>rounds := (rounds (loaded ?pcc))[nr_rounds (loaded ?pcc) := buf],
                                               nr_rounds := nr_rounds (loaded ?pcc) + 1\<rparr>\<rparr>]\<rparr>)
     \<or> (\<not> nr_rounds (loaded ?pcc) < magsize ?pcc \<and> nr_rounds (prev ?pcc) < magsize ?pcc
        \<and> f cfg e mc cpu buf nl nm (kc\<lparr>pcpu_caches := (pcpu_caches kc)[cpu := swap_mags ?pcc]\<rparr>) evs
            = Some (Inr (b, kc', evs')))
     \<or> (\<not> nr_rounds (loaded ?pcc) < magsize ?pcc \<and> \<not> nr_rounds (prev ?pcc) < magsize ?pcc
        \<and> (\<exists>mag rest. empty ?d = mag # rest
             \<and> f cfg e mc cpu buf (nl + 1) nm
                 (kc\<lparr>depot := return_to_depot (?d\<lparr>empty := rest, nr_empty := nr_empty ?d - 1\<rparr>) (prev ?pcc),
                     pcpu_caches := (pcpu_caches kc)[cpu := ?pcc1\<lparr>prev := loaded ?pcc, loaded := mag\<rparr>]\<rparr>) evs
                 = Some (Inr (b, kc', evs'))))
     \<or> (\<not> nr_rounds (loaded ?pcc) < magsize ?pcc \<and> \<not> nr_rounds (prev ?pcc) < magsize ?pcc \<and> empty ?d = []
        \<and> (\<exists>evs1. magazine_cache_alloc cfg e mc cpu nm ?kc1 = Inr (None, kc', evs1)
              \<and> \<not> b \<and> evs' = evs @ evs1))
     \<or> (\<not> nr_rounds (loaded ?pcc) < magsize ?pcc \<and> \<not> nr_rounds (prev ?pcc) < magsize ?pcc \<and> empty ?d = []
        \<and> (\<exists>mag kc2 evs1. magazine_cache_alloc cfg e mc cpu nm ?kc1 = Inr (Some mag, kc2, evs1)
              \<and> nr_rounds mag = 0
              \<and> f cfg e mc cpu buf (nl + 2) (nm + 1)
                  (kc2\<lparr>depot := (lock_depot cfg (trylock e (nl + 1)) (depot kc2))
                          \<lparr>empty := mag # empty (lock_depot cfg (trylock e (nl + 1)) (depot kc2)),
                           nr_empty := nr_empty (lock_depot cfg (trylock e (nl + 1)) (depot kc2)) + 1\<rparr>\<rparr>)
                  (evs @ evs1) = Some (Inr (b, kc', evs'))))"
      by (simp_all add: Let_def)
    note D = front_invD [OF fi cpu]
    have dm: "depot_magsize ?d \<le> KMC_MAG_MAX_SZ cfg"
      using D(5) by (rule lock_depot_magsize_le)
    from c show "front_inv cfg kc' \<and> same_back kc kc' \<and> cached_objs kc' = {#buf#} + cached_objs kc"
    proof (elim disjE conjE exE)
      assume room: "nr_rounds (loaded ?pcc) < magsize ?pcc"
        and lt: "nr_rounds (loaded ?pcc) < length (rounds (loaded ?pcc))" and b: b
        and kc': "kc' = kc\<lparr>pcpu_caches := (pcpu_caches kc)[cpu :=
                    ?pcc\<lparr>loaded := (loaded ?pcc)\<lparr>rounds := (rounds (loaded ?pcc))[nr_rounds (loaded ?pcc) := buf],
                                               nr_rounds := nr_rounds (loaded ?pcc) + 1\<rparr>\<rparr>]\<rparr>"
      let ?pcc' = "?pcc\<lparr>loaded := (loaded ?pcc)\<lparr>rounds := (rounds (loaded ?pcc))[nr_rounds (loaded ?pcc) := buf],
                                               nr_rounds := nr_rounds (loaded ?pcc) + 1\<rparr>\<rparr>"
      have wf': "mag_wf cfg (loaded ?pcc')"
        using mag_wf_push [OF D(1) _ bn] room D(3) by simp
      have "front_inv cfg kc' \<and> same_back kc kc' \<and> cached_objs kc' + {#} = cached_objs kc + {#buf#}"
        using fi cpu
      proof (rule front_step [where d' = "depot kc" and pcc' = ?pcc'])
        show "live (loaded ?pcc') + live (prev ?pcc') + dsum (depot kc) + {#}
              = live (loaded ?pcc) + live (prev ?pcc) + dsum (depot kc) + {#buf#}"
          using live_push [OF lt, of buf] by simp
      qed (use D wf' in \<open>simp_all add: kc' same_back_def\<close>)
      then show ?thesis by simp
    next
      assume rec: "f cfg e mc cpu buf nl nm (kc\<lparr>pcpu_caches := (pcpu_caches kc)[cpu := swap_mags ?pcc]\<rparr>) evs
            = Some (Inr (b, kc', evs'))"
      let ?kc1 = "kc\<lparr>pcpu_caches := (pcpu_caches kc)[cpu := swap_mags ?pcc]\<rparr>"
      have s: "front_inv cfg ?kc1 \<and> same_back kc ?kc1 \<and> cached_objs ?kc1 + {#} = cached_objs kc + {#}"
        using fi cpu
        by (rule front_step [where pcc' = "swap_mags ?pcc" and d' = "depot kc"])
           (use D in \<open>simp_all add: same_back_def swap_mags_def\<close>)
      from IH [OF rec] s show ?thesis by (auto intro: same_back_trans)
    next
      fix mag rest
      assume em: "empty ?d = mag # rest"
        and rec: "f cfg e mc cpu buf (nl + 1) nm
                 (kc\<lparr>depot := return_to_depot (?d\<lparr>empty := rest, nr_empty := nr_empty ?d - 1\<rparr>) (prev ?pcc),
                     pcpu_caches := (pcpu_caches kc)[cpu := ?pcc1\<lparr>prev := loaded ?pcc, loaded := mag\<rparr>]\<rparr>) evs
                 = Some (Inr (b, kc', evs'))"
      let ?d2 = "return_to_depot (?d\<lparr>empty := rest, nr_empty := nr_empty ?d - 1\<rparr>) (prev ?pcc)"
      let ?kc1 = "kc\<lparr>depot := ?d2,
                     pcpu_caches := (pcpu_caches kc)[cpu := ?pcc1\<lparr>prev := loaded ?pcc, loaded := mag\<rparr>]\<rparr>"
      have em0: "empty (depot kc) = mag # rest"
        using em by (simp add: lock_depot_lists)
      have s: "front_inv cfg ?kc1 \<and> same_back kc ?kc1 \<and> cached_objs ?kc1 + {#} = cached_objs kc + {#}"
        using fi cpu
      proof (rule front_step [where d' = ?d2 and pcc' = "?pcc1\<lparr>prev := loaded ?pcc, loaded := mag\<rparr>"])
        show "\<forall>m\<in>set (not_empty ?d2) \<union> set (empty ?d2). mag_wf cfg m"
          using D em0 by (auto simp: return_to_depot_sets lock_depot_lists)
        show "live (loaded (?pcc1\<lparr>prev := loaded ?pcc, loaded := mag\<rparr>))
            + live (prev (?pcc1\<lparr>prev := loaded ?pcc, loaded := mag\<rparr>)) + dsum ?d2 + {#}
            = live (loaded ?pcc) + live (prev ?pcc) + dsum (depot kc) + {#}"
          using em0 by (simp add: dsum_return) (simp add: dsum_def lock_depot_lists)
      qed (use D em0 dm in \<open>simp_all add: same_back_def return_to_depot_sets\<close>)
      from IH [OF rec] s show ?thesis by (auto intro: same_back_trans)
    next
      fix evs1
      assume "magazine_cache_alloc cfg e mc cpu nm ?kc1 = Inr (None, kc', evs1)"
      then show ?thesis by (simp add: mc magazine_cache_alloc_other)
    next
      fix mag kc2 evs1
      assume m: "magazine_cache_alloc cfg e mc cpu nm ?kc1 = Inr (Some mag, kc2, evs1)"
        and m0: "nr_rounds mag = 0"
        and rec0: "f cfg e mc cpu buf (nl + 2) (nm + 1)
                  (kc2\<lparr>depot := (lock_depot cfg (trylock e (nl + 1)) (depot kc2))
                          \<lparr>empty := mag # empty (lock_depot cfg (trylock e (nl + 1)) (depot kc2)),
                           nr_empty := nr_empty (lock_depot cfg (trylock e (nl + 1)) (depot kc2)) + 1\<rparr>\<rparr>)
                  (evs @ evs1) = Some (Inr (b, kc', evs'))"
      from m have ma: "magazine_alloc e nm = Some mag" and k2: "kc2 = ?kc1" and e1: "evs1 = []"
        by (simp_all add: mc magazine_cache_alloc_other)
      from rec0 have rec: "f cfg e mc cpu buf (nl + 2) (nm + 1)
             (kc\<lparr>pcpu_caches := (pcpu_caches kc)[cpu := ?pcc1],
                 depot := ?d3\<lparr>empty := mag # empty ?d3, nr_empty := nr_empty ?d3 + 1\<rparr>\<rparr>) evs
             = Some (Inr (b, kc', evs'))"
        by (simp add: k2 e1)
      let ?d4 = "?d3\<lparr>empty := mag # empty ?d3, nr_empty := nr_empty ?d3 + 1\<rparr>"
      let ?kc1 = "kc\<lparr>pcpu_caches := (pcpu_caches kc)[cpu := ?pcc1], depot := ?d4\<rparr>"
      have mw: "mag_wf cfg mag"
        using me ma m0 by (auto simp: magazines_ok_def mag_wf_def split: option.splits dest: spec [of _ nm])
      have lm: "live mag = {#}" using m0 by (simp add: live_def)
      have s: "front_inv cfg ?kc1 \<and> same_back kc ?kc1 \<and> cached_objs ?kc1 + {#} = cached_objs kc + {#}"
        using fi cpu
      proof (rule front_step [where d' = ?d4 and pcc' = ?pcc1])
        show "\<forall>m\<in>set (not_empty ?d4) \<union> set (empty ?d4). mag_wf cfg m"
          using D mw by (auto simp: lock_depot_lists)
        show "live (loaded ?pcc1) + live (prev ?pcc1) + dsum ?d4 + {#}
            = live (loaded ?pcc) + live (prev ?pcc) + dsum (depot kc) + {#}"
          using lm by (simp add: dsum_def lock_depot_lists)
        show "depot_magsize ?d4 \<le> KMC_MAG_MAX_SZ cfg"
          using lock_depot_magsize_le [OF dm] by simp
      qed (use D dm in \<open>simp_all add: same_back_def\<close>)
      from IH [OF rec] s show ?thesis by (auto intro: same_back_trans)
    qed
  qed
qed

subsection \<open>The accounting of the objects of a cache\<close>

lemma same_back_fields:
  assumes "same_back kc kc'"
  shows "slabs kc' = slabs kc" "alloc_hash kc' = alloc_hash kc" "hh kc' = hh kc"
    "nr_cur_alloc kc' = nr_cur_alloc kc" "flags kc' = flags kc" "ctor kc' = ctor kc" "dtor kc' = dtor kc"
    "obj_size kc' = obj_size kc" "import_amt kc' = import_amt kc"
    "full_slab_list kc' = full_slab_list kc" "partial_slab_list kc' = partial_slab_list kc"
    "empty_slab_list kc' = empty_slab_list kc"
    "nonnull kc' = nonnull kc" "hash_bufctls kc' = hash_bufctls kc" "use_bufctls kc' = use_bufctls kc"
proof -
  from assms obtain d p where "kc' = kc\<lparr>depot := d, pcpu_caches := p\<rparr>"
    unfolding same_back_iff by blast
  then show "slabs kc' = slabs kc" "alloc_hash kc' = alloc_hash kc" "hh kc' = hh kc"
    "nr_cur_alloc kc' = nr_cur_alloc kc" "flags kc' = flags kc" "ctor kc' = ctor kc" "dtor kc' = dtor kc"
    "obj_size kc' = obj_size kc" "import_amt kc' = import_amt kc"
    "full_slab_list kc' = full_slab_list kc" "partial_slab_list kc' = partial_slab_list kc"
    "empty_slab_list kc' = empty_slab_list kc"
    "nonnull kc' = nonnull kc" "hash_bufctls kc' = hash_bufctls kc" "use_bufctls kc' = use_bufctls kc"
    by (simp_all add: nonnull_def hash_bufctls_def use_bufctls_def)
qed

lemma same_frame_front:
  assumes "same_frame cp cp'"
  shows "cached_objs cp' = cached_objs cp" "front_inv cfg cp' = front_inv cfg cp"
    "use_bufctls cp' = use_bufctls cp"
  using assms by (simp_all add: same_frame_def cached_objs_def front_inv_def use_bufctls_def)

lemma sum_list_replicate_empty: "sum_list (replicate n ({#} :: 'a multiset)) = {#}"
  by (induction n) simp_all

lemma accountedI:
  assumes "front_inv cfg kc" "nonnull kc" "NULL \<notin># out"
    "nr_hash_lists (hh kc) = length (alloc_hash kc)"
    "nr_cur_alloc kc = of_nat (size out + size (cached_objs kc))"
    "use_bufctls kc \<Longrightarrow> mset (map buf_addr (hash_bufctls kc)) = out + cached_objs kc"
    "\<not> use_bufctls kc \<Longrightarrow> hash_bufctls kc = []"
  shows "accounted cfg kc out"
  using assms unfolding accounted_def by simp

lemma accountedD:
  assumes "accounted cfg kc out"
  shows "front_inv cfg kc" "nonnull kc" "NULL \<notin># out"
    "nr_hash_lists (hh kc) = length (alloc_hash kc)"
    "nr_cur_alloc kc = of_nat (size out + size (cached_objs kc))"
    "use_bufctls kc \<Longrightarrow> mset (map buf_addr (hash_bufctls kc)) = out + cached_objs kc"
    "\<not> use_bufctls kc \<Longrightarrow> hash_bufctls kc = []"
  using assms unfolding accounted_def by simp_all

text \<open>
  The per-CPU caches of a cache other than \<open>kmem_magazine_cache\<close>: building
  them leaves the cache alone.
\<close>

lemma build_pcpu_caches_other:
  assumes "build_pcpu_caches cfg e None i n kc = Inr (pccs, kc', evs)" and "magazines_ok cfg e"
  shows "kc' = kc \<and> evs = [] \<and> length pccs = n
    \<and> (\<forall>pcc \<in> set pccs. magsize pcc = KMC_MAG_MIN_SZ cfg
           \<and> nr_rounds (loaded pcc) = 0 \<and> KMC_MAG_MAX_SZ cfg \<le> length (rounds (loaded pcc))
           \<and> nr_rounds (prev pcc) = 0 \<and> KMC_MAG_MAX_SZ cfg \<le> length (rounds (prev pcc)))"
  using assms
proof (induction n arbitrary: i pccs kc' evs)
  case 0
  then show ?case by simp
next
  case (Suc n)
  from Suc.prems(1) obtain m1 m2 pccs' evs3 where
    m1: "magazine_alloc e (2 * i) = Some m1" and m2: "magazine_alloc e (2 * i + 1) = Some m2"
    and r: "build_pcpu_caches cfg e None (i + 1) n kc = Inr (pccs', kc', evs3)"
    and p: "pccs = \<lparr>magsize = KMC_MAG_MIN_SZ cfg, loaded = m1, prev = m2, nr_allocs_ever = 0\<rparr> # pccs'"
    and ev: "evs = evs3"
    by (auto simp: magazine_from_slab_def split: option.splits sum.splits prod.splits)
  from Suc.prems(2) m1 m2 have w: "nr_rounds m1 = 0 \<and> KMC_MAG_MAX_SZ cfg \<le> length (rounds m1)"
    "nr_rounds m2 = 0 \<and> KMC_MAG_MAX_SZ cfg \<le> length (rounds m2)"
    by (auto simp: magazines_ok_def split: option.splits dest: spec [of _ "2 * i"] spec [of _ "2 * i + 1"])
  from Suc.IH [OF r Suc.prems(2)] p ev w show ?case by simp
qed

lemma kmem_cache_create_other:
  assumes "kmem_cache_create cfg e None num_cores qcache_max sz al fl c d = Inr (kc, evs)"
    and "magazines_ok cfg e"
  shows "\<exists>pccs. kc = \<lparr>obj_size = ROUNDUP sz al,
             import_amt = (if KMC_QCACHE \<in> fl then ROUNDUPPWR2 cfg (3 * qcache_max)
                           else ROUNDUP (NUM_BUF_PER_SLAB cfg * sz) (PGSIZE cfg)),
             align = al,
             flags = (if sz > SLAB_LARGE_CUTOFF cfg \<or> KMC_NOTOUCH \<in> fl
                      then insert KMC_USE_BUFCTL fl else fl),
             full_slab_list = [], partial_slab_list = [], empty_slab_list = [],
             slabs = Map.empty,
             ctor = c, dtor = d,
             nr_cur_alloc = 0,
             alloc_hash = replicate (nr_hash_lists (hash_init_hh cfg)) [],
             alloc_hash_is_static = True,
             hh = hash_init_hh cfg,
             depot = depot_init cfg,
             pcpu_caches = pccs\<rparr>
     \<and> evs = [] \<and> length pccs = num_cores
     \<and> (\<forall>pcc \<in> set pccs. magsize pcc = KMC_MAG_MIN_SZ cfg
           \<and> nr_rounds (loaded pcc) = 0 \<and> KMC_MAG_MAX_SZ cfg \<le> length (rounds (loaded pcc))
           \<and> nr_rounds (prev pcc) = 0 \<and> KMC_MAG_MAX_SZ cfg \<le> length (rounds (prev pcc)))"
proof -
  let ?kc0 = "\<lparr>obj_size = ROUNDUP sz al,
             import_amt = (if KMC_QCACHE \<in> fl then ROUNDUPPWR2 cfg (3 * qcache_max)
                           else ROUNDUP (NUM_BUF_PER_SLAB cfg * sz) (PGSIZE cfg)),
             align = al,
             flags = (if sz > SLAB_LARGE_CUTOFF cfg \<or> KMC_NOTOUCH \<in> fl
                      then insert KMC_USE_BUFCTL fl else fl),
             full_slab_list = [], partial_slab_list = [], empty_slab_list = [],
             slabs = Map.empty,
             ctor = c, dtor = d,
             nr_cur_alloc = 0,
             alloc_hash = replicate (nr_hash_lists (hash_init_hh cfg)) [],
             alloc_hash_is_static = True,
             hh = hash_init_hh cfg,
             depot = depot_init cfg,
             pcpu_caches = []\<rparr>"
  from assms(1) obtain pccs kc1 where
    b: "build_pcpu_caches cfg e None 0 num_cores ?kc0 = Inr (pccs, kc1, evs)"
    and kc: "kc = kc1\<lparr>pcpu_caches := pccs\<rparr>"
    unfolding kmem_cache_create_def
    by (cases "al = 0"; cases "al > PGSIZE cfg"; simp split: sum.splits prod.splits)
  from build_pcpu_caches_other [OF b assms(2)] kc show ?thesis by simp
qed

lemma kmem_cache_create_accounted:
  assumes "kmem_cache_create cfg e None num_cores qcache_max sz al fl c d = Inr (kc, evs)"
    and "config_ok cfg" and "magazines_ok cfg e"
  shows "accounted cfg kc {#}"
proof -
  from kmem_cache_create_other [OF assms(1,3)] obtain pccs where
    f: "slabs kc = Map.empty" "nr_cur_alloc kc = 0"
    "alloc_hash kc = replicate (nr_hash_lists (hash_init_hh cfg)) []" "hh kc = hash_init_hh cfg"
    "depot kc = depot_init cfg" "pcpu_caches kc = pccs"
    and w: "\<forall>pcc \<in> set pccs. magsize pcc = KMC_MAG_MIN_SZ cfg
           \<and> nr_rounds (loaded pcc) = 0 \<and> KMC_MAG_MAX_SZ cfg \<le> length (rounds (loaded pcc))
           \<and> nr_rounds (prev pcc) = 0 \<and> KMC_MAG_MAX_SZ cfg \<le> length (rounds (prev pcc))"
    by auto
  have fi: "front_inv cfg kc"
    using assms(2) w
    by (auto simp: f front_inv_def mag_wf_def depot_init_def config_ok_def)
  have "map (\<lambda>pcc. live (loaded pcc) + live (prev pcc)) pccs = replicate (length pccs) {#}"
    using w by (simp add: map_replicate_const [symmetric] live_def)
  then have co: "cached_objs kc = {#}"
    by (simp add: f cached_objs_def depot_init_def sum_list_replicate_empty)
  have hb: "hash_bufctls kc = []"
    by (simp add: f hash_bufctls_def)
  show ?thesis
    by (rule accountedI) (simp_all add: fi co hb f nonnull_def)
qed

lemma kmem_cache_alloc_cases:
  assumes "kmem_cache_alloc cfg e cpu kc fl = Inr (ret, kc', evs)"
  shows "(try_alloc cfg e cpu 0 kc = Inr (Some ret, kc') \<and> evs = [])
     \<or> (\<exists>kc1. try_alloc cfg e cpu 0 kc = Inr (None, kc1)
           \<and> kmem_alloc_from_slab cfg e kc1 fl = Inr (ret, kc', evs))"
  using assms unfolding kmem_cache_alloc_def
  by (simp split: sum.splits option.splits prod.splits)

lemma kmem_cache_alloc_accounted:
  assumes a: "accounted cfg kc out" and t: "kmem_cache_alloc cfg e cpu kc fl = Inr (ret, kc', evs)"
    and cfg: "config_ok cfg"
  shows "accounted cfg kc' (if ret = NULL then out else add_mset ret out)"
  using kmem_cache_alloc_cases [OF t]
proof (elim disjE conjE exE)
  note D = accountedD [OF a]
  assume ta: "try_alloc cfg e cpu 0 kc = Inr (Some ret, kc')"
  from try_alloc_Inr [OF ta D(1)] have fi': "front_inv cfg kc'" and sb: "same_back kc kc'"
    and co: "cached_objs kc = add_mset ret (cached_objs kc')" and rn: "ret \<noteq> NULL"
    by simp_all
  note S = same_back_fields [OF sb]
  have "accounted cfg kc' (add_mset ret out)"
  proof (rule accountedI)
    show "front_inv cfg kc'" by (rule fi')
    show "nonnull kc'" using D(2) by (simp add: S)
    show "NULL \<notin># add_mset ret out" using D(3) rn by simp
    show "nr_hash_lists (hh kc') = length (alloc_hash kc')" using D(4) by (simp add: S)
    show "nr_cur_alloc kc' = of_nat (size (add_mset ret out) + size (cached_objs kc'))"
      using D(5) by (simp add: S co)
    show "mset (map buf_addr (hash_bufctls kc')) = add_mset ret out + cached_objs kc'"
      if "use_bufctls kc'" using D(6) that by (simp add: S co)
    show "hash_bufctls kc' = []" if "\<not> use_bufctls kc'" using D(7) that by (simp add: S)
  qed
  then show ?thesis using rn by simp
next
  note D = accountedD [OF a]
  fix kc1
  assume ta: "try_alloc cfg e cpu 0 kc = Inr (None, kc1)"
    and sl: "kmem_alloc_from_slab cfg e kc1 fl = Inr (ret, kc', evs)"
  from try_alloc_Inr [OF ta D(1)] have fi1: "front_inv cfg kc1" and sb: "same_back kc kc1"
    and co: "cached_objs kc1 = cached_objs kc"
    by simp_all
  note S = same_back_fields [OF sb]
  have nn1: "nonnull kc1" and len1: "nr_hash_lists (hh kc1) = length (alloc_hash kc1)"
    using D(2,4) by (simp_all add: S)
  note A = kmem_alloc_from_slab_Inr [OF sl nn1 cfg len1]
  from A have sf: "same_frame kc1 kc'" by simp
  note F = same_frame_front [OF sf]
  show ?thesis
  proof (rule accountedI)
    show "front_inv cfg kc'" using fi1 by (simp add: F)
    show "nonnull kc'" using A by simp
    show "NULL \<notin># (if ret = NULL then out else add_mset ret out)" using D(3) by simp
    show "nr_hash_lists (hh kc') = length (alloc_hash kc')" using A by simp
    show "nr_cur_alloc kc' = of_nat (size (if ret = NULL then out else add_mset ret out) + size (cached_objs kc'))"
      using D(5) A by (simp add: S F co)
    show "mset (map buf_addr (hash_bufctls kc')) = (if ret = NULL then out else add_mset ret out) + cached_objs kc'"
      if "use_bufctls kc'" using D(6) A that by (simp add: S F co)
    show "hash_bufctls kc' = []" if "\<not> use_bufctls kc'" using D(7) A that by (simp add: S F)
  qed
qed

lemma kmem_cache_free_accounted:
  assumes a: "accounted cfg kc out" and t: "kmem_cache_free cfg e None cpu kc buf = Some (Inr (kc', evs))"
    and me: "magazines_ok cfg e" and b: "buf \<in># out"
  shows "accounted cfg kc' (out - {#buf#})"
proof -
  note D = accountedD [OF a]
  from D(3) b have bn: "buf \<noteq> NULL" by auto
  from b have sz: "size out = Suc (size (out - {#buf#}))"
    by (simp add: size_Diff_singleton) (metis Suc_pred b size_eq_0_iff_empty empty_iff set_mset_empty neq0_conv)
  from b have ad: "add_mset buf (out - {#buf#}) = out" by simp
  have nn: "NULL \<notin># out - {#buf#}"
    using D(3) by (auto dest: in_diffD)
  from kmem_cache_free_other [OF t] have tf: "try_free cfg e None cpu buf 0 0 kc [] = Some (Inr (True, kc', []))"
    by simp
  from try_free_Inr [OF tf, rule_format, OF refl refl D(1) me bn]
  have fi': "front_inv cfg kc'" and sb: "same_back kc kc'"
    and co: "cached_objs kc' = add_mset buf (cached_objs kc)"
    by simp_all
  note S = same_back_fields [OF sb]
  show ?thesis
  proof (rule accountedI)
    show "front_inv cfg kc'" by (rule fi')
    show "nonnull kc'" using D(2) by (simp add: S)
    show "NULL \<notin># out - {#buf#}" by (rule nn)
    show "nr_hash_lists (hh kc') = length (alloc_hash kc')" using D(4) by (simp add: S)
    show "nr_cur_alloc kc' = of_nat (size (out - {#buf#}) + size (cached_objs kc'))"
      using D(5) by (simp add: S co sz)
    show "mset (map buf_addr (hash_bufctls kc')) = out - {#buf#} + cached_objs kc'"
      if "use_bufctls kc'" using D(6) that ad by (simp add: S co)
    show "hash_bufctls kc' = []" if "\<not> use_bufctls kc'" using D(7) that by (simp add: S)
  qed
qed

lemma reach_accounted:
  "reach cfg kc out reg \<Longrightarrow> config_ok cfg \<and> accounted cfg kc out"
proof (induction rule: reach.induct)
  case (created e num_cores qcache_max sz al fl c d kc evs)
  from kmem_cache_create_accounted [OF created(3,1,2)] created(1) show ?case by simp
next
  case (allocated kc out reg e cpu fl ret kc' evs)
  from allocated.IH have c: "config_ok cfg" and a: "accounted cfg kc out" by simp_all
  from kmem_cache_alloc_accounted [OF a allocated.hyps(3) c] c
  show ?case by simp
next
  case (freed kc out reg e buf cpu kc' evs)
  from freed.IH have c: "config_ok cfg" and a: "accounted cfg kc out" by simp_all
  note me = freed.hyps(2)
  from kmem_cache_free_accounted [OF a freed.hyps(4) me freed.hyps(3)] c
  show ?case by simp
qed

subsection \<open>The chains of the hash and the bufctls of a region\<close>

lemma hash_insert_ok:
  assumes "hash_insert tbl idx bc = Inr tbl'" and "tbl_ok cfg bits tbl"
    and "hash_ptr cfg (buf_addr bc) bits = idx"
  shows "tbl_ok cfg bits tbl'"
  using assms by (auto simp: hash_insert_def tbl_ok_def nth_list_update split: if_splits)

lemma rehash_chain_ok:
  "rehash_chain cfg bits chain tbl = Inr tbl' \<Longrightarrow> tbl_ok cfg bits tbl \<Longrightarrow> tbl_ok cfg bits tbl'"
proof (induction chain arbitrary: tbl)
  case Nil
  then show ?case by simp
next
  case (Cons bc chain)
  from Cons.prems(1) obtain t where
    h: "hash_insert tbl (hash_ptr cfg (buf_addr bc) bits) bc = Inr t"
    and r: "rehash_chain cfg bits chain t = Inr tbl'"
    by (auto split: sum.splits)
  from hash_insert_ok [OF h Cons.prems(2) refl] have "tbl_ok cfg bits t" .
  from Cons.IH [OF r this] show ?case .
qed

lemma rehash_table_ok:
  "rehash_table cfg bits old tbl = Inr tbl' \<Longrightarrow> tbl_ok cfg bits tbl \<Longrightarrow> tbl_ok cfg bits tbl'"
proof (induction old arbitrary: tbl)
  case Nil
  then show ?case by simp
next
  case (Cons chain old)
  from Cons.prems(1) obtain t where
    h: "rehash_chain cfg bits chain tbl = Inr t"
    and r: "rehash_table cfg bits old t = Inr tbl'"
    by (auto split: sum.splits)
  from rehash_chain_ok [OF h Cons.prems(2)] have "tbl_ok cfg bits t" .
  from Cons.IH [OF r this] show ?case .
qed

lemma tbl_ok_replicate: "tbl_ok cfg bits (replicate n [])"
  by (simp add: tbl_ok_def)

lemma try_hash_resize_ok:
  assumes "try_hash_resize cfg e cp = Inr (cp', evs)" and "config_ok cfg" and "hash_ok cfg cp"
  shows "hash_ok cfg cp'"
proof (cases "cp' = cp")
  case True
  with assms(3) show ?thesis by simp
next
  case False
  with assms(1) obtain new_tbl where
    r: "rehash_table cfg (nr_hash_bits (hash_incr_nr_lists cfg (hh cp)))
          (take (nr_hash_lists (hh cp)) (alloc_hash cp))
          (replicate (hash_next_nr_lists cfg (hh cp)) []) = Inr new_tbl"
    and cp': "cp' = cp\<lparr>alloc_hash := new_tbl, alloc_hash_is_static := False,
                      hh := hash_reset_load_limit cfg (hash_incr_nr_lists cfg (hh cp))\<rparr>"
    by (auto simp: try_hash_resize_def Let_def split: if_splits sum.splits)
  from rehash_table_ok [OF r tbl_ok_replicate] assms(2) show ?thesis
    by (simp add: cp' hash_ok_def config_ok_def)
qed

lemma track_alloc_ok:
  assumes "track_alloc cfg e cp bc = Inr (cp', evs)" and "config_ok cfg" and "hash_ok cfg cp"
  shows "hash_ok cfg cp'"
proof -
  from assms(1) obtain tbl where
    ins: "hash_insert (alloc_hash cp) (hash_ptr cfg (buf_addr bc) (nr_hash_bits (hh cp))) bc = Inr tbl"
    and res: "try_hash_resize cfg e
          (cp\<lparr>alloc_hash := tbl, hh := (hh cp)\<lparr>nr_items := nr_items (hh cp) + 1\<rparr>\<rparr>) = Inr (cp', evs)"
    by (auto simp: track_alloc_def split: sum.splits)
  from hash_insert_ok [OF ins assms(3) [unfolded hash_ok_def] refl]
  have "hash_ok cfg (cp\<lparr>alloc_hash := tbl, hh := (hh cp)\<lparr>nr_items := nr_items (hh cp) + 1\<rparr>\<rparr>)"
    by (simp add: hash_ok_def)
  from try_hash_resize_ok [OF res assms(2) this] show ?thesis .
qed

lemma tbl_ok_remove1:
  assumes "tbl_ok cfg bits tbl"
  shows "tbl_ok cfg bits (tbl[j := remove1 bc (tbl ! j)])"
  unfolding tbl_ok_def
proof (intro allI impI ballI)
  fix i x
  assume i: "i < length (tbl[j := remove1 bc (tbl ! j)])"
    and x: "x \<in> set (tbl[j := remove1 bc (tbl ! j)] ! i)"
  have sub: "\<And>x l. x \<in> set (remove1 bc l) \<Longrightarrow> x \<in> set l"
    by (metis notin_set_remove1)
  from i have i': "i < length tbl" by simp
  have "x \<in> set (tbl ! i)"
  proof (cases "i = j")
    case True
    with x i' show ?thesis by (auto dest: sub)
  next
    case False
    with x i' show ?thesis by simp
  qed
  with assms i' show "hash_ptr cfg (buf_addr x) bits = i"
    by (simp add: tbl_ok_def)
qed

lemma yank_bufctl_ok:
  assumes "yank_bufctl cfg cp buf = Inr (bc, cp')" and "hash_ok cfg cp"
  shows "hash_ok cfg cp'"
proof -
  let ?i = "hash_ptr cfg buf (nr_hash_bits (hh cp))"
  from assms(1) have cp': "cp' = cp\<lparr>alloc_hash := (alloc_hash cp)[?i := remove1 bc (alloc_hash cp ! ?i)]\<rparr>"
    by (auto simp: yank_bufctl_def Let_def split: if_splits option.splits)
  from tbl_ok_remove1 [OF assms(2) [unfolded hash_ok_def]] show ?thesis
    by (simp add: cp' hash_ok_def)
qed

lemma hash_ok_frame:
  "alloc_hash cp' = alloc_hash cp \<Longrightarrow> hh cp' = hh cp \<Longrightarrow> hash_ok cfg cp' = hash_ok cfg cp"
  by (simp add: hash_ok_def)

lemma bufctl_freelist_init_rev:
  "bufctl_freelist_init n buf sz a l =
     rev (map (\<lambda>i. \<lparr>buf_addr = buf + i * sz, my_slab = a\<rparr>) [0..<n]) @ l"
proof (induction n buf sz a l rule: bufctl_freelist_init.induct)
  case (1 buf sz a_slab l)
  then show ?case by simp
next
  case (2 n buf sz a_slab l)
  have "map (\<lambda>i. \<lparr>buf_addr = buf + i * sz, my_slab = a_slab\<rparr>) [0..<Suc n]
      = \<lparr>buf_addr = buf, my_slab = a_slab\<rparr>
        # map (\<lambda>i. \<lparr>buf_addr = buf + sz + i * sz, my_slab = a_slab\<rparr>) [0..<n]"
    by (simp only: upt_conv_Cons [of 0 "Suc n"] map_Suc_upt [symmetric]) (simp add: add.assoc)
  with 2 show ?case by simp
qed

lemma bufctl_freelist_init_length: "length (bufctl_freelist_init n buf sz a []) = n"
  by (simp add: bufctl_freelist_init_rev)

lemma bufctl_freelist_init_distinct:
  assumes "0 < sz"
  shows "distinct (bufctl_freelist_init n buf sz a [])"
proof -
  from assms have "inj_on (\<lambda>i. \<lparr>buf_addr = buf + i * sz, my_slab = a\<rparr>) (set [0..<n])"
    by (auto intro!: inj_onI)
  then show ?thesis
    by (simp add: bufctl_freelist_init_rev distinct_map)
qed

lemma bufctl_freelist_init_mem:
  assumes "bc \<in> set (bufctl_freelist_init n buf sz a [])"
  shows "my_slab bc = a" and "\<exists>i < n. buf_addr bc = buf + i * sz"
  using assms by (auto simp: bufctl_freelist_init_set)

lemma small_freelist_set:
  "set (small_freelist n buf sz) = (\<lambda>i. buf + i * sz) ` {..n}"
proof (induction n buf sz rule: small_freelist.induct)
  case (1 buf sz)
  then show ?case by simp
next
  case (2 n buf sz)
  have "(\<lambda>i. buf + i * sz) ` {..Suc n} = insert buf ((\<lambda>i. buf + sz + i * sz) ` {..n})"
    by (auto simp: atMost_Suc_eq_insert_0 image_image add.assoc)
  with 2 show ?case by simp
qed

lemma set_move:
  "a \<in> set l \<Longrightarrow> insert a (set (remove1 a l)) = set l"
proof -
  assume a: "a \<in> set l"
  have "\<And>x. x \<in> set (remove1 a l) \<Longrightarrow> x \<in> set l"
    by (metis notin_set_remove1)
  moreover have "\<And>x. x \<in> set l \<Longrightarrow> x \<noteq> a \<Longrightarrow> x \<in> set (remove1 a l)"
    by (simp add: in_set_remove1)
  ultimately show ?thesis using a by blast
qed

subsection \<open>What the steps of the slab back-end change\<close>

lemma account_fields:
  assumes ac: "alloc_account cp a = Inr cp3" and s: "slabs cp a = Some s"
    and pa: "a \<in> set (partial_slab_list cp)"
  shows "slabs cp3 = (slabs cp)(a \<mapsto> s\<lparr>num_busy_obj := num_busy_obj s + 1\<rparr>)"
    and "alloc_hash cp3 = alloc_hash cp" and "hh cp3 = hh cp"
    and "set (all_slabs cp3) = set (all_slabs cp)" and "same_frame cp cp3"
    and "nr_cur_alloc cp3 = nr_cur_alloc cp + 1"
    and "if num_busy_obj s + 1 = num_total_obj s then a \<in> set (full_slab_list cp3)
         else a \<in> set (partial_slab_list cp3)"
proof -
  from alloc_account_cases [OF ac] s have
    c3: "(num_busy_obj s + 1 = num_total_obj s
        \<and> cp3 = cp\<lparr>slabs := (slabs cp)(a \<mapsto> s\<lparr>num_busy_obj := num_busy_obj s + 1\<rparr>),
                   partial_slab_list := remove1 a (partial_slab_list cp),
                   full_slab_list := a # full_slab_list cp,
                   nr_cur_alloc := nr_cur_alloc cp + 1\<rparr>)
      \<or> (num_busy_obj s + 1 \<noteq> num_total_obj s
        \<and> cp3 = cp\<lparr>slabs := (slabs cp)(a \<mapsto> s\<lparr>num_busy_obj := num_busy_obj s + 1\<rparr>),
                   nr_cur_alloc := nr_cur_alloc cp + 1\<rparr>)"
    by (elim exE conjE disjE) simp_all
  have "slabs cp3 = (slabs cp)(a \<mapsto> s\<lparr>num_busy_obj := num_busy_obj s + 1\<rparr>)
    \<and> alloc_hash cp3 = alloc_hash cp \<and> hh cp3 = hh cp
    \<and> set (all_slabs cp3) = set (all_slabs cp) \<and> same_frame cp cp3
    \<and> nr_cur_alloc cp3 = nr_cur_alloc cp + 1
    \<and> (if num_busy_obj s + 1 = num_total_obj s then a \<in> set (full_slab_list cp3)
         else a \<in> set (partial_slab_list cp3))"
    using c3
  proof (elim disjE conjE)
    assume e: "num_busy_obj s + 1 = num_total_obj s"
      and cp3: "cp3 = cp\<lparr>slabs := (slabs cp)(a \<mapsto> s\<lparr>num_busy_obj := num_busy_obj s + 1\<rparr>),
                   partial_slab_list := remove1 a (partial_slab_list cp),
                   full_slab_list := a # full_slab_list cp,
                   nr_cur_alloc := nr_cur_alloc cp + 1\<rparr>"
    show ?thesis using set_move [OF pa] e by (auto simp: cp3 same_frame_def all_slabs_def)
  next
    assume e: "num_busy_obj s + 1 \<noteq> num_total_obj s"
      and cp3: "cp3 = cp\<lparr>slabs := (slabs cp)(a \<mapsto> s\<lparr>num_busy_obj := num_busy_obj s + 1\<rparr>),
                   nr_cur_alloc := nr_cur_alloc cp + 1\<rparr>"
    show ?thesis using pa e by (simp add: cp3 same_frame_def all_slabs_def)
  qed
  then show "slabs cp3 = (slabs cp)(a \<mapsto> s\<lparr>num_busy_obj := num_busy_obj s + 1\<rparr>)"
    and "alloc_hash cp3 = alloc_hash cp" and "hh cp3 = hh cp"
    and "set (all_slabs cp3) = set (all_slabs cp)" and "same_frame cp cp3"
    and "nr_cur_alloc cp3 = nr_cur_alloc cp + 1"
    and "if num_busy_obj s + 1 = num_total_obj s then a \<in> set (full_slab_list cp3)
         else a \<in> set (partial_slab_list cp3)"
    by simp_all
qed

lemma take_account_bufctl:
  assumes tk: "alloc_take_obj cfg e cp1 a = Inr (retval, cp2, evs2)"
    and ac: "alloc_account cp2 a = Inr cp3"
    and u: "use_bufctls cp1" and cfg: "config_ok cfg"
    and len: "nr_hash_lists (hh cp1) = length (alloc_hash cp1)" and ho: "hash_ok cfg cp1"
    and pa: "a \<in> set (partial_slab_list cp1)"
  shows "\<exists>s a_bufctl rest. slabs cp1 a = Some s \<and> bufctl_freelist s = a_bufctl # rest
     \<and> retval = buf_addr a_bufctl
     \<and> slabs cp3 = (slabs cp1)(a \<mapsto> s\<lparr>bufctl_freelist := rest, num_busy_obj := num_busy_obj s + 1\<rparr>)
     \<and> mset (hash_bufctls cp3) = add_mset a_bufctl (mset (hash_bufctls cp1))
     \<and> hash_ok cfg cp3 \<and> nr_hash_lists (hh cp3) = length (alloc_hash cp3)
     \<and> set (all_slabs cp3) = set (all_slabs cp1) \<and> same_frame cp1 cp3
     \<and> nr_cur_alloc cp3 = nr_cur_alloc cp1 + 1
     \<and> (if num_busy_obj s + 1 = num_total_obj s then a \<in> set (full_slab_list cp3)
         else a \<in> set (partial_slab_list cp3))"
proof -
  from alloc_take_obj_cases [OF tk] u obtain s a_bufctl rest where
    s: "slabs cp1 a = Some s" and fl: "bufctl_freelist s = a_bufctl # rest"
    and rv: "retval = buf_addr a_bufctl"
    and tr: "track_alloc cfg e (cp1\<lparr>slabs := (slabs cp1)(a \<mapsto> s\<lparr>bufctl_freelist := rest\<rparr>)\<rparr>) a_bufctl
              = Inr (cp2, evs2)"
    by blast
  let ?cpx = "cp1\<lparr>slabs := (slabs cp1)(a \<mapsto> s\<lparr>bufctl_freelist := rest\<rparr>)\<rparr>"
  have lenx: "nr_hash_lists (hh ?cpx) = length (alloc_hash ?cpx)" using len by simp
  have hox: "hash_ok cfg ?cpx" using ho by (simp add: hash_ok_def)
  have hbx: "hash_bufctls ?cpx = hash_bufctls cp1" by (simp add: hash_bufctls_def)
  note T = track_alloc_Inr [OF tr cfg lenx]
  from T(3) obtain t st h where cp2: "cp2 = ?cpx\<lparr>alloc_hash := t, alloc_hash_is_static := st, hh := h\<rparr>"
    by blast
  from track_alloc_ok [OF tr cfg hox] have ho2: "hash_ok cfg cp2" .
  have s2: "slabs cp2 a = Some (s\<lparr>bufctl_freelist := rest\<rparr>)" by (simp add: cp2)
  have f2: "slabs cp2 = (slabs cp1)(a \<mapsto> s\<lparr>bufctl_freelist := rest\<rparr>)"
    "partial_slab_list cp2 = partial_slab_list cp1" "full_slab_list cp2 = full_slab_list cp1"
    "empty_slab_list cp2 = empty_slab_list cp1" "nr_cur_alloc cp2 = nr_cur_alloc cp1"
    "same_frame cp1 cp2"
    by (simp_all add: cp2 same_frame_def)
  have pa2: "a \<in> set (partial_slab_list cp2)" using pa by (simp add: f2)
  note A = account_fields [OF ac s2 pa2]
  have f3: "slabs cp3 = (slabs cp1)(a \<mapsto> s\<lparr>bufctl_freelist := rest, num_busy_obj := num_busy_obj s + 1\<rparr>)"
    using A(1) by (simp add: f2)
  have l3: "set (all_slabs cp3) = set (all_slabs cp1)"
    using A(4) by (simp add: all_slabs_def f2)
  have sf: "same_frame cp1 cp3" using A(5) f2(6) by (simp add: same_frame_def)
  have nc: "nr_cur_alloc cp3 = nr_cur_alloc cp1 + 1" using A(6) by (simp add: f2)
  have m3: "if num_busy_obj s + 1 = num_total_obj s then a \<in> set (full_slab_list cp3)
         else a \<in> set (partial_slab_list cp3)"
    using A(7) by simp
  have h3: "mset (hash_bufctls cp3) = add_mset a_bufctl (mset (hash_bufctls cp1))"
    using T(1) by (simp add: hash_bufctls_def A(2) hbx [unfolded hash_bufctls_def])
  have o3: "hash_ok cfg cp3" using ho2 by (simp add: hash_ok_def A(2,3))
  have n3: "nr_hash_lists (hh cp3) = length (alloc_hash cp3)" using T(2) by (simp add: A(2,3))
  show ?thesis
    apply (rule exI [of _ s], rule exI [of _ a_bufctl], rule exI [of _ rest])
    using s fl rv f3 h3 o3 n3 l3 sf nc m3 by simp
qed

lemma take_account_embedded:
  assumes tk: "alloc_take_obj cfg e cp1 a = Inr (retval, cp2, evs2)"
    and ac: "alloc_account cp2 a = Inr cp3"
    and u: "\<not> use_bufctls cp1"
    and pa: "a \<in> set (partial_slab_list cp1)"
  shows "\<exists>s rest. slabs cp1 a = Some s \<and> free_small_obj s = retval # rest \<and> evs2 = []
     \<and> slabs cp3 = (slabs cp1)(a \<mapsto> s\<lparr>free_small_obj := rest, num_busy_obj := num_busy_obj s + 1\<rparr>)
     \<and> alloc_hash cp3 = alloc_hash cp1 \<and> hh cp3 = hh cp1
     \<and> set (all_slabs cp3) = set (all_slabs cp1) \<and> same_frame cp1 cp3
     \<and> nr_cur_alloc cp3 = nr_cur_alloc cp1 + 1
     \<and> (if num_busy_obj s + 1 = num_total_obj s then a \<in> set (full_slab_list cp3)
         else a \<in> set (partial_slab_list cp3))"
proof -
  from alloc_take_obj_cases [OF tk] u obtain s rest where
    s: "slabs cp1 a = Some s" and fl: "free_small_obj s = retval # rest" and ev: "evs2 = []"
    and cp2: "cp2 = cp1\<lparr>slabs := (slabs cp1)(a \<mapsto> s\<lparr>free_small_obj := rest\<rparr>)\<rparr>"
    by blast
  have s2: "slabs cp2 a = Some (s\<lparr>free_small_obj := rest\<rparr>)" by (simp add: cp2)
  have f2: "slabs cp2 = (slabs cp1)(a \<mapsto> s\<lparr>free_small_obj := rest\<rparr>)"
    "partial_slab_list cp2 = partial_slab_list cp1" "full_slab_list cp2 = full_slab_list cp1"
    "empty_slab_list cp2 = empty_slab_list cp1" "nr_cur_alloc cp2 = nr_cur_alloc cp1"
    "same_frame cp1 cp2" "alloc_hash cp2 = alloc_hash cp1" "hh cp2 = hh cp1"
    by (simp_all add: cp2 same_frame_def)
  have pa2: "a \<in> set (partial_slab_list cp2)" using pa by (simp add: f2)
  note A = account_fields [OF ac s2 pa2]
  have f3: "slabs cp3 = (slabs cp1)(a \<mapsto> s\<lparr>free_small_obj := rest, num_busy_obj := num_busy_obj s + 1\<rparr>)"
    using A(1) by (simp add: f2)
  have l3: "set (all_slabs cp3) = set (all_slabs cp1)"
    using A(4) by (simp add: all_slabs_def f2)
  have sf: "same_frame cp1 cp3" using A(5) f2(6) by (simp add: same_frame_def)
  have nc: "nr_cur_alloc cp3 = nr_cur_alloc cp1 + 1" using A(6) by (simp add: f2)
  have m3: "if num_busy_obj s + 1 = num_total_obj s then a \<in> set (full_slab_list cp3)
         else a \<in> set (partial_slab_list cp3)"
    using A(7) by simp
  show ?thesis
    apply (rule exI [of _ s], rule exI [of _ rest])
    using s fl ev f3 l3 sf nc m3 A(2,3) f2(7,8) by simp
qed

lemma free_lists:
  assumes "(num_busy_obj s1 + 1 = num_total_obj s1 \<and> a \<in> set (full_slab_list cp1)
          \<and> cp' = cp1\<lparr>slabs := (slabs cp1)(a \<mapsto> s1), nr_cur_alloc := nr_cur_alloc cp1 - 1,
                        full_slab_list := remove1 a (full_slab_list cp1),
                        partial_slab_list := a # partial_slab_list cp1\<rparr>)
        \<or> (num_busy_obj s1 + 1 \<noteq> num_total_obj s1 \<and> num_busy_obj s1 = 0 \<and> a \<in> set (partial_slab_list cp1)
          \<and> cp' = cp1\<lparr>slabs := (slabs cp1)(a \<mapsto> s1), nr_cur_alloc := nr_cur_alloc cp1 - 1,
                        partial_slab_list := remove1 a (partial_slab_list cp1),
                        empty_slab_list := a # empty_slab_list cp1\<rparr>)
        \<or> (num_busy_obj s1 + 1 \<noteq> num_total_obj s1 \<and> num_busy_obj s1 \<noteq> 0
          \<and> cp' = cp1\<lparr>slabs := (slabs cp1)(a \<mapsto> s1), nr_cur_alloc := nr_cur_alloc cp1 - 1\<rparr>)"
  shows "slabs cp' = (slabs cp1)(a \<mapsto> s1) \<and> alloc_hash cp' = alloc_hash cp1 \<and> hh cp' = hh cp1
     \<and> set (all_slabs cp') = set (all_slabs cp1) \<and> same_frame cp1 cp'
     \<and> nr_cur_alloc cp' = nr_cur_alloc cp1 - 1"
  using assms
proof (elim disjE conjE)
  assume a: "a \<in> set (full_slab_list cp1)"
    and cp': "cp' = cp1\<lparr>slabs := (slabs cp1)(a \<mapsto> s1), nr_cur_alloc := nr_cur_alloc cp1 - 1,
                        full_slab_list := remove1 a (full_slab_list cp1),
                        partial_slab_list := a # partial_slab_list cp1\<rparr>"
  show ?thesis using set_move [OF a] by (auto simp: cp' same_frame_def all_slabs_def)
next
  assume a: "a \<in> set (partial_slab_list cp1)"
    and cp': "cp' = cp1\<lparr>slabs := (slabs cp1)(a \<mapsto> s1), nr_cur_alloc := nr_cur_alloc cp1 - 1,
                        partial_slab_list := remove1 a (partial_slab_list cp1),
                        empty_slab_list := a # empty_slab_list cp1\<rparr>"
  show ?thesis using set_move [OF a] by (auto simp: cp' same_frame_def all_slabs_def)
next
  assume cp': "cp' = cp1\<lparr>slabs := (slabs cp1)(a \<mapsto> s1), nr_cur_alloc := nr_cur_alloc cp1 - 1\<rparr>"
  show ?thesis by (simp add: cp' same_frame_def all_slabs_def)
qed

lemma free_bufctl:
  assumes f: "kmem_free_to_slab cfg cp buf = Inr cp'" and u: "use_bufctls cp"
  shows "\<exists>bc s. bc \<in> set (hash_bufctls cp) \<and> buf_addr bc = buf \<and> slabs cp (my_slab bc) = Some s
     \<and> slabs cp' = (slabs cp)(my_slab bc \<mapsto>
          s\<lparr>bufctl_freelist := bc # bufctl_freelist s, num_busy_obj := num_busy_obj s - 1\<rparr>)
     \<and> mset (hash_bufctls cp') = mset (hash_bufctls cp) - {#bc#}
     \<and> length (alloc_hash cp') = length (alloc_hash cp) \<and> hh cp' = hh cp
     \<and> (hash_ok cfg cp \<longrightarrow> hash_ok cfg cp')
     \<and> set (all_slabs cp') = set (all_slabs cp) \<and> same_frame cp cp'
     \<and> nr_cur_alloc cp' = nr_cur_alloc cp - 1"
proof -
  from kmem_free_to_slab_cases [OF f] u obtain cp1 a s s1 bc where
    y: "yank_bufctl cfg cp buf = Inr (bc, cp1)" and a: "a = my_slab bc" and s: "slabs cp1 a = Some s"
    and s1: "s1 = s\<lparr>bufctl_freelist := bc # bufctl_freelist s, num_busy_obj := num_busy_obj s - 1\<rparr>"
    and c: "(num_busy_obj s1 + 1 = num_total_obj s1 \<and> a \<in> set (full_slab_list cp1)
          \<and> cp' = cp1\<lparr>slabs := (slabs cp1)(a \<mapsto> s1), nr_cur_alloc := nr_cur_alloc cp1 - 1,
                        full_slab_list := remove1 a (full_slab_list cp1),
                        partial_slab_list := a # partial_slab_list cp1\<rparr>)
        \<or> (num_busy_obj s1 + 1 \<noteq> num_total_obj s1 \<and> num_busy_obj s1 = 0 \<and> a \<in> set (partial_slab_list cp1)
          \<and> cp' = cp1\<lparr>slabs := (slabs cp1)(a \<mapsto> s1), nr_cur_alloc := nr_cur_alloc cp1 - 1,
                        partial_slab_list := remove1 a (partial_slab_list cp1),
                        empty_slab_list := a # empty_slab_list cp1\<rparr>)
        \<or> (num_busy_obj s1 + 1 \<noteq> num_total_obj s1 \<and> num_busy_obj s1 \<noteq> 0
          \<and> cp' = cp1\<lparr>slabs := (slabs cp1)(a \<mapsto> s1), nr_cur_alloc := nr_cur_alloc cp1 - 1\<rparr>)"
    by blast
  note Y = yank_bufctl_Inr [OF y]
  from Y(5) obtain t where cp1: "cp1 = cp\<lparr>alloc_hash := t\<rparr>" by blast
  note L = free_lists [OF c]
  have f1: "slabs cp1 = slabs cp" "hh cp1 = hh cp" "all_slabs cp1 = all_slabs cp" "same_frame cp cp1"
    "nr_cur_alloc cp1 = nr_cur_alloc cp"
    by (simp_all add: cp1 all_slabs_def same_frame_def)
  have hb: "hash_bufctls cp' = hash_bufctls cp1" using L by (simp add: hash_bufctls_def)
  have hm: "mset (hash_bufctls cp') = mset (hash_bufctls cp) - {#bc#}"
    using Y(3) by (simp add: hb)
  have ln: "length (alloc_hash cp') = length (alloc_hash cp)" using L Y(4) by simp
  have ok: "hash_ok cfg cp \<longrightarrow> hash_ok cfg cp'"
    using yank_bufctl_ok [OF y] L by (simp add: hash_ok_def)
  have sf: "same_frame cp cp'" using L f1(4) by (simp add: same_frame_def)
  have sl: "slabs cp' = (slabs cp)(my_slab bc \<mapsto>
          s\<lparr>bufctl_freelist := bc # bufctl_freelist s, num_busy_obj := num_busy_obj s - 1\<rparr>)"
    using L by (simp add: a s1 f1)
  have s': "slabs cp (my_slab bc) = Some s" using s by (simp add: a f1)
  have rest: "hh cp' = hh cp" "set (all_slabs cp') = set (all_slabs cp)"
    "nr_cur_alloc cp' = nr_cur_alloc cp - 1"
    using L by (simp_all add: f1)
  show ?thesis
    apply (rule exI [of _ bc], rule exI [of _ s])
    using Y(1,2) s' sl hm ln ok sf rest by simp
qed

lemma free_embedded:
  assumes f: "kmem_free_to_slab cfg cp buf = Inr cp'" and u: "\<not> use_bufctls cp"
  shows "\<exists>s. slabs cp (ROUNDDOWN buf (PGSIZE cfg) + PGSIZE cfg - sizeof_kmem_slab cfg) = Some s
     \<and> slabs cp' = (slabs cp)(ROUNDDOWN buf (PGSIZE cfg) + PGSIZE cfg - sizeof_kmem_slab cfg \<mapsto>
          s\<lparr>free_small_obj := buf # free_small_obj s, num_busy_obj := num_busy_obj s - 1\<rparr>)
     \<and> alloc_hash cp' = alloc_hash cp \<and> hh cp' = hh cp
     \<and> set (all_slabs cp') = set (all_slabs cp) \<and> same_frame cp cp'
     \<and> nr_cur_alloc cp' = nr_cur_alloc cp - 1"
proof -
  from kmem_free_to_slab_cases [OF f] u obtain cp1 a s s1 where
    cp1: "cp1 = cp" and a: "a = ROUNDDOWN buf (PGSIZE cfg) + PGSIZE cfg - sizeof_kmem_slab cfg"
    and s: "slabs cp a = Some s"
    and s1: "s1 = s\<lparr>free_small_obj := buf # free_small_obj s, num_busy_obj := num_busy_obj s - 1\<rparr>"
    and c: "(num_busy_obj s1 + 1 = num_total_obj s1 \<and> a \<in> set (full_slab_list cp1)
          \<and> cp' = cp1\<lparr>slabs := (slabs cp1)(a \<mapsto> s1), nr_cur_alloc := nr_cur_alloc cp1 - 1,
                        full_slab_list := remove1 a (full_slab_list cp1),
                        partial_slab_list := a # partial_slab_list cp1\<rparr>)
        \<or> (num_busy_obj s1 + 1 \<noteq> num_total_obj s1 \<and> num_busy_obj s1 = 0 \<and> a \<in> set (partial_slab_list cp1)
          \<and> cp' = cp1\<lparr>slabs := (slabs cp1)(a \<mapsto> s1), nr_cur_alloc := nr_cur_alloc cp1 - 1,
                        partial_slab_list := remove1 a (partial_slab_list cp1),
                        empty_slab_list := a # empty_slab_list cp1\<rparr>)
        \<or> (num_busy_obj s1 + 1 \<noteq> num_total_obj s1 \<and> num_busy_obj s1 \<noteq> 0
          \<and> cp' = cp1\<lparr>slabs := (slabs cp1)(a \<mapsto> s1), nr_cur_alloc := nr_cur_alloc cp1 - 1\<rparr>)"
    by blast
  note L = free_lists [OF c]
  show ?thesis
    apply (rule exI [of _ s])
    using s L unfolding a s1 cp1 by simp
qed

lemma pick_summary:
  assumes p: "alloc_pick_slab cfg e cp fl = Inr (a, cp1, evs)"
  shows "a \<in> set (partial_slab_list cp1) \<and> same_frame cp cp1 \<and> alloc_hash cp1 = alloc_hash cp
     \<and> hh cp1 = hh cp \<and> nr_cur_alloc cp1 = nr_cur_alloc cp
     \<and> ((slabs cp1 = slabs cp \<and> set (all_slabs cp1) = set (all_slabs cp)
          \<and> (partial_slab_list cp \<noteq> [] \<or> empty_slab_list cp \<noteq> []))
        \<or> (\<not> use_bufctls cp \<and> partial_slab_list cp = [] \<and> empty_slab_list cp = []
            \<and> a = arena_alloc e + PGSIZE cfg - sizeof_kmem_slab cfg
            \<and> obj_size cp \<noteq> 0 \<and> (PGSIZE cfg - sizeof_kmem_slab cfg) div obj_size cp \<noteq> 0
            \<and> slabs cp1 = (slabs cp)(a \<mapsto>
                       \<lparr>num_busy_obj = 0,
                        num_total_obj = of_nat ((PGSIZE cfg - sizeof_kmem_slab cfg) div obj_size cp),
                        free_small_obj = small_freelist ((PGSIZE cfg - sizeof_kmem_slab cfg) div obj_size cp - 1)
                                           (arena_alloc e) (obj_size cp),
                        bufctl_freelist = []\<rparr>)
            \<and> set (all_slabs cp1) = insert a (set (all_slabs cp)))
        \<or> (use_bufctls cp \<and> partial_slab_list cp = [] \<and> empty_slab_list cp = []
            \<and> a = slab_alloc e \<and> obj_size cp \<noteq> 0
            \<and> slabs cp1 = (slabs cp)(a \<mapsto>
                       \<lparr>num_busy_obj = 0, num_total_obj = of_nat (import_amt cp div obj_size cp),
                        free_small_obj = [],
                        bufctl_freelist = bufctl_freelist_init (import_amt cp div obj_size cp)
                                            (arena_alloc e) (obj_size cp) (slab_alloc e) []\<rparr>)
            \<and> set (all_slabs cp1) = insert a (set (all_slabs cp))))"
  using alloc_pick_slab_cases [OF p]
proof (elim disjE conjE exE)
  fix rest
  assume "partial_slab_list cp = a # rest" "cp1 = cp" "evs = []"
  then show ?thesis by (simp add: same_frame_def)
next
  fix cp0 rest
  assume pe: "partial_slab_list cp = []"
    and g: "if empty_slab_list cp = [] then kmem_cache_grow cfg e cp = Inr (True, cp0, evs)
              else cp0 = cp \<and> evs = []"
    and e0: "empty_slab_list cp0 = a # rest"
    and cp1: "cp1 = cp0\<lparr>empty_slab_list := rest, partial_slab_list := a # partial_slab_list cp0\<rparr>"
  have f1: "slabs cp1 = slabs cp0" "alloc_hash cp1 = alloc_hash cp0" "hh cp1 = hh cp0"
    "nr_cur_alloc cp1 = nr_cur_alloc cp0" "same_frame cp0 cp1" "a \<in> set (partial_slab_list cp1)"
    "set (all_slabs cp1) = set (all_slabs cp0)"
    using e0 by (auto simp: cp1 same_frame_def all_slabs_def)
  show ?thesis
  proof (cases "empty_slab_list cp = []")
    case False
    with g have "cp0 = cp" by simp
    with f1 False show ?thesis by simp
  next
    case True
    with g have gr: "kmem_cache_grow cfg e cp = Inr (True, cp0, evs)" by simp
    from kmem_cache_grow_cases [OF gr] show ?thesis
    proof (elim disjE conjE)
      assume "\<not> True"
      then show ?thesis by simp
    next
      assume u: "\<not> use_bufctls cp" and o: "obj_size cp \<noteq> 0"
        and t: "(PGSIZE cfg - sizeof_kmem_slab cfg) div obj_size cp \<noteq> 0"
        and cp0: "cp0 = cp\<lparr>slabs := (slabs cp)(arena_alloc e + PGSIZE cfg - sizeof_kmem_slab cfg \<mapsto>
                       \<lparr>num_busy_obj = 0,
                        num_total_obj = of_nat ((PGSIZE cfg - sizeof_kmem_slab cfg) div obj_size cp),
                        free_small_obj = small_freelist ((PGSIZE cfg - sizeof_kmem_slab cfg) div obj_size cp - 1)
                                           (arena_alloc e) (obj_size cp),
                        bufctl_freelist = []\<rparr>),
                    empty_slab_list := (arena_alloc e + PGSIZE cfg - sizeof_kmem_slab cfg) # empty_slab_list cp\<rparr>"
      from e0 True have a: "a = arena_alloc e + PGSIZE cfg - sizeof_kmem_slab cfg"
        by (simp add: cp0)
      have f0: "same_frame cp cp0" "alloc_hash cp0 = alloc_hash cp" "hh cp0 = hh cp"
        "nr_cur_alloc cp0 = nr_cur_alloc cp" "set (all_slabs cp0) = insert a (set (all_slabs cp))"
        by (auto simp: cp0 same_frame_def all_slabs_def a)
      have s0: "slabs cp0 = (slabs cp)(a \<mapsto>
                       \<lparr>num_busy_obj = 0,
                        num_total_obj = of_nat ((PGSIZE cfg - sizeof_kmem_slab cfg) div obj_size cp),
                        free_small_obj = small_freelist ((PGSIZE cfg - sizeof_kmem_slab cfg) div obj_size cp - 1)
                                           (arena_alloc e) (obj_size cp),
                        bufctl_freelist = []\<rparr>)"
        by (simp add: cp0 a)
      have sf: "same_frame cp cp1" using f0(1) f1(5) by (simp add: same_frame_def)
      from u pe True a o t s0 f0 f1 sf show ?thesis by simp
    next
      assume u: "use_bufctls cp" and o: "obj_size cp \<noteq> 0"
        and cp0: "cp0 = cp\<lparr>slabs := (slabs cp)(slab_alloc e \<mapsto>
                       \<lparr>num_busy_obj = 0, num_total_obj = of_nat (import_amt cp div obj_size cp),
                        free_small_obj = [],
                        bufctl_freelist = bufctl_freelist_init (import_amt cp div obj_size cp)
                                            (arena_alloc e) (obj_size cp) (slab_alloc e) []\<rparr>),
                    empty_slab_list := slab_alloc e # empty_slab_list cp\<rparr>"
      from e0 True have a: "a = slab_alloc e"
        by (simp add: cp0)
      have f0: "same_frame cp cp0" "alloc_hash cp0 = alloc_hash cp" "hh cp0 = hh cp"
        "nr_cur_alloc cp0 = nr_cur_alloc cp" "set (all_slabs cp0) = insert a (set (all_slabs cp))"
        by (auto simp: cp0 same_frame_def all_slabs_def a)
      have s0: "slabs cp0 = (slabs cp)(a \<mapsto>
                       \<lparr>num_busy_obj = 0, num_total_obj = of_nat (import_amt cp div obj_size cp),
                        free_small_obj = [],
                        bufctl_freelist = bufctl_freelist_init (import_amt cp div obj_size cp)
                                            (arena_alloc e) (obj_size cp) (slab_alloc e) []\<rparr>)"
        by (simp add: cp0 a)
      have sf: "same_frame cp cp1" using f0(1) f1(5) by (simp add: same_frame_def)
      from u pe True a o s0 f0 f1 sf show ?thesis by simp
    qed
  qed
qed

subsection \<open>The slabs of a cache with bufctls\<close>

lemma slab_invI:
  assumes "set (all_slabs kc) = dom (slabs kc)" and "dom reg = dom (slabs kc)"
    and "\<And>bc. bc \<in> set (hash_bufctls kc) \<Longrightarrow> my_slab bc \<in> dom (slabs kc)"
    and "\<And>a s base. slabs kc a = Some s \<Longrightarrow> reg a = Some base \<Longrightarrow>
             mset (bufctl_freelist s) + busy_of kc a
               = mset (bufctl_freelist_init (import_amt kc div obj_size kc) base (obj_size kc) a [])
             \<and> num_total_obj s = of_nat (import_amt kc div obj_size kc)
             \<and> unat (num_busy_obj s) = size (busy_of kc a)
             \<and> base + import_amt kc \<le> SIZE_MAX"
    and "\<And>a a' base base'. reg a = Some base \<Longrightarrow> reg a' = Some base' \<Longrightarrow> a \<noteq> a' \<Longrightarrow>
             base + import_amt kc \<le> base' \<or> base' + import_amt kc \<le> base"
  shows "slab_inv kc reg"
  unfolding slab_inv_def using assms by blast

lemma slab_invD:
  assumes "slab_inv kc reg"
  shows "set (all_slabs kc) = dom (slabs kc)" and "dom reg = dom (slabs kc)"
    and "\<And>bc. bc \<in> set (hash_bufctls kc) \<Longrightarrow> my_slab bc \<in> dom (slabs kc)"
    and "\<And>a s base. slabs kc a = Some s \<Longrightarrow> reg a = Some base \<Longrightarrow>
             mset (bufctl_freelist s) + busy_of kc a
               = mset (bufctl_freelist_init (import_amt kc div obj_size kc) base (obj_size kc) a [])
             \<and> num_total_obj s = of_nat (import_amt kc div obj_size kc)
             \<and> unat (num_busy_obj s) = size (busy_of kc a)
             \<and> base + import_amt kc \<le> SIZE_MAX"
    and "\<And>a a' base base'. reg a = Some base \<Longrightarrow> reg a' = Some base' \<Longrightarrow> a \<noteq> a' \<Longrightarrow>
             base + import_amt kc \<le> base' \<or> base' + import_amt kc \<le> base"
  using assms unfolding slab_inv_def by blast+

lemma busy_of_empty:
  assumes "\<And>bc. bc \<in> set (hash_bufctls kc) \<Longrightarrow> my_slab bc \<noteq> a"
  shows "busy_of kc a = {#}"
proof -
  have "\<And>M :: kmem_bufctl multiset. (\<And>bc. bc \<in># M \<Longrightarrow> my_slab bc \<noteq> a)
          \<Longrightarrow> filter_mset (\<lambda>bc. my_slab bc = a) M = {#}"
  proof -
    fix M :: "kmem_bufctl multiset"
    show "(\<And>bc. bc \<in># M \<Longrightarrow> my_slab bc \<noteq> a) \<Longrightarrow> filter_mset (\<lambda>bc. my_slab bc = a) M = {#}"
      by (induction M) auto
  qed
  with assms show ?thesis by (simp add: busy_of_def)
qed

lemma busy_of_add:
  assumes "mset (hash_bufctls kc') = add_mset bc (mset (hash_bufctls kc))"
  shows "busy_of kc' x = (if my_slab bc = x then add_mset bc (busy_of kc x) else busy_of kc x)"
  using assms by (simp add: busy_of_def)

lemma busy_of_del:
  assumes "mset (hash_bufctls kc') = mset (hash_bufctls kc) - {#bc#}"
  shows "busy_of kc' x = (if my_slab bc = x then busy_of kc x - {#bc#} else busy_of kc x)"
  using assms by (simp add: busy_of_def)

lemma busy_of_mem: "bc \<in> set (hash_bufctls kc) \<Longrightarrow> bc \<in># busy_of kc (my_slab bc)"
  by (simp add: busy_of_def)

lemma total_bound:
  assumes "geometry_ok kc"
  shows "import_amt kc div obj_size kc < 2 ^ 64"
proof -
  have "import_amt kc div obj_size kc \<le> import_amt kc" by simp
  also have "\<dots> \<le> SIZE_MAX" using assms by (simp add: geometry_ok_def)
  also have "\<dots> < 2 ^ 64" by (simp add: SIZE_MAX_def)
  finally show ?thesis .
qed

lemma slab_inv_grow:
  assumes si: "slab_inv cp reg" and u: "a \<notin> set (all_slabs cp)"
    and sl: "slabs cp1 = (slabs cp)(a \<mapsto>
                       \<lparr>num_busy_obj = 0, num_total_obj = of_nat (import_amt cp div obj_size cp),
                        free_small_obj = [],
                        bufctl_freelist = bufctl_freelist_init (import_amt cp div obj_size cp)
                                            base (obj_size cp) a []\<rparr>)"
    and al: "set (all_slabs cp1) = insert a (set (all_slabs cp))"
    and hb: "hash_bufctls cp1 = hash_bufctls cp" and sf: "same_frame cp cp1"
    and bd: "base + import_amt cp \<le> SIZE_MAX"
    and dj: "\<And>a' base'. reg a' = Some base' \<Longrightarrow>
                 base + import_amt cp \<le> base' \<or> base' + import_amt cp \<le> base"
  shows "slab_inv cp1 (reg(a \<mapsto> base))"
proof (rule slab_invI)
  note D = slab_invD [OF si]
  from sf have fr: "import_amt cp1 = import_amt cp" "obj_size cp1 = obj_size cp"
    by (simp_all add: same_frame_def)
  from u D(1) have an: "a \<notin> dom (slabs cp)" by simp
  have bo: "\<And>x. busy_of cp1 x = busy_of cp x" by (simp add: busy_of_def hb)
  have b0: "busy_of cp a = {#}"
  proof (rule busy_of_empty)
    fix bc assume "bc \<in> set (hash_bufctls cp)"
    from D(3) [OF this] an show "my_slab bc \<noteq> a" by auto
  qed
  show "set (all_slabs cp1) = dom (slabs cp1)" using D(1) by (simp add: al sl)
  show "dom (reg(a \<mapsto> base)) = dom (slabs cp1)" using D(2) by (simp add: sl)
  show "my_slab bc \<in> dom (slabs cp1)" if "bc \<in> set (hash_bufctls cp1)" for bc
    using D(3) [of bc] that by (simp add: hb sl)
  show "mset (bufctl_freelist s) + busy_of cp1 x
               = mset (bufctl_freelist_init (import_amt cp1 div obj_size cp1) b (obj_size cp1) x [])
             \<and> num_total_obj s = of_nat (import_amt cp1 div obj_size cp1)
             \<and> unat (num_busy_obj s) = size (busy_of cp1 x)
             \<and> b + import_amt cp1 \<le> SIZE_MAX"
    if s: "slabs cp1 x = Some s" and r: "(reg(a \<mapsto> base)) x = Some b" for x s b
  proof (cases "x = a")
    case True
    with s have s': "s = \<lparr>num_busy_obj = 0, num_total_obj = of_nat (import_amt cp div obj_size cp),
                        free_small_obj = [],
                        bufctl_freelist = bufctl_freelist_init (import_amt cp div obj_size cp)
                                            base (obj_size cp) a []\<rparr>"
      by (simp add: sl)
    from True r have b: "b = base" by simp
    from bd show ?thesis by (simp add: True b s' fr bo b0)
  next
    case False
    with s r D(4) [of x s b] show ?thesis by (simp add: sl fr bo)
  qed
  show "b + import_amt cp1 \<le> b' \<or> b' + import_amt cp1 \<le> b"
    if "(reg(a \<mapsto> base)) x = Some b" "(reg(a \<mapsto> base)) x' = Some b'" "x \<noteq> x'" for x x' b b'
    using that D(5) [of x b x' b'] dj [of x' b'] dj [of x b]
    by (auto simp: fr split: if_splits)
qed

lemma slab_inv_take:
  assumes si: "slab_inv cp1 reg" and g: "geometry_ok cp1"
    and s: "slabs cp1 a = Some s" and fl: "bufctl_freelist s = bc # rest"
    and sl: "slabs cp3 = (slabs cp1)(a \<mapsto> s\<lparr>bufctl_freelist := rest, num_busy_obj := num_busy_obj s + 1\<rparr>)"
    and hm: "mset (hash_bufctls cp3) = add_mset bc (mset (hash_bufctls cp1))"
    and al: "set (all_slabs cp3) = set (all_slabs cp1)" and sf: "same_frame cp1 cp3"
  shows "slab_inv cp3 reg" and "my_slab bc = a"
proof -
  note D = slab_invD [OF si]
  from sf have fr: "import_amt cp3 = import_amt cp1" "obj_size cp3 = obj_size cp1"
    by (simp_all add: same_frame_def)
  from s D(2) obtain base where r: "reg a = Some base" by (auto simp: dom_def)
  note Da = D(4) [OF s r]
  have "bc \<in># mset (bufctl_freelist s) + busy_of cp1 a" by (simp add: fl)
  with Da have "bc \<in> set (bufctl_freelist_init (import_amt cp1 div obj_size cp1) base (obj_size cp1) a [])"
    by (simp only: set_mset_mset [symmetric])
  from bufctl_freelist_init_mem(1) [OF this] show ms: "my_slab bc = a" .
  have dm: "dom (slabs cp3) = dom (slabs cp1)" using s by (auto simp: sl)
  have hs: "set (hash_bufctls cp3) = insert bc (set (hash_bufctls cp1))"
    using hm by (metis set_mset_add_mset_insert set_mset_mset)
  have sz: "Suc (length rest) + size (busy_of cp1 a) = import_amt cp1 div obj_size cp1"
  proof -
    from Da have "size (mset (bufctl_freelist s) + busy_of cp1 a)
        = size (mset (bufctl_freelist_init (import_amt cp1 div obj_size cp1) base (obj_size cp1) a []))"
      by simp
    then show ?thesis by (simp add: fl bufctl_freelist_init_length)
  qed
  have un: "unat (num_busy_obj s + 1) = Suc (size (busy_of cp1 a))"
  proof -
    from sz total_bound [OF g] have "unat (num_busy_obj s) + 1 < 2 ^ 64"
      using Da by simp
    then have "unat (num_busy_obj s) + unat (1 :: 64 word) < 2 ^ LENGTH(64)" by simp
    then have "unat (num_busy_obj s + 1) = unat (num_busy_obj s) + unat (1 :: 64 word)"
      by (simp only: unat_add_lem)
    with Da show ?thesis by simp
  qed
  show "slab_inv cp3 reg"
  proof (rule slab_invI)
    show "set (all_slabs cp3) = dom (slabs cp3)" using D(1) by (simp add: al dm)
    show "dom reg = dom (slabs cp3)" using D(2) by (simp add: dm)
    show "my_slab x \<in> dom (slabs cp3)" if "x \<in> set (hash_bufctls cp3)" for x
      using that D(3) [of x] s ms by (auto simp: hs dm)
    show "mset (bufctl_freelist s') + busy_of cp3 x
               = mset (bufctl_freelist_init (import_amt cp3 div obj_size cp3) b (obj_size cp3) x [])
             \<and> num_total_obj s' = of_nat (import_amt cp3 div obj_size cp3)
             \<and> unat (num_busy_obj s') = size (busy_of cp3 x)
             \<and> b + import_amt cp3 \<le> SIZE_MAX"
      if s': "slabs cp3 x = Some s'" and r': "reg x = Some b" for x s' b
    proof (cases "x = a")
      case True
      with r r' have b: "b = base" by simp
      from True s' have s'': "s' = s\<lparr>bufctl_freelist := rest, num_busy_obj := num_busy_obj s + 1\<rparr>"
        by (simp add: sl)
      from Da un show ?thesis
        by (simp add: True b s'' fr busy_of_add [OF hm] ms fl)
    next
      case False
      with s' have "slabs cp1 x = Some s'" by (simp add: sl)
      from D(4) [OF this r'] False show ?thesis
        by (simp add: fr busy_of_add [OF hm] ms)
    qed
    show "b + import_amt cp3 \<le> b' \<or> b' + import_amt cp3 \<le> b"
      if "reg x = Some b" "reg x' = Some b'" "x \<noteq> x'" for x x' b b'
      using that D(5) [of x b x' b'] by (simp add: fr)
  qed
qed

lemma slab_inv_free:
  assumes si: "slab_inv cp reg"
    and bc: "bc \<in> set (hash_bufctls cp)" and s: "slabs cp (my_slab bc) = Some s"
    and sl: "slabs cp' = (slabs cp)(my_slab bc \<mapsto>
          s\<lparr>bufctl_freelist := bc # bufctl_freelist s, num_busy_obj := num_busy_obj s - 1\<rparr>)"
    and hm: "mset (hash_bufctls cp') = mset (hash_bufctls cp) - {#bc#}"
    and al: "set (all_slabs cp') = set (all_slabs cp)" and sf: "same_frame cp cp'"
  shows "slab_inv cp' reg"
proof (rule slab_invI)
  note D = slab_invD [OF si]
  from sf have fr: "import_amt cp' = import_amt cp" "obj_size cp' = obj_size cp"
    by (simp_all add: same_frame_def)
  have dm: "dom (slabs cp') = dom (slabs cp)" using s by (auto simp: sl)
  have hs: "set (hash_bufctls cp') \<subseteq> set (hash_bufctls cp)"
  proof
    fix x assume "x \<in> set (hash_bufctls cp')"
    then have "x \<in># mset (hash_bufctls cp) - {#bc#}" by (simp add: hm [symmetric])
    then show "x \<in> set (hash_bufctls cp)" by (auto dest: in_diffD)
  qed
  note bm = busy_of_mem [OF bc]
  show "set (all_slabs cp') = dom (slabs cp')" using D(1) by (simp add: al dm)
  show "dom reg = dom (slabs cp')" using D(2) by (simp add: dm)
  show "my_slab x \<in> dom (slabs cp')" if "x \<in> set (hash_bufctls cp')" for x
    using that D(3) [of x] hs by (auto simp: dm)
  show "mset (bufctl_freelist s') + busy_of cp' x
               = mset (bufctl_freelist_init (import_amt cp' div obj_size cp') b (obj_size cp') x [])
             \<and> num_total_obj s' = of_nat (import_amt cp' div obj_size cp')
             \<and> unat (num_busy_obj s') = size (busy_of cp' x)
             \<and> b + import_amt cp' \<le> SIZE_MAX"
    if s': "slabs cp' x = Some s'" and r': "reg x = Some b" for x s' b
  proof (cases "x = my_slab bc")
    case True
    from True s' have s'': "s' = s\<lparr>bufctl_freelist := bc # bufctl_freelist s, num_busy_obj := num_busy_obj s - 1\<rparr>"
      by (simp add: sl)
    from r' True have r: "reg (my_slab bc) = Some b" by simp
    note Da = D(4) [OF s r]
    from bm have sz: "size (busy_of cp (my_slab bc) - {#bc#}) = size (busy_of cp (my_slab bc)) - 1"
      by (simp add: size_Diff_singleton)
    from bm have "size (busy_of cp (my_slab bc)) \<noteq> 0" by auto
    with Da have "num_busy_obj s \<noteq> 0" by auto
    then have un: "unat (num_busy_obj s - 1) = unat (num_busy_obj s) - 1"
      by (rule unat_minus_one)
    from Da bm have bi: "bc \<in># mset (bufctl_freelist_init (import_amt cp div obj_size cp) b (obj_size cp) (my_slab bc) [])"
      by (metis union_iff)
    from Da un sz bm bi show ?thesis
      by (simp add: True s'' fr busy_of_del [OF hm])
  next
    case False
    with s' have "slabs cp x = Some s'" by (simp add: sl)
    from D(4) [OF this r'] False show ?thesis
      by (auto simp: fr busy_of_del [OF hm])
  qed
  show "b + import_amt cp' \<le> b' \<or> b' + import_amt cp' \<le> b"
    if "reg x = Some b" "reg x' = Some b'" "x \<noteq> x'" for x x' b b'
    using that D(5) [of x b x' b'] by (simp add: fr)
qed

subsection \<open>The back-end invariant across an allocation and a free\<close>

lemma same_frame_geometry:
  assumes "same_frame cp cp'"
  shows "geometry_ok cp' = geometry_ok cp" "import_amt cp' = import_amt cp" "obj_size cp' = obj_size cp"
  using assms by (simp_all add: same_frame_def geometry_ok_def use_bufctls_def)

lemma in_page:
  assumes "page mod P = 0" and "k < P"
  shows "ROUNDDOWN (page + k) P = page"
proof -
  from assms have "(page + k) mod P = k"
    by (metis add_cancel_left_left mod_add_left_eq mod_less)
  then show ?thesis by (simp add: ROUNDDOWN_def)
qed

lemma page_inv_grow:
  assumes pi: "page_inv cfg cp"
    and sl: "slabs cp1 = (slabs cp)(page + PGSIZE cfg - sizeof_kmem_slab cfg \<mapsto>
                       \<lparr>num_busy_obj = 0,
                        num_total_obj = of_nat ((PGSIZE cfg - sizeof_kmem_slab cfg) div obj_size cp),
                        free_small_obj = small_freelist ((PGSIZE cfg - sizeof_kmem_slab cfg) div obj_size cp - 1)
                                           page (obj_size cp),
                        bufctl_freelist = []\<rparr>)"
    and o: "obj_size cp \<noteq> 0" and t: "(PGSIZE cfg - sizeof_kmem_slab cfg) div obj_size cp \<noteq> 0"
    and al: "page mod PGSIZE cfg = 0"
  shows "page_inv cfg cp1"
  unfolding page_inv_def
proof (intro allI impI ballI)
  fix a s b
  assume s: "slabs cp1 a = Some s" and b: "b \<in> set (free_small_obj s)"
  let ?T = "(PGSIZE cfg - sizeof_kmem_slab cfg) div obj_size cp"
  show "ROUNDDOWN b (PGSIZE cfg) + PGSIZE cfg - sizeof_kmem_slab cfg = a"
  proof (cases "a = page + PGSIZE cfg - sizeof_kmem_slab cfg")
    case False
    with s have "slabs cp a = Some s" by (simp add: sl)
    with pi b show ?thesis by (simp add: page_inv_def)
  next
    case True
    with s have "free_small_obj s = small_freelist (?T - 1) page (obj_size cp)"
      by (auto simp: sl)
    with b obtain i where i: "i \<le> ?T - 1" and bi: "b = page + i * obj_size cp"
      by (auto simp: small_freelist_set)
    from i t have "Suc i \<le> ?T" by simp
    then have "Suc i * obj_size cp \<le> ?T * obj_size cp" by (rule mult_le_mono1)
    also have "\<dots> \<le> PGSIZE cfg - sizeof_kmem_slab cfg" by simp
    finally have "i * obj_size cp + obj_size cp \<le> PGSIZE cfg" by simp
    with o have "i * obj_size cp < PGSIZE cfg" by simp
    from in_page [OF al this] show ?thesis by (simp add: bi True)
  qed
qed

lemma page_inv_take:
  assumes pi: "page_inv cfg cp1" and s: "slabs cp1 a = Some s" and fl: "free_small_obj s = retval # rest"
    and sl: "slabs cp3 = (slabs cp1)(a \<mapsto> s\<lparr>free_small_obj := rest, num_busy_obj := num_busy_obj s + 1\<rparr>)"
  shows "page_inv cfg cp3"
    and "ROUNDDOWN retval (PGSIZE cfg) + PGSIZE cfg - sizeof_kmem_slab cfg = a"
proof -
  from pi s fl show "ROUNDDOWN retval (PGSIZE cfg) + PGSIZE cfg - sizeof_kmem_slab cfg = a"
    by (simp add: page_inv_def)
  show "page_inv cfg cp3"
    unfolding page_inv_def
  proof (intro allI impI ballI)
    fix x s' b
    assume s': "slabs cp3 x = Some s'" and b: "b \<in> set (free_small_obj s')"
    show "ROUNDDOWN b (PGSIZE cfg) + PGSIZE cfg - sizeof_kmem_slab cfg = x"
    proof (cases "x = a")
      case True
      with s' b have "b \<in> set (free_small_obj s)" by (auto simp: sl fl)
      with pi s True show ?thesis by (simp add: page_inv_def)
    next
      case False
      with s' have "slabs cp1 x = Some s'" by (simp add: sl)
      with pi b show ?thesis by (simp add: page_inv_def)
    qed
  qed
qed

lemma page_inv_free:
  assumes pi: "page_inv cfg cp"
    and s: "slabs cp (ROUNDDOWN buf (PGSIZE cfg) + PGSIZE cfg - sizeof_kmem_slab cfg) = Some s"
    and sl: "slabs cp' = (slabs cp)(ROUNDDOWN buf (PGSIZE cfg) + PGSIZE cfg - sizeof_kmem_slab cfg \<mapsto>
          s\<lparr>free_small_obj := buf # free_small_obj s, num_busy_obj := num_busy_obj s - 1\<rparr>)"
  shows "page_inv cfg cp'"
  unfolding page_inv_def
proof (intro allI impI ballI)
  fix x s' b
  assume s': "slabs cp' x = Some s'" and b: "b \<in> set (free_small_obj s')"
  show "ROUNDDOWN b (PGSIZE cfg) + PGSIZE cfg - sizeof_kmem_slab cfg = x"
  proof (cases "x = ROUNDDOWN buf (PGSIZE cfg) + PGSIZE cfg - sizeof_kmem_slab cfg")
    case True
    with s' b have "b = buf \<or> b \<in> set (free_small_obj s)" by (auto simp: sl)
    with pi s True show ?thesis by (auto simp: page_inv_def)
  next
    case False
    with s' have "slabs cp x = Some s'" by (simp add: sl)
    with pi b show ?thesis by (simp add: page_inv_def)
  qed
qed

lemma pick_back_inv:
  assumes bi: "back_inv cfg cp reg" and env: "env_ok cfg e cp reg"
    and p: "alloc_pick_slab cfg e cp fl = Inr (a, cp1, evs)"
  shows "back_inv cfg cp1 (note_region e cp cp1 reg)"
proof -
  note P = pick_summary [OF p]
  from P have sf: "same_frame cp cp1" and ah: "alloc_hash cp1 = alloc_hash cp" and hh: "hh cp1 = hh cp"
    by simp_all
  note G = same_frame_geometry [OF sf]
  note U = same_frame_front(3) [OF sf]
  have hb: "hash_bufctls cp1 = hash_bufctls cp" by (simp add: hash_bufctls_def ah)
  have ho: "hash_ok cfg cp1 = hash_ok cfg cp" by (simp add: hash_ok_def ah hh)
  from bi have g: "geometry_ok cp" by (simp add: back_inv_def)
  from P have "(slabs cp1 = slabs cp \<and> set (all_slabs cp1) = set (all_slabs cp))
        \<or> (\<not> use_bufctls cp
            \<and> a = arena_alloc e + PGSIZE cfg - sizeof_kmem_slab cfg
            \<and> obj_size cp \<noteq> 0 \<and> (PGSIZE cfg - sizeof_kmem_slab cfg) div obj_size cp \<noteq> 0
            \<and> slabs cp1 = (slabs cp)(a \<mapsto>
                       \<lparr>num_busy_obj = 0,
                        num_total_obj = of_nat ((PGSIZE cfg - sizeof_kmem_slab cfg) div obj_size cp),
                        free_small_obj = small_freelist ((PGSIZE cfg - sizeof_kmem_slab cfg) div obj_size cp - 1)
                                           (arena_alloc e) (obj_size cp),
                        bufctl_freelist = []\<rparr>))
        \<or> (use_bufctls cp
            \<and> a = slab_alloc e
            \<and> slabs cp1 = (slabs cp)(a \<mapsto>
                       \<lparr>num_busy_obj = 0, num_total_obj = of_nat (import_amt cp div obj_size cp),
                        free_small_obj = [],
                        bufctl_freelist = bufctl_freelist_init (import_amt cp div obj_size cp)
                                            (arena_alloc e) (obj_size cp) (slab_alloc e) []\<rparr>)
            \<and> set (all_slabs cp1) = insert a (set (all_slabs cp)))"
    by blast
  then show ?thesis
  proof (elim disjE conjE)
    assume sl: "slabs cp1 = slabs cp" and al: "set (all_slabs cp1) = set (all_slabs cp)"
    have nr: "note_region e cp cp1 reg = reg" by (simp add: note_region_def al)
    have "slab_inv cp1 reg = slab_inv cp reg"
      by (simp add: slab_inv_def sl al hb G busy_of_def)
    moreover have "page_inv cfg cp1 = page_inv cfg cp" by (simp add: page_inv_def sl)
    ultimately show ?thesis using bi by (simp add: back_inv_def nr G U ho)
  next
    assume u: "\<not> use_bufctls cp" and a: "a = arena_alloc e + PGSIZE cfg - sizeof_kmem_slab cfg"
      and o: "obj_size cp \<noteq> 0" and t: "(PGSIZE cfg - sizeof_kmem_slab cfg) div obj_size cp \<noteq> 0"
      and sl: "slabs cp1 = (slabs cp)(a \<mapsto>
                       \<lparr>num_busy_obj = 0,
                        num_total_obj = of_nat ((PGSIZE cfg - sizeof_kmem_slab cfg) div obj_size cp),
                        free_small_obj = small_freelist ((PGSIZE cfg - sizeof_kmem_slab cfg) div obj_size cp - 1)
                                           (arena_alloc e) (obj_size cp),
                        bufctl_freelist = []\<rparr>)"
    have nr: "note_region e cp cp1 reg = reg" using u by (simp add: note_region_def)
    from env u have al: "arena_alloc e mod PGSIZE cfg = 0" by (simp add: env_ok_def)
    from bi u have pi: "page_inv cfg cp" by (simp add: back_inv_def)
    from page_inv_grow [OF pi sl [unfolded a] o t al] have "page_inv cfg cp1" .
    with g u show ?thesis by (simp add: back_inv_def nr G U)
  next
    assume u: "use_bufctls cp" and a: "a = slab_alloc e"
      and sl: "slabs cp1 = (slabs cp)(a \<mapsto>
                       \<lparr>num_busy_obj = 0, num_total_obj = of_nat (import_amt cp div obj_size cp),
                        free_small_obj = [],
                        bufctl_freelist = bufctl_freelist_init (import_amt cp div obj_size cp)
                                            (arena_alloc e) (obj_size cp) (slab_alloc e) []\<rparr>)"
      and al: "set (all_slabs cp1) = insert a (set (all_slabs cp))"
    from env u have na: "a \<notin> set (all_slabs cp)" and bd: "arena_alloc e + import_amt cp \<le> SIZE_MAX"
      and dj: "\<And>a' base'. reg a' = Some base' \<Longrightarrow>
                 arena_alloc e + import_amt cp \<le> base' \<or> base' + import_amt cp \<le> arena_alloc e"
      by (simp_all add: env_ok_def a)
    have nr: "note_region e cp cp1 reg = reg(a \<mapsto> arena_alloc e)"
      using u na by (simp add: note_region_def al a)
    from bi u have si: "slab_inv cp reg" and hk: "hash_ok cfg cp" by (simp_all add: back_inv_def)
    from slab_inv_grow [OF si na [unfolded a] sl [unfolded a] al [unfolded a] hb sf bd dj]
    have "slab_inv cp1 (reg(a \<mapsto> arena_alloc e))" by (simp add: a)
    with g u hk show ?thesis by (simp add: back_inv_def nr G U ho)
  qed
qed

lemma take_account_back_inv:
  assumes bi: "back_inv cfg cp1 reg" and len: "nr_hash_lists (hh cp1) = length (alloc_hash cp1)"
    and cfg: "config_ok cfg" and pa: "a \<in> set (partial_slab_list cp1)"
    and tk: "alloc_take_obj cfg e cp1 a = Inr (retval, cp2, evs2)"
    and ac: "alloc_account cp2 a = Inr cp3"
  shows "back_inv cfg cp3 reg" and "set (all_slabs cp3) = set (all_slabs cp1)"
    and "nr_hash_lists (hh cp3) = length (alloc_hash cp3)" and "same_frame cp1 cp3"
proof -
  from bi have g: "geometry_ok cp1" by (simp add: back_inv_def)
  have "back_inv cfg cp3 reg \<and> set (all_slabs cp3) = set (all_slabs cp1)
    \<and> nr_hash_lists (hh cp3) = length (alloc_hash cp3) \<and> same_frame cp1 cp3"
  proof (cases "use_bufctls cp1")
    case True
    with bi have si: "slab_inv cp1 reg" and ho: "hash_ok cfg cp1" by (simp_all add: back_inv_def)
    from take_account_bufctl [OF tk ac True cfg len ho pa] obtain s bc rest where
      s: "slabs cp1 a = Some s" and fl: "bufctl_freelist s = bc # rest"
      and sl: "slabs cp3 = (slabs cp1)(a \<mapsto> s\<lparr>bufctl_freelist := rest, num_busy_obj := num_busy_obj s + 1\<rparr>)"
      and hm: "mset (hash_bufctls cp3) = add_mset bc (mset (hash_bufctls cp1))"
      and ho3: "hash_ok cfg cp3" and len3: "nr_hash_lists (hh cp3) = length (alloc_hash cp3)"
      and al: "set (all_slabs cp3) = set (all_slabs cp1)" and sf: "same_frame cp1 cp3"
      by blast
    from slab_inv_take(1) [OF si g s fl sl hm al sf] have "slab_inv cp3 reg" .
    with g ho3 True al len3 sf show ?thesis
      by (simp add: back_inv_def same_frame_geometry [OF sf] same_frame_front(3) [OF sf])
  next
    case False
    with bi have pi: "page_inv cfg cp1" by (simp add: back_inv_def)
    from take_account_embedded [OF tk ac False pa] obtain s rest where
      s: "slabs cp1 a = Some s" and fl: "free_small_obj s = retval # rest"
      and sl: "slabs cp3 = (slabs cp1)(a \<mapsto> s\<lparr>free_small_obj := rest, num_busy_obj := num_busy_obj s + 1\<rparr>)"
      and ah: "alloc_hash cp3 = alloc_hash cp1" and hh: "hh cp3 = hh cp1"
      and al: "set (all_slabs cp3) = set (all_slabs cp1)" and sf: "same_frame cp1 cp3"
      by blast
    from page_inv_take(1) [OF pi s fl sl] have "page_inv cfg cp3" .
    with g False al len sf show ?thesis
      by (simp add: back_inv_def same_frame_geometry [OF sf] same_frame_front(3) [OF sf] ah hh)
  qed
  then show "back_inv cfg cp3 reg" and "set (all_slabs cp3) = set (all_slabs cp1)"
    and "nr_hash_lists (hh cp3) = length (alloc_hash cp3)" and "same_frame cp1 cp3"
    by simp_all
qed

lemma free_back_inv:
  assumes bi: "back_inv cfg cp reg" and f: "kmem_free_to_slab cfg cp buf = Inr cp'"
  shows "back_inv cfg cp' reg" and "set (all_slabs cp') = set (all_slabs cp)" and "same_frame cp cp'"
proof -
  from bi have g: "geometry_ok cp" by (simp add: back_inv_def)
  have "back_inv cfg cp' reg \<and> set (all_slabs cp') = set (all_slabs cp) \<and> same_frame cp cp'"
  proof (cases "use_bufctls cp")
    case True
    with bi have si: "slab_inv cp reg" and ho: "hash_ok cfg cp" by (simp_all add: back_inv_def)
    from free_bufctl [OF f True] obtain bc s where
      bc: "bc \<in> set (hash_bufctls cp)" and s: "slabs cp (my_slab bc) = Some s"
      and sl: "slabs cp' = (slabs cp)(my_slab bc \<mapsto>
          s\<lparr>bufctl_freelist := bc # bufctl_freelist s, num_busy_obj := num_busy_obj s - 1\<rparr>)"
      and hm: "mset (hash_bufctls cp') = mset (hash_bufctls cp) - {#bc#}"
      and ho': "hash_ok cfg cp \<longrightarrow> hash_ok cfg cp'"
      and al: "set (all_slabs cp') = set (all_slabs cp)" and sf: "same_frame cp cp'"
      by blast
    from slab_inv_free [OF si bc s sl hm al sf] have "slab_inv cp' reg" .
    with g ho ho' True al sf show ?thesis
      by (simp add: back_inv_def same_frame_geometry [OF sf] same_frame_front(3) [OF sf])
  next
    case False
    with bi have pi: "page_inv cfg cp" by (simp add: back_inv_def)
    from free_embedded [OF f False] obtain s where
      s: "slabs cp (ROUNDDOWN buf (PGSIZE cfg) + PGSIZE cfg - sizeof_kmem_slab cfg) = Some s"
      and sl: "slabs cp' = (slabs cp)(ROUNDDOWN buf (PGSIZE cfg) + PGSIZE cfg - sizeof_kmem_slab cfg \<mapsto>
          s\<lparr>free_small_obj := buf # free_small_obj s, num_busy_obj := num_busy_obj s - 1\<rparr>)"
      and al: "set (all_slabs cp') = set (all_slabs cp)" and sf: "same_frame cp cp'"
      by blast
    from page_inv_free [OF pi s sl] have "page_inv cfg cp'" .
    with g False al sf show ?thesis
      by (simp add: back_inv_def same_frame_geometry [OF sf] same_frame_front(3) [OF sf])
  qed
  then show "back_inv cfg cp' reg" and "set (all_slabs cp') = set (all_slabs cp)" and "same_frame cp cp'"
    by simp_all
qed

lemma alloc_back_inv:
  assumes bi: "back_inv cfg cp reg" and len: "nr_hash_lists (hh cp) = length (alloc_hash cp)"
    and cfg: "config_ok cfg" and env: "env_ok cfg e cp reg"
    and t: "kmem_alloc_from_slab cfg e cp fl = Inr (ret, cp', evs)"
  shows "back_inv cfg cp' (note_region e cp cp' reg)"
proof -
  from kmem_alloc_from_slab_cases [OF t] obtain a cp1 evs1 retval cp2 evs2 cp3 where
    p: "alloc_pick_slab cfg e cp fl = Inr (a, cp1, evs1)"
    and tk: "alloc_take_obj cfg e cp1 a = Inr (retval, cp2, evs2)"
    and ac: "alloc_account cp2 a = Inr cp3"
    and c: "cp' = cp3 \<or> kmem_free_to_slab cfg cp3 retval = Inr cp'"
    by blast
  note P = pick_summary [OF p]
  from P have pa: "a \<in> set (partial_slab_list cp1)" and ah: "alloc_hash cp1 = alloc_hash cp"
    and hh: "hh cp1 = hh cp"
    by simp_all
  have len1: "nr_hash_lists (hh cp1) = length (alloc_hash cp1)" using len by (simp add: ah hh)
  note B1 = pick_back_inv [OF bi env p]
  note B3 = take_account_back_inv [OF B1 len1 cfg pa tk ac]
  from c have "back_inv cfg cp' (note_region e cp cp1 reg) \<and> set (all_slabs cp') = set (all_slabs cp3)"
  proof
    assume "cp' = cp3"
    with B3(1) show ?thesis by simp
  next
    assume "kmem_free_to_slab cfg cp3 retval = Inr cp'"
    from free_back_inv(1,2) [OF B3(1) this] show ?thesis by simp
  qed
  then have b: "back_inv cfg cp' (note_region e cp cp1 reg)" and al: "set (all_slabs cp') = set (all_slabs cp1)"
    using B3(2) by simp_all
  have "note_region e cp cp' reg = note_region e cp cp1 reg"
    by (simp add: note_region_def al)
  with b show ?thesis by simp
qed

subsection \<open>The back-end invariant of a reachable cache\<close>

lemma same_back_inv:
  assumes "same_back kc kc'"
  shows "back_inv cfg kc' reg = back_inv cfg kc reg" and "all_slabs kc' = all_slabs kc"
    and "env_ok cfg e kc' reg = env_ok cfg e kc reg"
    and "note_region e kc' kc2 reg = note_region e kc kc2 reg"
proof -
  note S = same_back_fields [OF assms]
  show al: "all_slabs kc' = all_slabs kc" by (simp add: all_slabs_def S)
  show "back_inv cfg kc' reg = back_inv cfg kc reg"
    by (simp add: back_inv_def slab_inv_def hash_ok_def page_inv_def geometry_ok_def busy_of_def S al)
  show "env_ok cfg e kc' reg = env_ok cfg e kc reg"
    by (simp add: env_ok_def S al)
  show "note_region e kc' kc2 reg = note_region e kc kc2 reg"
    by (simp add: note_region_def S al)
qed

lemma create_back_inv:
  assumes "kmem_cache_create cfg e None num_cores qcache_max sz al fl c d = Inr (kc, evs)"
    and "magazines_ok cfg e" and "geometry_ok kc"
  shows "back_inv cfg kc Map.empty"
proof -
  from kmem_cache_create_other [OF assms(1,2)] have f: "slabs kc = Map.empty"
    "alloc_hash kc = replicate (nr_hash_lists (hash_init_hh cfg)) []"
    "full_slab_list kc = []" "partial_slab_list kc = []" "empty_slab_list kc = []"
    by auto
  have "slab_inv kc Map.empty"
    by (simp add: slab_inv_def all_slabs_def f hash_bufctls_def)
  moreover have "hash_ok cfg kc" by (simp add: hash_ok_def f tbl_ok_replicate)
  moreover have "page_inv cfg kc" by (simp add: page_inv_def f)
  ultimately show ?thesis using assms(3) by (simp add: back_inv_def)
qed

lemma reach_back_inv:
  "reach cfg kc out reg \<Longrightarrow> back_inv cfg kc reg"
proof (induction rule: reach.induct)
  case (created e num_cores qcache_max sz al fl c d kc evs)
  from create_back_inv [OF created(3,2,4)] show ?case .
next
  case (allocated kc out reg e cpu fl ret kc' evs)
  note bi = allocated.IH
  from reach_accounted [OF allocated.hyps(1)] have c: "config_ok cfg" and a: "accounted cfg kc out"
    by simp_all
  note D = accountedD [OF a]
  from kmem_cache_alloc_cases [OF allocated.hyps(3)] show ?case
  proof (elim disjE conjE exE)
    assume ta: "try_alloc cfg e cpu 0 kc = Inr (Some ret, kc')"
    from try_alloc_Inr [OF ta D(1)] have sb: "same_back kc kc'" by simp
    note S = same_back_inv [OF sb]
    have "note_region e kc kc' reg = reg" by (simp add: note_region_def S(2))
    with bi show ?thesis by (simp add: S(1))
  next
    fix kc1
    assume ta: "try_alloc cfg e cpu 0 kc = Inr (None, kc1)"
      and sl: "kmem_alloc_from_slab cfg e kc1 fl = Inr (ret, kc', evs)"
    from try_alloc_Inr [OF ta D(1)] have sb: "same_back kc kc1" by simp
    note S = same_back_inv [OF sb]
    note F = same_back_fields [OF sb]
    have b1: "back_inv cfg kc1 reg" using bi by (simp add: S(1))
    have l1: "nr_hash_lists (hh kc1) = length (alloc_hash kc1)" using D(4) by (simp add: F)
    have e1: "env_ok cfg e kc1 reg" using allocated.hyps(2) by (simp add: S(3))
    from alloc_back_inv [OF b1 l1 c e1 sl] show ?thesis by (simp add: S(4))
  qed
next
  case (freed kc out reg e buf cpu kc' evs)
  note bi = freed.IH
  from reach_accounted [OF freed.hyps(1)] have c: "config_ok cfg" and a: "accounted cfg kc out"
    by simp_all
  note D = accountedD [OF a]
  from D(3) freed.hyps(3) have bn: "buf \<noteq> NULL" by auto
  from kmem_cache_free_other [OF freed.hyps(4)]
  have tf: "try_free cfg e None cpu buf 0 0 kc [] = Some (Inr (True, kc', []))" by simp
  from try_free_Inr [OF tf, rule_format, OF refl refl D(1) freed.hyps(2) bn]
  have sb: "same_back kc kc'" by simp
  with bi show ?case by (simp add: same_back_inv(1) [OF sb])
qed


subsection \<open>The live counter and the hash index\<close>

lemma one_slot_alloc:
  "kmem_cache_alloc example_config one_slot_env 0 one_slot_cache {} = Inr (8192, one_slot_busy, [])"
proof -
  have t: "try_alloc example_config one_slot_env 0 0 one_slot_cache = Inr (None, one_slot_cache)"
    by (subst try_alloc.simps)
       (simp add: one_slot_cache_simps one_slot_env_def quiet_env_def lock_depot_def mag_is_empty_def)
  show ?thesis
    unfolding kmem_cache_alloc_def by (simp add: t one_slot_busy_simps(1))
qed

lemma one_slot_cached_simps:
  "kmem_cache_free example_config quiet_env None 0 one_slot_busy 8192 = Some (Inr (one_slot_cached, []))"
  "one_slot_cached = one_slot_busy\<lparr>pcpu_caches :=
       [\<lparr>magsize = 2, loaded = \<lparr>nr_rounds = 1, rounds = [8192, 0, 0, 0]\<rparr>,
         prev = \<lparr>nr_rounds = 0, rounds = [0, 0, 0, 0]\<rparr>, nr_allocs_ever = 0\<rparr>]\<rparr>"
proof -
  have t: "try_free example_config quiet_env None 0 8192 0 0 one_slot_busy []
      = Some (Inr (True, one_slot_busy\<lparr>pcpu_caches :=
       [\<lparr>magsize = 2, loaded = \<lparr>nr_rounds = 1, rounds = [8192, 0, 0, 0]\<rparr>,
         prev = \<lparr>nr_rounds = 0, rounds = [0, 0, 0, 0]\<rparr>, nr_allocs_ever = 0\<rparr>]\<rparr>, []))"
    by (subst try_free.simps) (simp add: one_slot_busy_simps(2) one_slot_cache_simps)
  show "one_slot_cached = one_slot_busy\<lparr>pcpu_caches :=
       [\<lparr>magsize = 2, loaded = \<lparr>nr_rounds = 1, rounds = [8192, 0, 0, 0]\<rparr>,
         prev = \<lparr>nr_rounds = 0, rounds = [0, 0, 0, 0]\<rparr>, nr_allocs_ever = 0\<rparr>]\<rparr>"
    unfolding one_slot_cached_def kmem_cache_free_def by (simp add: t)
  then show "kmem_cache_free example_config quiet_env None 0 one_slot_busy 8192
      = Some (Inr (one_slot_cached, []))"
    unfolding kmem_cache_free_def by (simp add: t)
qed

lemma example_config_ok: "config_ok example_config"
  by (simp add: config_ok_def example_config_def)

lemma one_slot_env_ok:
  "env_ok example_config one_slot_env one_slot_cache Map.empty"
  "magazines_ok example_config quiet_env"
  "magazines_ok example_config magazine_env"
  by (simp_all add: env_ok_def magazines_ok_def one_slot_env_def quiet_env_def magazine_env_def
      new_magazine_def example_config_def all_slabs_def
      one_slot_busy_simps(2) one_slot_cache_simps use_bufctls_def SIZE_MAX_def NULL_def)

lemma one_slot_reach:
  "reach example_config one_slot_cache {#} Map.empty"
  "reach example_config one_slot_busy {#8192#} [20000 \<mapsto> 8192]"
  "reach example_config one_slot_cached {#} [20000 \<mapsto> 8192]"
proof -
  have g: "geometry_ok one_slot_cache"
    by (simp add: geometry_ok_def one_slot_cache_simps SIZE_MAX_def)
  show r0: "reach example_config one_slot_cache {#} Map.empty"
    by (rule reach.created [OF example_config_ok one_slot_env_ok(3) one_slot_create g])
  have n: "note_region one_slot_env one_slot_cache one_slot_busy Map.empty = [20000 \<mapsto> 8192]"
    by (simp add: note_region_def one_slot_busy_simps(2) one_slot_cache_simps use_bufctls_def
        all_slabs_def one_slot_env_def quiet_env_def)
  from reach.allocated [OF r0 one_slot_env_ok(1) one_slot_alloc]
  show r1: "reach example_config one_slot_busy {#8192#} [20000 \<mapsto> 8192]"
    by (simp add: n NULL_def)
  from reach.freed [OF r1 one_slot_env_ok(2) _ one_slot_cached_simps(1)]
  show "reach example_config one_slot_cached {#} [20000 \<mapsto> 8192]"
    by simp
qed

lemma one_slot_cached_objs:
  "cached_objs one_slot_cached = {#8192#}" "cached_objs one_slot_busy = {#}"
  by (simp_all add: cached_objs_def one_slot_cached_simps(2) one_slot_busy_simps(2) one_slot_cache_simps live_def)

text \<open>
  The per-CPU caches of \<open>kmem_magazine_cache\<close> itself: building them takes two
  objects per core from the slab back-end of the cache.
\<close>

lemma same_frame_trans: "same_frame a b \<Longrightarrow> same_frame b c \<Longrightarrow> same_frame a c"
  by (simp add: same_frame_def)

lemma magazine_from_slab_self:
  assumes "magazine_from_slab cfg e (Some en) n kc = Inr (mag, kc', evs)" and "nonnull kc"
    and "config_ok cfg" and "nr_hash_lists (hh kc) = length (alloc_hash kc)"
  shows "nonnull kc' \<and> same_frame kc kc' \<and> nr_hash_lists (hh kc') = length (alloc_hash kc')
     \<and> nr_cur_alloc kc' = nr_cur_alloc kc + 1 \<and> (\<exists>p. p \<noteq> NULL \<and> mag = magazine_at e p)"
proof -
  from assms(1) obtain p where a: "kmem_alloc_from_slab cfg (en n) kc {MEM_WAIT} = Inr (p, kc', evs)"
    and p: "p \<noteq> NULL" and m: "mag = magazine_at e p"
    by (auto simp: magazine_from_slab_def split: sum.splits prod.splits if_splits)
  from kmem_alloc_from_slab_Inr [OF a assms(2,3,4)] p m show ?thesis by auto
qed

lemma build_pcpu_caches_self:
  assumes "build_pcpu_caches cfg e (Some en) i n kc = Inr (pccs, kc', evs)" and "nonnull kc"
    and "config_ok cfg" and "nr_hash_lists (hh kc) = length (alloc_hash kc)"
  shows "nr_cur_alloc kc' = nr_cur_alloc kc + of_nat (2 * n) \<and> same_frame kc kc' \<and> length pccs = n
     \<and> (\<forall>pcc \<in> set pccs. \<exists>p q. p \<noteq> NULL \<and> q \<noteq> NULL
            \<and> loaded pcc = magazine_at e p \<and> prev pcc = magazine_at e q)"
  using assms
proof (induction n arbitrary: i kc pccs kc' evs)
  case 0
  then show ?case by (simp add: same_frame_def)
next
  case (Suc n)
  from Suc.prems(1) obtain m1 kc1 evs1 m2 kc2 evs2 pccs' evs3 where
    a1: "magazine_from_slab cfg e (Some en) (2 * i) kc = Inr (m1, kc1, evs1)"
    and a2: "magazine_from_slab cfg e (Some en) (2 * i + 1) kc1 = Inr (m2, kc2, evs2)"
    and r: "build_pcpu_caches cfg e (Some en) (i + 1) n kc2 = Inr (pccs', kc', evs3)"
    and p: "pccs = \<lparr>magsize = KMC_MAG_MIN_SZ cfg, loaded = m1, prev = m2, nr_allocs_ever = 0\<rparr> # pccs'"
    by (auto split: sum.splits prod.splits)
  note M1 = magazine_from_slab_self [OF a1 Suc.prems(2,3,4)]
  from M1 have n1: "nonnull kc1" and l1: "nr_hash_lists (hh kc1) = length (alloc_hash kc1)" by simp_all
  note M2 = magazine_from_slab_self [OF a2 n1 Suc.prems(3) l1]
  from M2 have n2: "nonnull kc2" and l2: "nr_hash_lists (hh kc2) = length (alloc_hash kc2)" by simp_all
  note R = Suc.IH [OF r n2 Suc.prems(3) l2]
  from M1 M2 R have "same_frame kc kc'" by (blast intro: same_frame_trans)
  moreover from M1 M2 R have "nr_cur_alloc kc' = nr_cur_alloc kc + of_nat (2 * Suc n)" by simp
  ultimately show ?case using M1 M2 R p by auto
qed

lemma kmem_cache_create_self:
  assumes cr: "kmem_cache_create cfg e (Some en) num_cores qcache_max sz al fl c d = Inr (kc, evs)"
    and cfg: "config_ok cfg"
  shows "nr_cur_alloc kc = of_nat (2 * num_cores)"
    and "magazine_objs_ok cfg e \<Longrightarrow> cached_objs kc = {#}"
proof -
  let ?kc0 = "\<lparr>obj_size = ROUNDUP sz al,
             import_amt = (if KMC_QCACHE \<in> fl then ROUNDUPPWR2 cfg (3 * qcache_max)
                           else ROUNDUP (NUM_BUF_PER_SLAB cfg * sz) (PGSIZE cfg)),
             align = al,
             flags = (if sz > SLAB_LARGE_CUTOFF cfg \<or> KMC_NOTOUCH \<in> fl
                      then insert KMC_USE_BUFCTL fl else fl),
             full_slab_list = [], partial_slab_list = [], empty_slab_list = [],
             slabs = Map.empty,
             ctor = c, dtor = d,
             nr_cur_alloc = 0,
             alloc_hash = replicate (nr_hash_lists (hash_init_hh cfg)) [],
             alloc_hash_is_static = True,
             hh = hash_init_hh cfg,
             depot = depot_init cfg,
             pcpu_caches = []\<rparr>"
  from cr obtain pccs kc1 where
    b: "build_pcpu_caches cfg e (Some en) 0 num_cores ?kc0 = Inr (pccs, kc1, evs)"
    and kc: "kc = kc1\<lparr>pcpu_caches := pccs\<rparr>"
    unfolding kmem_cache_create_def
    by (cases "al = 0"; cases "al > PGSIZE cfg"; simp split: sum.splits prod.splits)
  have "nonnull ?kc0" "nr_hash_lists (hh ?kc0) = length (alloc_hash ?kc0)"
    by (simp_all add: nonnull_def)
  note B = build_pcpu_caches_self [OF b this(1) cfg this(2)]
  from B kc show "nr_cur_alloc kc = of_nat (2 * num_cores)" by simp
  show "cached_objs kc = {#}" if mo: "magazine_objs_ok cfg e"
  proof -
    from B mo have "\<forall>pcc \<in> set pccs. live (loaded pcc) + live (prev pcc) = {#}"
      by (auto simp: magazine_objs_ok_def live_def)
    then have "map (\<lambda>pcc. live (loaded pcc) + live (prev pcc)) pccs = replicate (length pccs) {#}"
      by (simp add: map_replicate_const [symmetric])
    moreover from B kc have "depot kc = depot_init cfg" by (simp add: same_frame_def)
    ultimately show ?thesis
      using kc by (simp add: cached_objs_def depot_init_def sum_list_replicate_empty)
  qed
qed

text \<open>
  The addresses of the bufctls in the hash are distinct: a bufctl of the
  hash is one of those made for the region of its slab, the addresses of
  one region are distinct, and the regions do not overlap.
\<close>

lemma hash_addrs_distinct:
  assumes si: "slab_inv kc reg" and g: "0 < obj_size kc"
  shows "distinct (map buf_addr (hash_bufctls kc))"
proof -
  let ?n = "import_amt kc div obj_size kc"
  let ?init = "\<lambda>a base. bufctl_freelist_init ?n base (obj_size kc) a []"
  note D = slab_invD [OF si]
  have init: "\<exists>base. reg (my_slab bc) = Some base \<and> bc \<in> set (?init (my_slab bc) base)
        \<and> count (mset (hash_bufctls kc)) bc \<le> 1"
    if m: "bc \<in> set (hash_bufctls kc)" for bc
  proof -
    from D(3) [OF m] obtain s where s: "slabs kc (my_slab bc) = Some s" by auto
    with D(2) obtain base where b: "reg (my_slab bc) = Some base" by (metis domI domD)
    from D(4) [OF s b] have eq: "mset (bufctl_freelist s) + busy_of kc (my_slab bc)
        = mset (?init (my_slab bc) base)" by simp
    have "count (mset (hash_bufctls kc)) bc = count (busy_of kc (my_slab bc)) bc"
      by (simp add: busy_of_def)
    also have "\<dots> \<le> count (mset (bufctl_freelist s) + busy_of kc (my_slab bc)) bc" by simp
    also have "\<dots> = count (mset (?init (my_slab bc) base)) bc" by (simp only: eq)
    also have "\<dots> \<le> 1"
      using bufctl_freelist_init_distinct [OF g, of ?n base "my_slab bc"]
      by (simp add: distinct_count_atmost_1)
    finally have c: "count (mset (hash_bufctls kc)) bc \<le> 1" .
    from busy_of_mem [OF m] have "bc \<in># mset (bufctl_freelist s) + busy_of kc (my_slab bc)" by simp
    then have "bc \<in> set (?init (my_slab bc) base)" by (simp only: eq) simp
    with b c show ?thesis by blast
  qed
  have d: "distinct (hash_bufctls kc)"
  proof -
    have "count (mset (hash_bufctls kc)) bc = (if bc \<in> set (hash_bufctls kc) then 1 else 0)" for bc
    proof (cases "bc \<in> set (hash_bufctls kc)")
      case True
      from init [OF True] have le: "count (mset (hash_bufctls kc)) bc \<le> 1" by blast
      from True have nz: "count (mset (hash_bufctls kc)) bc \<noteq> 0"
        by (simp only: count_eq_zero_iff set_mset_mset) simp
      from le nz have "count (mset (hash_bufctls kc)) bc = 1" by arith
      with True show ?thesis by (simp only: if_True)
    next
      case False
      then show ?thesis by (simp add: count_eq_zero_iff)
    qed
    then show ?thesis by (simp add: distinct_count_atmost_1)
  qed
  have nb: "?n * obj_size kc \<le> import_amt kc" by simp
  have i: "inj_on buf_addr (set (hash_bufctls kc))"
  proof (rule inj_onI)
    fix x y
    assume x: "x \<in> set (hash_bufctls kc)" and y: "y \<in> set (hash_bufctls kc)"
      and e: "buf_addr x = buf_addr y"
    from init [OF x] obtain bx where bx: "reg (my_slab x) = Some bx"
      and ix: "x \<in> set (?init (my_slab x) bx)" by blast
    from init [OF y] obtain by' where by': "reg (my_slab y) = Some by'"
      and iy: "y \<in> set (?init (my_slab y) by')" by blast
    from bufctl_freelist_init_mem(2) [OF ix] obtain i where i: "i < ?n" "buf_addr x = bx + i * obj_size kc"
      by blast
    from bufctl_freelist_init_mem(2) [OF iy] obtain j where j: "j < ?n" "buf_addr y = by' + j * obj_size kc"
      by blast
    have li: "i * obj_size kc < ?n * obj_size kc" using i(1) g by simp
    have lj: "j * obj_size kc < ?n * obj_size kc" using j(1) g by simp
    have "my_slab x = my_slab y"
    proof (rule ccontr)
      assume ne: "my_slab x \<noteq> my_slab y"
      define u where "u = i * obj_size kc"
      define v where "v = j * obj_size kc"
      from li nb have "u < import_amt kc" unfolding u_def by (rule less_le_trans)
      moreover from lj nb have "v < import_amt kc" unfolding v_def by (rule less_le_trans)
      moreover from i(2) j(2) e have "bx + u = by' + v" by (simp add: u_def v_def)
      ultimately show False using D(5) [OF bx by' ne] by arith
    qed
    with e show "x = y" by simp
  qed
  from d i show ?thesis by (simp add: distinct_map)
qed

lemma magazine_objs_ok_quiet: "magazine_objs_ok example_config quiet_env"
  by (simp add: magazine_objs_ok_def quiet_env_def new_magazine_def example_config_def)

lemma example_magazine_cache_create:
  "kmem_cache_create example_config quiet_env (Some magazine_cache_env) 1 0 512 512 {}
     (Some (\<lambda>buf fl. 0)) False = Inr (example_magazine_cache, [CTOR 8192, CTOR 8704])"
proof -
  have six: "(6::nat) = Suc (Suc (Suc (Suc (Suc (Suc 0)))))"
    by simp
  have fl: "small_freelist 6 8192 512 = [8192, 8704, 9216, 9728, 10240, 10752, 11264]"
    unfolding six by simp
  show ?thesis
    by (simp add: example_magazine_cache_def kmem_cache_create_def magazine_from_slab_def
      magazine_cache_env_def quiet_env_def example_config_def ROUNDUP_def ROUNDDOWN_def depot_init_def
      new_magazine_def NULL_def replicate_4 kmem_alloc_from_slab_def alloc_pick_slab_def
      alloc_take_obj_def alloc_account_def kmem_cache_grow_def use_bufctls_def Let_def tailq_remove_def fl)
qed

text \<open>
  C5, as the specification words it, fails on the code. The live counter is
  incremented in \<open>__kmem_alloc_from_slab\<close> and decremented in
  \<open>__kmem_free_to_slab\<close> only. A \<open>kmem_cache_free\<close> that finds room in a
  magazine leaves the object there and the counter as it is: after one
  allocation and the free of that object, a balanced sequence, the counter
  is 1 and not 0.
\<close>

theorem nr_cur_alloc_counterexample:
  "kmem_cache_create example_config magazine_env None 1 0 1 4096 {KMC_NOTOUCH} None False
     = Inr (one_slot_cache, [])
   \<and> kmem_cache_alloc example_config one_slot_env 0 one_slot_cache {} = Inr (8192, one_slot_busy, [])
   \<and> kmem_cache_free example_config quiet_env None 0 one_slot_busy 8192 = Some (Inr (one_slot_cached, []))
   \<and> nr_cur_alloc one_slot_cached = 1"
proof (intro conjI)
  show "kmem_cache_create example_config magazine_env None 1 0 1 4096 {KMC_NOTOUCH} None False
     = Inr (one_slot_cache, [])"
    by (rule one_slot_create)
  show "kmem_cache_alloc example_config one_slot_env 0 one_slot_cache {} = Inr (8192, one_slot_busy, [])"
    by (rule one_slot_alloc)
  show "kmem_cache_free example_config quiet_env None 0 one_slot_busy 8192 = Some (Inr (one_slot_cached, []))"
    by (rule one_slot_cached_simps(1))
  show "nr_cur_alloc one_slot_cached = 1"
    by (simp add: one_slot_cached_simps(2) one_slot_busy_simps(2))
qed

text \<open>
  C5, amended. For a cache other than \<open>kmem_magazine_cache\<close>: after any
  sequence of calls of \<open>kmem_cache_alloc\<close> and \<open>kmem_cache_free\<close> on the
  created cache, each free being that of an object which a caller holds, the
  live counter \<open>nr_cur_alloc\<close> is the number of objects that callers hold plus
  the number of objects in the magazines of the cache (per-CPU and depot),
  modulo \<open>2 ^ 64\<close>; after a balanced sequence it is the number of objects in
  the magazines. For \<open>kmem_magazine_cache\<close> itself the counter also counts
  the magazines that the cache took for its own per-CPU caches: when
  \<open>kmem_cache_create\<close> returns it is twice the number of cores, with no
  object in a magazine.
\<close>

theorem nr_cur_alloc_counts:
  "(reach cfg kc out reg \<longrightarrow> nr_cur_alloc kc = of_nat (size out + size (cached_objs kc)))
   \<and> (config_ok cfg \<and> magazine_objs_ok cfg e
       \<and> kmem_cache_create cfg e (Some en) num_cores qcache_max sz al fl c d = Inr (mkc, evs)
      \<longrightarrow> nr_cur_alloc mkc = of_nat (2 * num_cores) \<and> cached_objs mkc = {#})"
proof (intro conjI impI)
  assume "reach cfg kc out reg"
  from reach_accounted [OF this] show "nr_cur_alloc kc = of_nat (size out + size (cached_objs kc))"
    by (simp add: accounted_def)
next
  assume h: "config_ok cfg \<and> magazine_objs_ok cfg e
       \<and> kmem_cache_create cfg e (Some en) num_cores qcache_max sz al fl c d = Inr (mkc, evs)"
  then have cr: "kmem_cache_create cfg e (Some en) num_cores qcache_max sz al fl c d = Inr (mkc, evs)"
    and cfg: "config_ok cfg" and mo: "magazine_objs_ok cfg e" by simp_all
  from kmem_cache_create_self(1) [OF cr cfg] show "nr_cur_alloc mkc = of_nat (2 * num_cores)" .
  from kmem_cache_create_self(2) [OF cr cfg mo] show "cached_objs mkc = {#}" .
qed

theorem nr_cur_alloc_counts_witness:
  "reach example_config one_slot_cached {#} [20000 \<mapsto> 8192]
   \<and> cached_objs one_slot_cached = {#8192#}
   \<and> nr_cur_alloc one_slot_cached = 1
   \<and> config_ok example_config \<and> magazine_objs_ok example_config quiet_env
   \<and> kmem_cache_create example_config quiet_env (Some magazine_cache_env) 1 0 512 512 {}
        (Some (\<lambda>buf fl. 0)) False = Inr (example_magazine_cache, [CTOR 8192, CTOR 8704])
   \<and> nr_cur_alloc example_magazine_cache = 2
   \<and> cached_objs example_magazine_cache = {#}"
  using nr_cur_alloc_counts [THEN conjunct1, rule_format, OF one_slot_reach(3)]
    nr_cur_alloc_counts [THEN conjunct2, rule_format,
      OF conjI [OF example_config_ok conjI [OF magazine_objs_ok_quiet example_magazine_cache_create]]]
    one_slot_reach(3) example_config_ok magazine_objs_ok_quiet example_magazine_cache_create
  by (simp add: one_slot_cached_objs)

text \<open>
  C4, as the specification words it, fails on the code. The bufctl of an
  object leaves the hash in \<open>__kmem_free_to_slab\<close> only. After one allocation
  and the \<open>kmem_cache_free\<close> of that object, which a magazine takes, no
  object is outstanding to a caller and the hash still holds the bufctl of
  the object.
\<close>

theorem hash_index_counterexample:
  "kmem_cache_create example_config magazine_env None 1 0 1 4096 {KMC_NOTOUCH} None False
     = Inr (one_slot_cache, [])
   \<and> kmem_cache_alloc example_config one_slot_env 0 one_slot_cache {} = Inr (8192, one_slot_busy, [])
   \<and> kmem_cache_free example_config quiet_env None 0 one_slot_busy 8192 = Some (Inr (one_slot_cached, []))
   \<and> use_bufctls one_slot_cached
   \<and> hash_bufctls one_slot_cached = [\<lparr>buf_addr = 8192, my_slab = 20000\<rparr>]"
proof (intro conjI)
  show "kmem_cache_create example_config magazine_env None 1 0 1 4096 {KMC_NOTOUCH} None False
     = Inr (one_slot_cache, [])"
    by (rule one_slot_create)
  show "kmem_cache_alloc example_config one_slot_env 0 one_slot_cache {} = Inr (8192, one_slot_busy, [])"
    by (rule one_slot_alloc)
  show "kmem_cache_free example_config quiet_env None 0 one_slot_busy 8192 = Some (Inr (one_slot_cached, []))"
    by (rule one_slot_cached_simps(1))
  show "use_bufctls one_slot_cached"
    by (simp add: use_bufctls_def one_slot_cached_simps(2) one_slot_busy_simps(2) one_slot_cache_simps)
  show "hash_bufctls one_slot_cached = [\<lparr>buf_addr = 8192, my_slab = 20000\<rparr>]"
    by (simp add: hash_bufctls_def one_slot_cached_simps(2) one_slot_busy_simps(2))
qed

text \<open>
  C4, amended. For a cache other than \<open>kmem_magazine_cache\<close>: after any
  sequence of calls of \<open>kmem_cache_alloc\<close> and \<open>kmem_cache_free\<close> on the
  created cache, each free being that of an object which a caller holds, the
  hash of a cache with bufctls holds exactly one entry per object that a
  caller holds or that is in a magazine of the cache (per-CPU or depot): the
  addresses of its entries are these objects, and no two entries have the
  same address. The hash of a cache in the embedded layout is empty.
\<close>

theorem hash_index_holds:
  assumes "reach cfg kc out reg"
  shows "if use_bufctls kc
         then mset (map buf_addr (hash_bufctls kc)) = out + cached_objs kc
              \<and> distinct (map buf_addr (hash_bufctls kc))
         else hash_bufctls kc = []"
proof (cases "use_bufctls kc")
  case True
  from reach_back_inv [OF assms] True have si: "slab_inv kc reg" and g: "0 < obj_size kc"
    by (simp_all add: back_inv_def geometry_ok_def)
  from reach_accounted [OF assms] True hash_addrs_distinct [OF si g] show ?thesis
    by (simp add: accounted_def)
next
  case False
  with reach_accounted [OF assms] show ?thesis by (simp add: accounted_def)
qed

theorem hash_index_holds_witness:
  "reach example_config one_slot_busy {#8192#} [20000 \<mapsto> 8192]
   \<and> use_bufctls one_slot_busy
   \<and> cached_objs one_slot_busy = {#}
   \<and> mset (map buf_addr (hash_bufctls one_slot_busy)) = {#8192#}
   \<and> distinct (map buf_addr (hash_bufctls one_slot_busy))"
proof -
  have u: "use_bufctls one_slot_busy"
    by (simp add: use_bufctls_def one_slot_busy_simps(2) one_slot_cache_simps)
  from hash_index_holds [OF one_slot_reach(2)] u one_slot_reach(2) show ?thesis
    by (simp add: one_slot_cached_objs)
qed

subsection \<open>A cache whose constructor fails\<close>

lemma bufctl_freelist_init_3:
  "bufctl_freelist_init 3 buf sz a l =
     \<lparr>buf_addr = buf + sz + sz, my_slab = a\<rparr> # \<lparr>buf_addr = buf + sz, my_slab = a\<rparr>
       # \<lparr>buf_addr = buf, my_slab = a\<rparr> # l"
  by (simp add: numeral_3_eq_3)

lemma three_slot_cache_simps:
  "three_slot_cache = \<lparr>obj_size = 4096, import_amt = 12288, align = 4096,
             flags = {KMC_USE_BUFCTL},
             full_slab_list = [], partial_slab_list = [], empty_slab_list = [],
             slabs = Map.empty, ctor = Some (\<lambda>buf fl. 1), dtor = False, nr_cur_alloc = 0,
             alloc_hash = [[], [], [], []], alloc_hash_is_static = True,
             hh = \<lparr>nr_hash_lists = 4, nr_hash_bits = 2, nr_items = 0, load_limit = 2\<rparr>,
             depot = \<lparr>not_empty = [], empty = [], depot_magsize = 2,
                      nr_not_empty = 0, nr_empty = 0, busy_count = 0, busy_start = 0\<rparr>,
             pcpu_caches = [\<lparr>magsize = 2, loaded = \<lparr>nr_rounds = 0, rounds = [0, 0, 0, 0]\<rparr>,
                             prev = \<lparr>nr_rounds = 0, rounds = [0, 0, 0, 0]\<rparr>, nr_allocs_ever = 0\<rparr>]\<rparr>"
  by (simp add: three_slot_cache_def kmem_cache_create_def magazine_from_slab_def magazine_env_def
      quiet_env_def example_config_def ROUNDUP_def ROUNDDOWN_def depot_init_def new_magazine_def NULL_def
      replicate_4)

lemma three_slot_create:
  "kmem_cache_create example_config magazine_env None 1 0 1025 4096 {} (Some (\<lambda>buf fl. 1)) False
     = Inr (three_slot_cache, [])"
  by (simp add: three_slot_cache_simps kmem_cache_create_def magazine_from_slab_def magazine_env_def
      quiet_env_def example_config_def ROUNDUP_def ROUNDDOWN_def depot_init_def new_magazine_def NULL_def
      replicate_4)

lemma three_slot_try_alloc:
  "try_alloc example_config three_slot_env 0 0 three_slot_cache = Inr (None, three_slot_cache)"
  by (subst try_alloc.simps)
     (simp add: three_slot_cache_simps three_slot_env_def quiet_env_def lock_depot_def mag_is_empty_def)

lemma three_slot_picked_simps:
  "alloc_pick_slab example_config three_slot_env three_slot_cache {} = Inr (40000, three_slot_picked, [])"
  "three_slot_picked = three_slot_cache\<lparr>partial_slab_list := [40000],
       slabs := [40000 \<mapsto> \<lparr>num_busy_obj = 0, num_total_obj = 3, free_small_obj = [],
                             bufctl_freelist = [\<lparr>buf_addr = 16384, my_slab = 40000\<rparr>,
                                                \<lparr>buf_addr = 12288, my_slab = 40000\<rparr>,
                                                \<lparr>buf_addr = 8192, my_slab = 40000\<rparr>]\<rparr>]\<rparr>"
  by (simp_all add: three_slot_picked_def three_slot_cache_simps three_slot_env_def quiet_env_def
      alloc_pick_slab_def kmem_cache_grow_def use_bufctls_def Let_def NULL_def bufctl_freelist_init_3)

lemma three_slot_taken_simps:
  "alloc_take_obj example_config three_slot_env three_slot_picked 40000 = Inr (16384, three_slot_taken, [])"
  "three_slot_taken = three_slot_cache\<lparr>partial_slab_list := [40000],
       slabs := [40000 \<mapsto> \<lparr>num_busy_obj = 0, num_total_obj = 3, free_small_obj = [],
                             bufctl_freelist = [\<lparr>buf_addr = 12288, my_slab = 40000\<rparr>,
                                                \<lparr>buf_addr = 8192, my_slab = 40000\<rparr>]\<rparr>],
       alloc_hash := [[\<lparr>buf_addr = 16384, my_slab = 40000\<rparr>], [], [], []],
       hh := \<lparr>nr_hash_lists = 4, nr_hash_bits = 2, nr_items = 1, load_limit = 2\<rparr>\<rparr>"
  by (simp_all add: three_slot_taken_def three_slot_picked_simps(2) three_slot_cache_simps
      three_slot_env_def quiet_env_def alloc_take_obj_def track_alloc_def try_hash_resize_def
      hash_insert_def use_bufctls_def Let_def example_config_def)

lemma three_slot_idle_simps:
  "kmem_cache_alloc example_config three_slot_env 0 three_slot_cache {}
     = Inr (NULL, three_slot_idle, [CTOR 16384])"
  "three_slot_idle = three_slot_cache\<lparr>empty_slab_list := [40000],
       slabs := [40000 \<mapsto> \<lparr>num_busy_obj = 0, num_total_obj = 3, free_small_obj = [],
                             bufctl_freelist = [\<lparr>buf_addr = 16384, my_slab = 40000\<rparr>,
                                                \<lparr>buf_addr = 12288, my_slab = 40000\<rparr>,
                                                \<lparr>buf_addr = 8192, my_slab = 40000\<rparr>]\<rparr>],
       hh := \<lparr>nr_hash_lists = 4, nr_hash_bits = 2, nr_items = 1, load_limit = 2\<rparr>\<rparr>"
proof -
  have a: "kmem_alloc_from_slab example_config three_slot_env three_slot_cache {}
      = Inr (NULL, three_slot_cache\<lparr>empty_slab_list := [40000],
       slabs := [40000 \<mapsto> \<lparr>num_busy_obj = 0, num_total_obj = 3, free_small_obj = [],
                             bufctl_freelist = [\<lparr>buf_addr = 16384, my_slab = 40000\<rparr>,
                                                \<lparr>buf_addr = 12288, my_slab = 40000\<rparr>,
                                                \<lparr>buf_addr = 8192, my_slab = 40000\<rparr>]\<rparr>],
       hh := \<lparr>nr_hash_lists = 4, nr_hash_bits = 2, nr_items = 1, load_limit = 2\<rparr>\<rparr>, [CTOR 16384])"
    unfolding kmem_alloc_from_slab_def three_slot_picked_simps(1) sum.case prod.case
      three_slot_taken_simps(1)
    by (simp add: three_slot_taken_simps(2) three_slot_cache_simps alloc_account_def
      kmem_free_to_slab_def yank_bufctl_def use_bufctls_def Let_def tailq_remove_def example_config_def)
  show "three_slot_idle = three_slot_cache\<lparr>empty_slab_list := [40000],
       slabs := [40000 \<mapsto> \<lparr>num_busy_obj = 0, num_total_obj = 3, free_small_obj = [],
                             bufctl_freelist = [\<lparr>buf_addr = 16384, my_slab = 40000\<rparr>,
                                                \<lparr>buf_addr = 12288, my_slab = 40000\<rparr>,
                                                \<lparr>buf_addr = 8192, my_slab = 40000\<rparr>]\<rparr>],
       hh := \<lparr>nr_hash_lists = 4, nr_hash_bits = 2, nr_items = 1, load_limit = 2\<rparr>\<rparr>"
    unfolding three_slot_idle_def kmem_cache_alloc_def by (simp add: three_slot_try_alloc a)
  then show "kmem_cache_alloc example_config three_slot_env 0 three_slot_cache {}
     = Inr (NULL, three_slot_idle, [CTOR 16384])"
    unfolding kmem_cache_alloc_def by (simp add: three_slot_try_alloc a)
qed

lemma three_slot_env_ok: "env_ok example_config three_slot_env three_slot_cache Map.empty"
  by (simp add: env_ok_def magazines_ok_def three_slot_env_def quiet_env_def all_slabs_def
      three_slot_cache_simps use_bufctls_def SIZE_MAX_def)

lemma three_slot_reach:
  "reach example_config three_slot_cache {#} Map.empty"
  "reach example_config three_slot_idle {#} [40000 \<mapsto> 8192]"
proof -
  have g: "geometry_ok three_slot_cache"
    by (simp add: geometry_ok_def three_slot_cache_simps SIZE_MAX_def)
  show r0: "reach example_config three_slot_cache {#} Map.empty"
    by (rule reach.created [OF example_config_ok one_slot_env_ok(3) three_slot_create g])
  have n: "note_region three_slot_env three_slot_cache three_slot_idle Map.empty = [40000 \<mapsto> 8192]"
    by (simp add: note_region_def three_slot_idle_simps(2) three_slot_cache_simps use_bufctls_def
        all_slabs_def three_slot_env_def quiet_env_def)
  from reach.allocated [OF r0 three_slot_env_ok three_slot_idle_simps(1)]
  show "reach example_config three_slot_idle {#} [40000 \<mapsto> 8192]"
    by (simp add: n)
qed

subsection \<open>The region that \<open>kmem_slab_destroy\<close> gives back\<close>



subsection \<open>An allocation whose constructor fails\<close>

text \<open>
  The steps of \<open>__kmem_alloc_from_slab\<close> after the object is taken do not
  fail: the slab is on the list that \<open>alloc_account\<close> and
  \<open>__kmem_free_to_slab\<close> take it from, and \<open>__yank_bufctl\<close> finds the bufctl
  of the object.
\<close>

lemma track_alloc_frame:
  assumes "track_alloc cfg e cp bc = Inr (cp', evs)"
  shows "slabs cp' = slabs cp" and "partial_slab_list cp' = partial_slab_list cp"
  using assms
  by (auto simp: track_alloc_def try_hash_resize_def Let_def split: sum.splits if_splits)

lemma take_then_account:
  assumes tk: "alloc_take_obj cfg e cp1 a = Inr (retval, cp2, evs2)"
    and pa: "a \<in> set (partial_slab_list cp1)"
  shows "\<exists>cp3. alloc_account cp2 a = Inr cp3"
proof -
  from tk obtain s where s: "slabs cp1 a = Some s"
    by (auto simp: alloc_take_obj_def split: option.splits)
  have "(\<exists>s2. slabs cp2 a = Some s2) \<and> partial_slab_list cp2 = partial_slab_list cp1"
  proof (cases "use_bufctls cp1")
    case False
    with tk s show ?thesis by (auto simp: alloc_take_obj_def split: list.splits)
  next
    case True
    with tk s obtain bc rest where
      t: "track_alloc cfg e (cp1\<lparr>slabs := (slabs cp1)(a \<mapsto> s\<lparr>bufctl_freelist := rest\<rparr>)\<rparr>) bc
          = Inr (cp2, evs2)"
      by (auto simp: alloc_take_obj_def split: list.splits sum.splits)
    from track_alloc_frame [OF t] show ?thesis by simp
  qed
  with pa show ?thesis
    by (auto simp: alloc_account_def tailq_remove_def Let_def)
qed

lemma yank_found:
  assumes ho: "hash_ok cfg cp" and m: "bc \<in> set (hash_bufctls cp)"
    and d: "distinct (map buf_addr (hash_bufctls cp))"
  shows "\<exists>cp'. yank_bufctl cfg cp (buf_addr bc) = Inr (bc, cp')"
proof -
  let ?i = "hash_ptr cfg (buf_addr bc) (nr_hash_bits (hh cp))"
  from m obtain chain where "chain \<in> set (alloc_hash cp)" "bc \<in> set chain"
    by (auto simp: hash_bufctls_def)
  then obtain j where j: "j < length (alloc_hash cp)" "bc \<in> set (alloc_hash cp ! j)"
    by (auto simp: in_set_conv_nth)
  with ho have ij: "?i = j" by (auto simp: hash_ok_def tbl_ok_def)
  from j ij have "find (\<lambda>x. buf_addr x = buf_addr bc) (alloc_hash cp ! ?i) \<noteq> None"
    by (auto simp: find_None_iff)
  then obtain bc' where f: "find (\<lambda>x. buf_addr x = buf_addr bc) (alloc_hash cp ! ?i) = Some bc'"
    by auto
  then have e: "buf_addr bc' = buf_addr bc" and "bc' \<in> set (alloc_hash cp ! ?i)"
    by (auto simp: find_Some_iff)
  with j ij have m': "bc' \<in> set (hash_bufctls cp)"
    by (auto simp: hash_bufctls_def)
  from d have "inj_on buf_addr (set (hash_bufctls cp))" by (simp add: distinct_map)
  from inj_onD [OF this e m' m] have "bc' = bc" .
  with f j ij show ?thesis by (simp add: yank_bufctl_def Let_def)
qed

lemma free_to_slab_bufctl_ex:
  assumes u: "use_bufctls cp" and y: "yank_bufctl cfg cp buf = Inr (bc, cp1)"
    and s: "slabs cp (my_slab bc) = Some s"
    and l: "if num_busy_obj s = num_total_obj s then my_slab bc \<in> set (full_slab_list cp)
            else my_slab bc \<in> set (partial_slab_list cp)"
  shows "\<exists>cp'. kmem_free_to_slab cfg cp buf = Inr cp'"
proof -
  from yank_bufctl_Inr(5) [OF y] obtain t where cp1: "cp1 = cp\<lparr>alloc_hash := t\<rparr>" by blast
  show ?thesis
    using u y s l unfolding kmem_free_to_slab_def tailq_remove_def Let_def cp1
    by (cases "num_busy_obj s = num_total_obj s") auto
qed

lemma free_to_slab_embedded_ex:
  assumes u: "\<not> use_bufctls cp"
    and s: "slabs cp (ROUNDDOWN buf (PGSIZE cfg) + PGSIZE cfg - sizeof_kmem_slab cfg) = Some s"
    and l: "if num_busy_obj s = num_total_obj s
            then ROUNDDOWN buf (PGSIZE cfg) + PGSIZE cfg - sizeof_kmem_slab cfg \<in> set (full_slab_list cp)
            else ROUNDDOWN buf (PGSIZE cfg) + PGSIZE cfg - sizeof_kmem_slab cfg \<in> set (partial_slab_list cp)"
  shows "\<exists>cp'. kmem_free_to_slab cfg cp buf = Inr cp'"
  using u s l unfolding kmem_free_to_slab_def tailq_remove_def Let_def
  by (cases "num_busy_obj s = num_total_obj s") auto

text \<open>
  Taking an object from the slab \<open>a\<close> and giving it back: the slabs, the live
  counter and the bufctls of the hash are as before the object was taken.
\<close>

lemma free_after_take:
  assumes b2: "back_inv cfg kc2 reg" and l2: "nr_hash_lists (hh kc2) = length (alloc_hash kc2)"
    and cfg: "config_ok cfg" and pa: "a \<in> set (partial_slab_list kc2)"
    and tk: "alloc_take_obj cfg e kc2 a = Inr (retval, kc3, evs2)"
    and ac: "alloc_account kc3 a = Inr kc4"
  shows "\<exists>kc' s. kmem_free_to_slab cfg kc4 retval = Inr kc' \<and> slabs kc' = slabs kc2
     \<and> nr_cur_alloc kc' = nr_cur_alloc kc2
     \<and> mset (hash_bufctls kc') = mset (hash_bufctls kc2)
     \<and> slabs kc2 a = Some s
     \<and> (if use_bufctls kc2 then retval \<in> buf_addr ` set (bufctl_freelist s)
         else retval \<in> set (free_small_obj s))"
proof (cases "use_bufctls kc2")
  case True
  from b2 True have si2: "slab_inv kc2 reg" and ho2: "hash_ok cfg kc2" and g2: "geometry_ok kc2"
    by (simp_all add: back_inv_def)
  from take_account_bufctl [OF tk ac True cfg l2 ho2 pa] obtain s bc rest where
    s: "slabs kc2 a = Some s" and fl: "bufctl_freelist s = bc # rest" and rv: "retval = buf_addr bc"
    and sl4: "slabs kc4 = (slabs kc2)(a \<mapsto> s\<lparr>bufctl_freelist := rest, num_busy_obj := num_busy_obj s + 1\<rparr>)"
    and hm4: "mset (hash_bufctls kc4) = add_mset bc (mset (hash_bufctls kc2))"
    and ho4: "hash_ok cfg kc4"
    and al4: "set (all_slabs kc4) = set (all_slabs kc2)" and sf: "same_frame kc2 kc4"
    and nc4: "nr_cur_alloc kc4 = nr_cur_alloc kc2 + 1"
    and mem: "if num_busy_obj s + 1 = num_total_obj s then a \<in> set (full_slab_list kc4)
         else a \<in> set (partial_slab_list kc4)"
    by blast
  from sf True have u4: "use_bufctls kc4" by (simp add: same_frame_front(3))
  from slab_inv_take [OF si2 g2 s fl sl4 hm4 al4 sf] have si4: "slab_inv kc4 reg" and ms: "my_slab bc = a"
    by simp_all
  from g2 sf have g4: "0 < obj_size kc4" by (simp add: geometry_ok_def same_frame_def)
  from hash_addrs_distinct [OF si4 g4] have d4: "distinct (map buf_addr (hash_bufctls kc4))" .
  have m4: "bc \<in> set (hash_bufctls kc4)"
  proof -
    have "bc \<in># mset (hash_bufctls kc4)" by (simp only: hm4) simp
    then show ?thesis by simp
  qed
  let ?s4 = "s\<lparr>bufctl_freelist := rest, num_busy_obj := num_busy_obj s + 1\<rparr>"
  have s4: "slabs kc4 (my_slab bc) = Some ?s4" by (simp add: sl4 ms)
  from yank_found [OF ho4 m4 d4] obtain cpy where y: "yank_bufctl cfg kc4 retval = Inr (bc, cpy)"
    unfolding rv by blast
  have l: "if num_busy_obj ?s4 = num_total_obj ?s4 then my_slab bc \<in> set (full_slab_list kc4)
            else my_slab bc \<in> set (partial_slab_list kc4)"
    using mem by (simp add: ms)
  from free_to_slab_bufctl_ex [OF u4 y s4 l] obtain kc' where fr: "kmem_free_to_slab cfg kc4 retval = Inr kc'"
    by blast
  from free_bufctl [OF fr u4] obtain bc' s' where
    m': "bc' \<in> set (hash_bufctls kc4)" and e': "buf_addr bc' = retval"
    and s': "slabs kc4 (my_slab bc') = Some s'"
    and sl': "slabs kc' = (slabs kc4)(my_slab bc' \<mapsto>
          s'\<lparr>bufctl_freelist := bc' # bufctl_freelist s', num_busy_obj := num_busy_obj s' - 1\<rparr>)"
    and hm': "mset (hash_bufctls kc') = mset (hash_bufctls kc4) - {#bc'#}"
    and nc': "nr_cur_alloc kc' = nr_cur_alloc kc4 - 1"
    by blast
  from d4 have "inj_on buf_addr (set (hash_bufctls kc4))" by (simp add: distinct_map)
  from inj_onD [OF this _ m' m4] e' rv have bb: "bc' = bc" by simp
  from s' s4 have s'': "s' = ?s4" by (simp add: bb)
  have bk: "?s4\<lparr>bufctl_freelist := bc # bufctl_freelist ?s4, num_busy_obj := num_busy_obj ?s4 - 1\<rparr> = s"
    using fl [symmetric] by simp
  have "slabs kc' = (slabs kc2)(a \<mapsto> s)"
    unfolding sl' bb s'' bk by (simp add: sl4 ms)
  with s have r1: "slabs kc' = slabs kc2" by (simp add: map_upd_triv)
  have r2: "nr_cur_alloc kc' = nr_cur_alloc kc2" by (simp add: nc' nc4)
  have r3: "mset (hash_bufctls kc') = mset (hash_bufctls kc2)" by (simp add: hm' hm4 bb)
  have r4: "retval \<in> buf_addr ` set (bufctl_freelist s)" by (simp add: fl rv)
  from fr r1 r2 r3 s r4 True show ?thesis by auto
next
  case False
  from b2 False have pi2: "page_inv cfg kc2" by (simp add: back_inv_def)
  from take_account_embedded [OF tk ac False pa] obtain s rest where
    s: "slabs kc2 a = Some s" and fl: "free_small_obj s = retval # rest"
    and sl4: "slabs kc4 = (slabs kc2)(a \<mapsto> s\<lparr>free_small_obj := rest, num_busy_obj := num_busy_obj s + 1\<rparr>)"
    and ah4: "alloc_hash kc4 = alloc_hash kc2"
    and sf: "same_frame kc2 kc4"
    and nc4: "nr_cur_alloc kc4 = nr_cur_alloc kc2 + 1"
    and mem: "if num_busy_obj s + 1 = num_total_obj s then a \<in> set (full_slab_list kc4)
         else a \<in> set (partial_slab_list kc4)"
    by blast
  from sf False have u4: "\<not> use_bufctls kc4" by (simp add: same_frame_front(3))
  from page_inv_take(2) [OF pi2 s fl sl4]
  have pg: "ROUNDDOWN retval (PGSIZE cfg) + PGSIZE cfg - sizeof_kmem_slab cfg = a" .
  let ?s4 = "s\<lparr>free_small_obj := rest, num_busy_obj := num_busy_obj s + 1\<rparr>"
  have s4: "slabs kc4 (ROUNDDOWN retval (PGSIZE cfg) + PGSIZE cfg - sizeof_kmem_slab cfg) = Some ?s4"
    by (simp add: sl4 pg)
  have l: "if num_busy_obj ?s4 = num_total_obj ?s4
            then ROUNDDOWN retval (PGSIZE cfg) + PGSIZE cfg - sizeof_kmem_slab cfg \<in> set (full_slab_list kc4)
            else ROUNDDOWN retval (PGSIZE cfg) + PGSIZE cfg - sizeof_kmem_slab cfg \<in> set (partial_slab_list kc4)"
    using mem by (simp add: pg)
  from free_to_slab_embedded_ex [OF u4 s4 l] obtain kc' where fr: "kmem_free_to_slab cfg kc4 retval = Inr kc'"
    by blast
  from free_embedded [OF fr u4] obtain s' where
    s': "slabs kc4 (ROUNDDOWN retval (PGSIZE cfg) + PGSIZE cfg - sizeof_kmem_slab cfg) = Some s'"
    and sl': "slabs kc' = (slabs kc4)(ROUNDDOWN retval (PGSIZE cfg) + PGSIZE cfg - sizeof_kmem_slab cfg \<mapsto>
          s'\<lparr>free_small_obj := retval # free_small_obj s', num_busy_obj := num_busy_obj s' - 1\<rparr>)"
    and ah': "alloc_hash kc' = alloc_hash kc4"
    and nc': "nr_cur_alloc kc' = nr_cur_alloc kc4 - 1"
    by blast
  from s' s4 have s'': "s' = ?s4" by simp
  have bk: "?s4\<lparr>free_small_obj := retval # free_small_obj ?s4, num_busy_obj := num_busy_obj ?s4 - 1\<rparr> = s"
    using fl [symmetric] by simp
  have "slabs kc' = (slabs kc2)(a \<mapsto> s)"
    unfolding sl' s'' bk pg by (simp add: sl4)
  with s have r1: "slabs kc' = slabs kc2" by (simp add: map_upd_triv)
  have r2: "nr_cur_alloc kc' = nr_cur_alloc kc2" by (simp add: nc' nc4)
  have r3: "mset (hash_bufctls kc') = mset (hash_bufctls kc2)" by (simp add: hash_bufctls_def ah' ah4)
  have r4: "retval \<in> set (free_small_obj s)" by (simp add: fl)
  from fr r1 r2 r3 s r4 False show ?thesis by auto
qed

text \<open>
  C6: in a cache with a constructor that \<open>kmem_cache_create\<close> made and calls
  of \<open>kmem_cache_alloc\<close> and \<open>kmem_cache_free\<close> have brought to its state, take
  an allocation that finds nothing in the magazines, picks the slab \<open>a\<close>
  (growing the cache if it must) and takes the object \<open>retval\<close> from it.
  When the constructor fails on that object, \<open>kmem_cache_alloc\<close> returns
  \<open>NULL\<close>, having called the constructor once. The live counter is what it was
  before the allocation. The slabs are what they were when the slab was
  picked, before the object was taken: the object is on the free list of
  \<open>a\<close> again, and \<open>a\<close> is the slab it was before the allocation, with its busy
  count, or the new slab with no busy object if the allocation grew the
  cache. The bufctls in the hash are those from before the allocation.
\<close>

theorem ctor_failure_returns_slot:
  assumes r: "reach cfg kc out reg" and env: "env_ok cfg e kc reg"
    and c: "ctor kc = Some c"
    and ta: "try_alloc cfg e cpu 0 kc = Inr (None, kc1)"
    and p: "alloc_pick_slab cfg e kc1 fl = Inr (a, kc2, evs1)"
    and tk: "alloc_take_obj cfg e kc2 a = Inr (retval, kc3, evs2)"
    and f: "c retval fl \<noteq> 0"
  shows "\<exists>kc' s. kmem_cache_alloc cfg e cpu kc fl = Inr (NULL, kc', evs1 @ evs2 @ [CTOR retval])
     \<and> nr_cur_alloc kc' = nr_cur_alloc kc
     \<and> slabs kc' = slabs kc2
     \<and> mset (hash_bufctls kc') = mset (hash_bufctls kc)
     \<and> slabs kc' a = Some s
     \<and> (if use_bufctls kc then retval \<in> buf_addr ` set (bufctl_freelist s)
         else retval \<in> set (free_small_obj s))
     \<and> (slabs kc a = Some s
         \<or> num_busy_obj s = 0 \<and> partial_slab_list kc = [] \<and> empty_slab_list kc = [])"
proof -
  from reach_accounted [OF r] have cfg: "config_ok cfg" and acc: "accounted cfg kc out" by simp_all
  note A = accountedD [OF acc]
  from reach_back_inv [OF r] have bi: "back_inv cfg kc reg" .
  from try_alloc_Inr [OF ta A(1)] have sb: "same_back kc kc1" by simp
  note S = same_back_fields [OF sb]
  note SI = same_back_inv [OF sb]
  have b1: "back_inv cfg kc1 reg" using bi by (simp add: SI(1))
  have e1: "env_ok cfg e kc1 reg" using env by (simp add: SI(3))
  have n1: "nonnull kc1" using A(2) by (simp add: S)
  have l1: "nr_hash_lists (hh kc1) = length (alloc_hash kc1)" using A(4) by (simp add: S)
  from pick_back_inv [OF b1 e1 p] have b2: "back_inv cfg kc2 (note_region e kc1 kc2 reg)" .
  note P = alloc_pick_slab_Inr [OF p n1]
  note PS = pick_summary [OF p]
  from PS have pa: "a \<in> set (partial_slab_list kc2)" by simp
  from P l1 have l2: "nr_hash_lists (hh kc2) = length (alloc_hash kc2)"
    and sf12: "same_frame kc1 kc2" and nc2: "nr_cur_alloc kc2 = nr_cur_alloc kc1"
    and ah2: "alloc_hash kc2 = alloc_hash kc1"
    by simp_all
  from take_then_account [OF tk pa] obtain kc4 where ac: "alloc_account kc3 a = Inr kc4" by blast
  from take_account_back_inv(4) [OF b2 l2 cfg pa tk ac] have sf24: "same_frame kc2 kc4" .
  have ct: "ctor kc4 = Some c"
    using c sf12 sf24 by (simp add: same_frame_def S)
  from free_after_take [OF b2 l2 cfg pa tk ac] obtain kc' s where
    fr: "kmem_free_to_slab cfg kc4 retval = Inr kc'" and sl: "slabs kc' = slabs kc2"
    and nc: "nr_cur_alloc kc' = nr_cur_alloc kc2"
    and hm: "mset (hash_bufctls kc') = mset (hash_bufctls kc2)"
    and s: "slabs kc2 a = Some s"
    and bk: "if use_bufctls kc2 then retval \<in> buf_addr ` set (bufctl_freelist s)
         else retval \<in> set (free_small_obj s)"
    by blast
  have u2: "use_bufctls kc2 = use_bufctls kc"
    using sf12 by (simp add: same_frame_front(3) S)
  have res: "kmem_cache_alloc cfg e cpu kc fl = Inr (NULL, kc', evs1 @ evs2 @ [CTOR retval])"
    unfolding kmem_cache_alloc_def kmem_alloc_from_slab_def
    by (simp add: ta p tk ac ct f fr)
  have before: "slabs kc a = Some s
         \<or> num_busy_obj s = 0 \<and> partial_slab_list kc = [] \<and> empty_slab_list kc = []"
    using PS s by (auto simp: S)
  have "nr_cur_alloc kc' = nr_cur_alloc kc" by (simp add: nc nc2 S)
  moreover have "hash_bufctls kc2 = hash_bufctls kc"
    by (simp add: hash_bufctls_def ah2 S(2))
  with hm have "mset (hash_bufctls kc') = mset (hash_bufctls kc)" by simp
  moreover have "slabs kc' a = Some s" by (simp add: sl s)
  ultimately show ?thesis
    using res sl bk before by (auto simp: u2)
qed

theorem ctor_failure_returns_slot_witness:
  "reach example_config three_slot_cache {#} Map.empty
   \<and> env_ok example_config three_slot_env three_slot_cache Map.empty
   \<and> ctor three_slot_cache = Some (\<lambda>buf fl. 1)
   \<and> try_alloc example_config three_slot_env 0 0 three_slot_cache = Inr (None, three_slot_cache)
   \<and> alloc_pick_slab example_config three_slot_env three_slot_cache {} = Inr (40000, three_slot_picked, [])
   \<and> alloc_take_obj example_config three_slot_env three_slot_picked 40000 = Inr (16384, three_slot_taken, [])
   \<and> kmem_cache_alloc example_config three_slot_env 0 three_slot_cache {}
       = Inr (NULL, three_slot_idle, [CTOR 16384])
   \<and> nr_cur_alloc three_slot_idle = nr_cur_alloc three_slot_cache
   \<and> slabs three_slot_idle = slabs three_slot_picked
   \<and> mset (hash_bufctls three_slot_idle) = mset (hash_bufctls three_slot_cache)
   \<and> slabs three_slot_idle 40000
       = Some \<lparr>num_busy_obj = 0, num_total_obj = 3, free_small_obj = [],
               bufctl_freelist = [\<lparr>buf_addr = 16384, my_slab = 40000\<rparr>,
                                  \<lparr>buf_addr = 12288, my_slab = 40000\<rparr>,
                                  \<lparr>buf_addr = 8192, my_slab = 40000\<rparr>]\<rparr>"
proof -
  have c: "ctor three_slot_cache = Some (\<lambda>buf fl. 1)"
    by (simp add: three_slot_cache_simps)
  have f: "(\<lambda>buf fl. 1 :: int) (16384 :: nat) ({} :: mem_flag set) \<noteq> 0" by simp
  from ctor_failure_returns_slot [OF three_slot_reach(1) three_slot_env_ok c three_slot_try_alloc
      three_slot_picked_simps(1) three_slot_taken_simps(1) f]
  obtain kc' s where
    "kmem_cache_alloc example_config three_slot_env 0 three_slot_cache {} = Inr (NULL, kc', [] @ [] @ [CTOR 16384])"
    and k: "nr_cur_alloc kc' = nr_cur_alloc three_slot_cache" "slabs kc' = slabs three_slot_picked"
      "mset (hash_bufctls kc') = mset (hash_bufctls three_slot_cache)"
    by blast
  then have "kc' = three_slot_idle" by (simp add: three_slot_idle_simps(1))
  with k three_slot_reach(1) three_slot_env_ok c three_slot_try_alloc three_slot_picked_simps(1)
    three_slot_taken_simps(1) three_slot_idle_simps(1)
  show ?thesis by (simp add: three_slot_idle_simps(2) three_slot_picked_simps(2))
qed

end
